(* ===== verification/Prelude.thy ===== *)
theory Prelude
  imports Main "HOL-Library.Word" "HOL-Library.List_Lexorder" "HOL-Library.Char_ord"
begin

text \<open>
  Shared vocabulary of the development: bytes and byte strings, results that carry either an
  error or a value (a JavaScript \<^verbatim>\<open>throw\<close> is an \<open>Inl\<close>), the two contracts that byte-level
  encoders fulfil (a stream codec with a decoder, and the weaker unique readability that the
  content hash relies on), and generic facts about lists and association lists.

  A JavaScript string is represented by the bytes of its WTF-8 encoding. That encoding is a
  bijection between JavaScript strings and well-formed WTF-8 byte strings, it maps each ASCII
  character to the one byte of the same code, and it orders strings by code point; so equality,
  splitting and replacing at ASCII characters, the canonical key order (UTF-8 byte order) and the
  byte length the hash format records are the operations of \<^typ>\<open>string\<close> itself.
\<close>

named_theorems result_simps \<open>case analysis of results\<close>

type_synonym byte = "8 word"
type_synonym bytes = "byte list"
type_synonym u32 = "32 word"

section \<open>Results\<close>

definition bindR :: "'e + 'a \<Rightarrow> ('a \<Rightarrow> 'e + 'b) \<Rightarrow> 'e + 'b" where
  "bindR r f = (case r of Inl e \<Rightarrow> Inl e | Inr x \<Rightarrow> f x)"

fun mapR :: "('a \<Rightarrow> 'e + 'b) \<Rightarrow> 'a list \<Rightarrow> 'e + 'b list" where
  "mapR f [] = Inr []"
| "mapR f (x # xs) = bindR (f x) (\<lambda>y. bindR (mapR f xs) (\<lambda>ys. Inr (y # ys)))"

fun foldR :: "('s \<Rightarrow> 'a \<Rightarrow> 'e + 's) \<Rightarrow> 's \<Rightarrow> 'a list \<Rightarrow> 'e + 's" where
  "foldR f s [] = Inr s"
| "foldR f s (x # xs) = bindR (f s x) (\<lambda>s'. foldR f s' xs)"

lemma bindR_simps [simp]:
  "bindR (Inl e) f = Inl e"
  "bindR (Inr x) f = f x"
  by (simp_all add: bindR_def)

lemma bindR_eq_Inr [result_simps]: "bindR r f = Inr y \<longleftrightarrow> (\<exists>x. r = Inr x \<and> f x = Inr y)"
  by (cases r) auto

lemma bindR_eq_Inl [result_simps]:
  "bindR r f = Inl e \<longleftrightarrow> r = Inl e \<or> (\<exists>x. r = Inr x \<and> f x = Inl e)"
  by (cases r) auto

lemma bindR_cong [fundef_cong]:
  "r = r' \<Longrightarrow> (\<And>x. r' = Inr x \<Longrightarrow> f x = g x) \<Longrightarrow> bindR r f = bindR r' g"
  by (cases r') auto

lemma mapR_cong [fundef_cong]:
  "xs = ys \<Longrightarrow> (\<And>x. x \<in> set ys \<Longrightarrow> f x = g x) \<Longrightarrow> mapR f xs = mapR g ys"
  by (induction ys arbitrary: xs) auto

lemma foldR_append: "foldR f s (xs @ ys) = bindR (foldR f s xs) (\<lambda>s'. foldR f s' ys)"
proof (induction xs arbitrary: s)
  case Nil
  then show ?case by simp
next
  case (Cons x xs)
  then show ?case by (cases "f s x") auto
qed

lemma foldR_invariant:
  assumes "\<And>s x s'. P s \<Longrightarrow> f s x = Inr s' \<Longrightarrow> P s'" and "P s" and "foldR f s xs = Inr s'"
  shows "P s'"
  using assms(2,3) by (induction xs arbitrary: s) (auto simp: result_simps intro: assms(1))

section \<open>Contracts of byte encoders\<close>

text \<open>
  \<open>readable\<close>: an encoding may be followed by anything and still determines what was encoded and
  where it ends. \<open>stream_codec\<close>: a decoder reads one encoding off the front of a stream.
  The second contract implies the first.
\<close>

locale readable =
  fixes enc :: "'a \<Rightarrow> 'b list option"
  assumes read: "enc a = Some x \<Longrightarrow> enc b = Some y \<Longrightarrow> x @ r = y @ s \<Longrightarrow> a = b \<and> r = s"
begin

lemma enc_inj: "enc a = Some x \<Longrightarrow> enc b = Some x \<Longrightarrow> a = b"
  using read [of a x b x "[]" "[]"] by simp

lemma not_strict_prefix: "enc a = Some x \<Longrightarrow> enc b = Some (x @ z) \<Longrightarrow> z = []"
  using read [of a x b "x @ z" z "[]"] by simp

end

locale stream_codec =
  fixes enc :: "'a \<Rightarrow> 'b list option"
    and dec :: "'b list \<Rightarrow> ('a \<times> 'b list) option"
  assumes dec_enc: "enc a = Some x \<Longrightarrow> dec (x @ r) = Some (a, r)"

sublocale stream_codec \<subseteq> readable enc
proof
  fix a x b y r s
  assume "enc a = Some x" "enc b = Some y" "x @ r = y @ s"
  then have "Some (a, r) = Some (b, s)"
    by (metis dec_enc)
  then show "a = b \<and> r = s" by simp
qed

end
