(* ===== verification/Float64.thy ===== *)
theory Float64
  imports Prelude
begin

text \<open>
  JavaScript numbers: IEEE 754 binary64, kept as their 64 bits. A finite number is an integer
  multiple of two to the minus 1074, so its value is the integer \<open>f64_units\<close>, and addition is the exact
  integer sum rounded to nearest, ties to even. The language's number operations that the
  modelled sources use are defined here: \<^verbatim>\<open>Number.isFinite\<close>, \<^verbatim>\<open>Object.is\<close>, \<^verbatim>\<open><=\<close> and \<^verbatim>\<open>+\<close>.
\<close>

type_synonym f64 = "64 word"

definition f64_neg :: "f64 \<Rightarrow> bool" where "f64_neg w \<longleftrightarrow> 2 ^ 63 \<le> unat w"
definition f64_exp :: "f64 \<Rightarrow> nat" where "f64_exp w = unat w div 2 ^ 52 mod 2 ^ 11"
definition f64_frac :: "f64 \<Rightarrow> nat" where "f64_frac w = unat w mod 2 ^ 52"

definition f64_finite :: "f64 \<Rightarrow> bool" where "f64_finite w \<longleftrightarrow> f64_exp w \<noteq> 2047"
definition f64_nan :: "f64 \<Rightarrow> bool" where "f64_nan w \<longleftrightarrow> f64_exp w = 2047 \<and> f64_frac w \<noteq> 0"
definition f64_NaN :: f64 where "f64_NaN = 0x7FF8000000000000"

definition f64_mag :: "f64 \<Rightarrow> nat" where
  "f64_mag w = (if f64_exp w = 0 then f64_frac w else (2 ^ 52 + f64_frac w) * 2 ^ (f64_exp w - 1))"

definition f64_units :: "f64 \<Rightarrow> int" where
  "f64_units w = (if f64_neg w then - int (f64_mag w) else int (f64_mag w))"

fun bit_length :: "nat \<Rightarrow> nat" where
  "bit_length n = (if n = 0 then 0 else Suc (bit_length (n div 2)))"

declare bit_length.simps [simp del]

definition f64_round :: "bool \<Rightarrow> nat \<Rightarrow> f64" where
  "f64_round neg m =
     (let s = bit_length m - 53; q = m div 2 ^ s; r = m mod 2 ^ s;
          q' = (if 2 ^ s < 2 * r \<or> (2 * r = 2 ^ s \<and> odd q) then q + 1 else q)
      in word_of_nat ((if neg then 2 ^ 63 else 0) + min (2047 * 2 ^ 52) (s * 2 ^ 52 + q')))"

definition f64_is :: "f64 \<Rightarrow> f64 \<Rightarrow> bool" where
  "f64_is a b \<longleftrightarrow> a = b \<or> (f64_nan a \<and> f64_nan b)"

definition f64_is_zero :: "f64 \<Rightarrow> bool" where
  "f64_is_zero a \<longleftrightarrow> f64_mag a = 0"

definition f64_le :: "f64 \<Rightarrow> f64 \<Rightarrow> bool" where
  "f64_le a b \<longleftrightarrow> \<not> f64_nan a \<and> \<not> f64_nan b \<and> f64_units a \<le> f64_units b"

definition f64_add :: "f64 \<Rightarrow> f64 \<Rightarrow> f64" where
  "f64_add a b =
     (if f64_nan a \<or> f64_nan b then f64_NaN
      else if \<not> f64_finite a then (if f64_finite b \<or> f64_neg a = f64_neg b then a else f64_NaN)
      else if \<not> f64_finite b then b
      else
        let u = f64_units a + f64_units b in
        if u = 0 then (if f64_neg a \<and> f64_neg b then f64_round True 0 else f64_round False 0)
        else f64_round (u < 0) (nat \<bar>u\<bar>))"

definition f64_one_units :: nat where
  "f64_one_units = 2 ^ 1074"

definition f64_of_int :: "int \<Rightarrow> f64" where
  "f64_of_int n = f64_round (n < 0) (nat \<bar>n\<bar> * f64_one_units)"

section \<open>Rounding an exactly representable value\<close>

lemma bit_length_0 [simp]: "bit_length 0 = 0"
  by (simp add: bit_length.simps)

lemma bit_length_bounds: "n > 0 \<Longrightarrow> 2 ^ (bit_length n - 1) \<le> n \<and> n < 2 ^ bit_length n \<and> bit_length n > 0"
proof (induction n rule: bit_length.induct)
  case (1 n)
  show ?case
  proof (cases "n = 1")
    case True
    then show ?thesis by (simp add: bit_length.simps)
  next
    case False
    let ?k = "bit_length (n div 2)"
    have IH: "2 ^ (?k - 1) \<le> n div 2" "n div 2 < 2 ^ ?k" "?k > 0"
      using 1 False by auto
    then have "2 * 2 ^ (?k - 1) \<le> n" "n < 2 * 2 ^ ?k"
      by linarith+
    then show ?thesis
      using 1 IH(3) by (subst (1 2 3) bit_length.simps) (simp flip: power_Suc)
  qed
qed

lemma bit_length_unique:
  assumes "2 ^ k \<le> n" "n < 2 ^ Suc k"
  shows "bit_length n = Suc k"
proof -
  have "n > 0" using assms by (metis gr0I le_zero_eq power_not_zero zero_neq_numeral)
  note b = bit_length_bounds [OF this]
  have "(2::nat) ^ k < 2 ^ bit_length n" using assms(1) b by linarith
  moreover have "(2::nat) ^ (bit_length n - 1) < 2 ^ Suc k" using assms(2) b by linarith
  ultimately have "k < bit_length n" "bit_length n - 1 < Suc k"
    by (simp_all del: power_Suc)
  then show ?thesis by simp
qed

lemma bit_length_shift: "n > 0 \<Longrightarrow> bit_length (n * 2 ^ k) = bit_length n + k"
proof -
  assume "n > 0"
  then obtain j where j: "bit_length n = Suc j" "2 ^ j \<le> n" "n < 2 ^ Suc j"
    using bit_length_bounds [of n] by (cases "bit_length n") auto
  have "2 ^ (j + k) \<le> n * 2 ^ k" "n * 2 ^ k < 2 ^ Suc (j + k)"
    using j by (simp_all add: power_add)
  from bit_length_unique [OF this] show ?thesis
    using j by simp
qed

definition f64_exact :: "nat \<Rightarrow> bool" where
  "f64_exact m \<longleftrightarrow> 2 ^ (bit_length m - 53) dvd m \<and> bit_length m \<le> 2098"

lemma f64_exact_quotient:
  assumes "f64_exact m"
  obtains s q where "s = bit_length m - 53" "m = q * 2 ^ s" "q < 2 ^ 53" "s > 0 \<longrightarrow> 2 ^ 52 \<le> q" "s \<le> 2045"
proof -
  let ?s = "bit_length m - 53"
  obtain q where q: "m = q * 2 ^ ?s"
    using assms by (auto simp: f64_exact_def dvd_def mult.commute)
  have "q < 2 ^ 53 \<and> (?s > 0 \<longrightarrow> 2 ^ 52 \<le> q)"
  proof (cases "m = 0")
    case False
    then have "m > 0" by simp
    note b = bit_length_bounds [OF this]
    show ?thesis
    proof (cases "?s > 0")
      case True
      then have "bit_length m = 53 + ?s" "bit_length m - 1 = 52 + ?s" by simp_all
      then have "2 ^ 52 * 2 ^ ?s \<le> q * 2 ^ ?s" "q * 2 ^ ?s < 2 ^ 53 * 2 ^ ?s"
        using b q by (metis power_add, metis power_add)
      then show ?thesis by simp
    next
      case False
      then have "(2::nat) ^ bit_length m \<le> 2 ^ 53"
        by (intro power_increasing) auto
      then show ?thesis using b q False by simp
    qed
  qed (use q in auto)
  moreover have "?s \<le> 2045"
    using assms unfolding f64_exact_def by linarith
  ultimately show thesis
    using that [OF refl q] by (elim conjE)
qed

lemma f64_fields:
  assumes "B < 2047 * 2 ^ 52"
  shows "f64_neg (word_of_nat ((if neg then 2 ^ 63 else 0) + B)) = neg"
    and "f64_exp (word_of_nat ((if neg then 2 ^ 63 else 0) + B)) = B div 2 ^ 52"
    and "f64_frac (word_of_nat ((if neg then 2 ^ 63 else 0) + B)) = B mod 2 ^ 52"
proof -
  have u: "unat (word_of_nat ((if neg then 2 ^ 63 else 0) + B) :: f64) = (if neg then 2 ^ 63 else 0) + B"
  proof -
    have "(if neg then 2 ^ 63 else 0) + B < 2 ^ 64" using assms by simp
    then show ?thesis by (simp only: unsigned_of_nat len_bit0 len_num1) (simp add: take_bit_nat_eq_self)
  qed
  show "f64_neg (word_of_nat ((if neg then 2 ^ 63 else 0) + B)) = neg"
    unfolding f64_neg_def u using assms by (cases neg) simp_all
  have "((2::nat) ^ 63 + B) div 2 ^ 52 = 2 ^ 11 + B div 2 ^ 52" "B div 2 ^ 52 < 2 ^ 11"
    using assms by simp_all
  then show "f64_exp (word_of_nat ((if neg then 2 ^ 63 else 0) + B)) = B div 2 ^ 52"
    unfolding f64_exp_def u by (cases neg) (simp_all add: mod_add_left_eq [symmetric])
  have "(2::nat) ^ 63 = 2 ^ 11 * 2 ^ 52" by simp
  then have "((2::nat) ^ 63 + B) mod 2 ^ 52 = B mod 2 ^ 52"
    by (simp only: mod_mult_self3)
  then show "f64_frac (word_of_nat ((if neg then 2 ^ 63 else 0) + B)) = B mod 2 ^ 52"
    by (simp only: f64_frac_def u split: if_splits) simp
qed

lemma f64_mag_packed:
  assumes "f64_exp w = (s * 2 ^ 52 + q) div 2 ^ 52" "f64_frac w = (s * 2 ^ 52 + q) mod 2 ^ 52"
    and "q < 2 ^ 53" "s > 0 \<longrightarrow> 2 ^ 52 \<le> q"
  shows "f64_mag w = q * 2 ^ s"
proof (cases "2 ^ 52 \<le> q")
  case True
  then obtain f where f: "q = 2 ^ 52 + f" "f < 2 ^ 52"
    using assms(3) le_Suc_ex by fastforce
  then have "s * 2 ^ 52 + q = f + Suc s * 2 ^ 52" by simp
  then have "f64_exp w = Suc s" "f64_frac w = f"
    using assms(1,2) f(2) by (simp_all only: div_mult_self1 mod_mult_self1) simp_all
  then show ?thesis by (simp add: f64_mag_def f(1))
next
  case False
  then have "s = 0" using assms(4) by simp
  then show ?thesis using assms(1,2) False by (simp add: f64_mag_def)
qed

lemma f64_round_exact:
  assumes "f64_exact m"
  shows "f64_units (f64_round neg m) = (if neg then - int m else int m)"
    and "f64_finite (f64_round neg m)" and "f64_neg (f64_round neg m) = neg"
proof -
  obtain s q where s: "s = bit_length m - 53" "m = q * 2 ^ s" "q < 2 ^ 53"
    "s > 0 \<longrightarrow> 2 ^ 52 \<le> q" "s \<le> 2045"
    using f64_exact_quotient [OF assms] by blast
  let ?B = "s * 2 ^ 52 + q"
  have B: "?B < 2047 * 2 ^ 52" using s(3,5) by simp
  have "m div 2 ^ s = q" "m mod 2 ^ s = 0" by (simp_all add: s(2))
  then have w: "f64_round neg m = word_of_nat ((if neg then 2 ^ 63 else 0) + ?B)"
    using B by (simp add: f64_round_def Let_def s(1) [symmetric] min_absorb2)
  note f = f64_fields [OF B, of neg, folded w]
  show "f64_neg (f64_round neg m) = neg" by (rule f)
  have "?B div 2 ^ 52 < 2047" using B by (simp only: less_mult_imp_div_less)
  then show "f64_finite (f64_round neg m)"
    by (simp add: f64_finite_def f(2))
  have "f64_mag (f64_round neg m) = m"
    using f64_mag_packed [OF f(2,3) s(3,4)] s(2) by simp
  then show "f64_units (f64_round neg m) = (if neg then - int m else int m)"
    by (simp only: f64_units_def f(1))
qed

lemma f64_exact_int:
  assumes "\<bar>n\<bar> \<le> 2 ^ 53"
  shows "f64_exact (nat \<bar>n\<bar> * f64_one_units)"
proof (cases "n = 0")
  case False
  let ?a = "nat \<bar>n\<bar>"
  have a: "?a > 0" "?a \<le> 2 ^ 53" using assms False by auto
  note b = bit_length_bounds [OF a(1)]
  have len: "bit_length (?a * f64_one_units) = bit_length ?a + 1074"
    unfolding f64_one_units_def by (rule bit_length_shift [OF a(1)])
  show ?thesis
  proof (cases "?a = 2 ^ 53")
    case True
    then have "bit_length ?a = 54" using bit_length_unique [of 53 ?a] by simp
    with len have len: "bit_length (?a * f64_one_units) = 54 + 1074" by simp
    then show ?thesis
      unfolding f64_exact_def len unfolding True f64_one_units_def power_add [symmetric]
      by (intro conjI le_imp_power_dvd) simp_all
  next
    case False
    then have "(2::nat) ^ (bit_length ?a - 1) < 2 ^ 53" using a b by linarith
    then have "bit_length ?a - 1 < 53"
      by (rule power_less_imp_less_exp [rotated]) simp
    then have "bit_length ?a \<le> 53" by linarith
    then show ?thesis
      unfolding f64_exact_def len unfolding f64_one_units_def
      by (intro conjI dvd_mult le_imp_power_dvd) linarith+
  qed
qed (simp add: f64_exact_def)

lemma f64_units_of_int: "\<bar>n\<bar> \<le> 2 ^ 53 \<Longrightarrow> f64_units (f64_of_int n) = n * int f64_one_units"
  using f64_round_exact(1) [OF f64_exact_int, of n "n < 0"] by (simp add: f64_of_int_def)

lemma f64_finite_not_nan: "f64_finite w \<Longrightarrow> \<not> f64_nan w"
  by (simp add: f64_finite_def f64_nan_def)

lemma f64_finite_of_int: "\<bar>n\<bar> \<le> 2 ^ 53 \<Longrightarrow> f64_finite (f64_of_int n)"
  using f64_round_exact(2) [OF f64_exact_int, of n "n < 0"] by (simp add: f64_of_int_def)

lemma f64_neg_of_int: "\<bar>n\<bar> \<le> 2 ^ 53 \<Longrightarrow> f64_neg (f64_of_int n) \<longleftrightarrow> n < 0"
  using f64_round_exact(3) [OF f64_exact_int, of n "n < 0"] by (simp add: f64_of_int_def)

lemma f64_add_of_int:
  assumes "\<bar>a\<bar> \<le> 2 ^ 53" "\<bar>b\<bar> \<le> 2 ^ 53"
  shows "f64_add (f64_of_int a) (f64_of_int b) = f64_of_int (a + b)"
proof -
  have u: "f64_units (f64_of_int a) + f64_units (f64_of_int b) = (a + b) * int f64_one_units"
    using assms by (simp add: f64_units_of_int algebra_simps)
  have one: "f64_one_units > 0" by (simp only: f64_one_units_def) (rule zero_less_power, simp)
  note fin = f64_finite_of_int [OF assms(1)] f64_finite_of_int [OF assms(2)]
  show ?thesis
  proof (cases "a + b = 0")
    case True
    then have "\<not> (a < 0 \<and> b < 0)" by simp
    then show ?thesis
      using True u assms fin
      by (auto simp: f64_add_def Let_def f64_finite_not_nan f64_neg_of_int f64_of_int_def [of 0])
  next
    case False
    then show ?thesis
      using u fin one by (auto simp: f64_add_def Let_def f64_finite_not_nan f64_of_int_def [of "a + b"]
          mult_less_0_iff abs_mult nat_mult_distrib)
  qed
qed

lemma f64_add_commute: "\<not> f64_nan a \<Longrightarrow> \<not> f64_nan b \<Longrightarrow> f64_finite a \<or> f64_finite b \<Longrightarrow> f64_add a b = f64_add b a"
  by (auto simp: f64_add_def Let_def add.commute)

end
