(* ===== verification/FabricValue.thy ===== *)
theory FabricValue
  imports Float64
begin

text \<open>
  The values Common Fabric stores (\<^verbatim>\<open>FabricValue\<close>, \<^verbatim>\<open>base/data-model/src\<close>), the language's
  reading of them (own properties, array index names) and the structural equality
  \<^verbatim>\<open>deepEqual\<close> (\<^verbatim>\<open>base/js-values/src/deep-equal.ts\<close>).

  An array is a list whose \<open>None\<close> entries are holes; a plain object is the list of its own
  properties in property order. A \<^verbatim>\<open>FabricInstance\<close> is its class, its codec's tag and the state
  its codec encodes, \<open>None\<close> where the codec is a stub that refuses. Values are trees: the model
  has no cyclic value.
\<close>

datatype fprim =
    EpochNsec int
  | EpochDay int
  | DurationNsec int
  | DurationDay int
  | HashPrim string bytes \<comment> \<open>tag and digest\<close>
  | BytesPrim bytes
  | RegExpPrim string string string \<comment> \<open>source, flags, flavor\<close>
  | KeyPairPrim string bytes bytes \<comment> \<open>algorithm, public and private key bytes\<close>
  | OpaqueKeyPair string nat \<comment> \<open>algorithm; the handles are reachable by identity only\<close>
  | UnavailablePrim string "string option" "string option" \<comment> \<open>reason, error kind, message\<close>

datatype fval =
    FUndefined
  | FNull
  | FBool bool
  | FNum f64
  | FBigInt int
  | FStr string
  | FSym string \<comment> \<open>an interned symbol, by its registry key\<close>
  | FUniqueSym nat
  | FArr "fval option list"
  | FObj "(string \<times> fval) list"
  | FPrim fprim
  | FInst string string "fval option" \<comment> \<open>class, codec tag, encoded state\<close>

type_synonym props = "(string \<times> fval) list"

lemma size_fval_elem [termination_simp]:
  "x \<in> set xs \<Longrightarrow> v \<in> set_option x \<Longrightarrow> size v < Suc (size_list (size_option size) xs)"
  "Some v \<in> set xs \<Longrightarrow> size v < Suc (size_list (size_option size) xs)"
  by (auto simp: size_list_estimation less_Suc_eq_le option.set_sel intro!: size_list_estimation' split: option.splits)

lemma size_fval_prop [termination_simp]:
  "(k, v) \<in> set ps \<Longrightarrow> size v < Suc (size_list (size_prod (\<lambda>_. 0) size) ps)"
  by (force simp: less_Suc_eq_le intro!: size_list_estimation')

section \<open>Shapes\<close>

fun isObjectOrArray :: "fval \<Rightarrow> bool" where
  "isObjectOrArray (FArr _) = True"
| "isObjectOrArray (FObj _) = True"
| "isObjectOrArray (FPrim _) = True"
| "isObjectOrArray (FInst _ _ _) = True"
| "isObjectOrArray _ = False"

fun isArray :: "fval \<Rightarrow> bool" where
  "isArray (FArr _) = True"
| "isArray _ = False"

definition isObjectNotArray :: "fval \<Rightarrow> bool" where
  "isObjectNotArray v \<longleftrightarrow> isObjectOrArray v \<and> \<not> isArray v"

fun isFabricPlainObject :: "fval \<Rightarrow> bool" where
  "isFabricPlainObject (FObj _) = True"
| "isFabricPlainObject _ = False"

definition isFabricPlainContainer :: "fval \<Rightarrow> bool" where
  "isFabricPlainContainer v \<longleftrightarrow> isArray v \<or> isFabricPlainObject v"

fun isFabricInstance :: "fval \<Rightarrow> bool" where
  "isFabricInstance (FInst _ _ _) = True"
| "isFabricInstance _ = False"

definition isFabricContainerValue :: "fval \<Rightarrow> bool" where
  "isFabricContainerValue v \<longleftrightarrow> isFabricPlainContainer v \<or> isFabricInstance v"

section \<open>Array index names\<close>

definition digit_of :: "char \<Rightarrow> nat option" where
  "digit_of c = (let n = (of_char c :: nat) in if 48 \<le> n \<and> n \<le> 57 then Some (n - 48) else None)"

fun digits_value :: "nat \<Rightarrow> string \<Rightarrow> nat option" where
  "digits_value num [] = Some num"
| "digits_value num (c # cs) =
     (case digit_of c of None \<Rightarrow> None | Some d \<Rightarrow> digits_value (num * 10 + d) cs)"

definition isArrayIndexPropertyName :: "string \<Rightarrow> bool" where
  "isArrayIndexPropertyName name =
     (case name of
        [] \<Rightarrow> False
      | c # _ \<Rightarrow>
          if c = CHR ''0'' then name = ''0''
          else if digit_of c = None then False
          else if length name > 10 then False
          else case digits_value 0 name of None \<Rightarrow> False | Some num \<Rightarrow> num \<le> 0xFFFFFFFE)"

text \<open>\<^verbatim>\<open>Number(segment)\<close> for a segment of decimal digits.\<close>

definition index_of :: "string \<Rightarrow> nat" where
  "index_of segment = (case digits_value 0 segment of None \<Rightarrow> 0 | Some n \<Rightarrow> n)"

section \<open>Own properties\<close>

definition arr_at :: "'a option list \<Rightarrow> nat \<Rightarrow> 'a option" where
  "arr_at xs i = (if i < length xs then xs ! i else None)"

text \<open>\<^verbatim>\<open>Object.hasOwn(v, k)\<close> and \<^verbatim>\<open>v[k]\<close> where it holds.\<close>

fun own :: "fval \<Rightarrow> string \<Rightarrow> fval option" where
  "own (FObj ps) k = map_of ps k"
| "own (FArr xs) k =
     (if isArrayIndexPropertyName k then arr_at xs (index_of k)
      else if k = ''length'' then Some (FNum (f64_of_int (int (length xs)))) else None)"
| "own _ k = None"

definition hasOwn :: "fval \<Rightarrow> string \<Rightarrow> bool" where
  "hasOwn v k \<longleftrightarrow> own v k \<noteq> None"

text \<open>\<^verbatim>\<open>obj[k] = v\<close> on a plain object: an own property keeps its place, a new array-index name goes
  among the leading index names in ascending order, any other name goes last.\<close>

fun insert_index_prop :: "string \<Rightarrow> 'v \<Rightarrow> (string \<times> 'v) list \<Rightarrow> (string \<times> 'v) list" where
  "insert_index_prop k v [] = [(k, v)]"
| "insert_index_prop k v ((k', v') # ps) =
     (if isArrayIndexPropertyName k' \<and> index_of k' < index_of k
      then (k', v') # insert_index_prop k v ps else (k, v) # (k', v') # ps)"

fun replace_prop :: "string \<Rightarrow> 'v \<Rightarrow> (string \<times> 'v) list \<Rightarrow> (string \<times> 'v) list" where
  "replace_prop k v [] = []"
| "replace_prop k v ((k', v') # ps) =
     (if k' = k then (k, v) # ps else (k', v') # replace_prop k v ps)"

definition set_prop :: "string \<Rightarrow> 'v \<Rightarrow> (string \<times> 'v) list \<Rightarrow> (string \<times> 'v) list" where
  "set_prop k v ps =
     (if map_of ps k \<noteq> None then replace_prop k v ps
      else if isArrayIndexPropertyName k then insert_index_prop k v ps
      else ps @ [(k, v)])"

definition delete_prop :: "string \<Rightarrow> (string \<times> 'v) list \<Rightarrow> (string \<times> 'v) list" where
  "delete_prop k ps = filter (\<lambda>(k', v). k' \<noteq> k) ps"

text \<open>\<^verbatim>\<open>arr[i] = v\<close>: an index past the end extends the array with holes.\<close>

definition set_elem :: "nat \<Rightarrow> 'a \<Rightarrow> 'a option list \<Rightarrow> 'a option list" where
  "set_elem i v xs =
     (if i < length xs then xs[i := Some v] else xs @ replicate (i - length xs) None @ [Some v])"

section \<open>Well-formed values and the canonical form\<close>

fun wf_fval :: "fval \<Rightarrow> bool" where
  "wf_fval (FArr xs) = (\<forall>x\<in>set xs. \<forall>v\<in>set_option x. wf_fval v)"
| "wf_fval (FObj ps) = (distinct (map fst ps) \<and> (\<forall>(k, v)\<in>set ps. wf_fval v))"
| "wf_fval (FInst _ _ st) = (\<forall>v\<in>set_option st. wf_fval v)"
| "wf_fval _ = True"

text \<open>A value with no special object in it: what JSON, and so every CFC atom, is made of.\<close>

fun plain :: "fval \<Rightarrow> bool" where
  "plain (FArr xs) = (\<forall>x\<in>set xs. \<forall>v\<in>set_option x. plain v)"
| "plain (FObj ps) = (\<forall>(k, v)\<in>set ps. plain v)"
| "plain (FPrim _) = False"
| "plain (FInst _ _ _) = False"
| "plain _ = True"

definition canon_num :: "f64 \<Rightarrow> f64" where
  "canon_num x = (if f64_nan x then f64_NaN else x)"

primrec canon :: "fval \<Rightarrow> fval" where
  "canon FUndefined = FUndefined"
| "canon FNull = FNull"
| "canon (FBool b) = FBool b"
| "canon (FNum x) = FNum (canon_num x)"
| "canon (FBigInt i) = FBigInt i"
| "canon (FStr s) = FStr s"
| "canon (FSym s) = FSym s"
| "canon (FUniqueSym n) = FUniqueSym n"
| "canon (FArr xs) = FArr (map (map_option canon) xs)"
| "canon (FObj ps) = FObj (sort_key fst (map (map_prod id canon) ps))"
| "canon (FPrim p) = FPrim p"
| "canon (FInst cls tag st) = FInst [] tag (map_option canon st)"

section \<open>Structural equality\<close>

fun fprim_class :: "fprim \<Rightarrow> string" where
  "fprim_class (EpochNsec _) = ''FabricEpochNsec''"
| "fprim_class (EpochDay _) = ''FabricEpochDay''"
| "fprim_class (DurationNsec _) = ''FabricDurationNsec''"
| "fprim_class (DurationDay _) = ''FabricDurationDay''"
| "fprim_class (HashPrim _ _) = ''FabricHash''"
| "fprim_class (BytesPrim _) = ''FabricBytes''"
| "fprim_class (RegExpPrim _ _ _) = ''FabricRegExp''"
| "fprim_class (KeyPairPrim _ _ _) = ''FabricKeyPair''"
| "fprim_class (OpaqueKeyPair _ _) = ''FabricKeyPair''"
| "fprim_class (UnavailablePrim _ _ _) = ''FabricUnavailable''"

text \<open>
  \<^verbatim>\<open>deepEqual\<close>, with no comparator given, compares containers by their own enumerable properties. A
  special object has none: a primitive keeps its state in private fields, and so does an instance, which
  \<^verbatim>\<open>BaseFabricInstance\<close> seals in its constructor, so that a subclass which declares a public field throws.
  Two special objects of one class compare equal whatever they hold, and the source sends callers that
  can meet one to \<^verbatim>\<open>valueEqual\<close>. A hole matches only a hole.
\<close>

fun deepEqual :: "fval \<Rightarrow> fval \<Rightarrow> bool"
and deepEqual_elems :: "fval option list \<Rightarrow> fval option list \<Rightarrow> bool"
and checkSpecificProps :: "props \<Rightarrow> props \<Rightarrow> bool" where
  "deepEqual a b =
     (case a of
        FNum x \<Rightarrow> (case b of FNum y \<Rightarrow> f64_is x y | _ \<Rightarrow> False)
      | FArr xs \<Rightarrow> (case b of FArr ys \<Rightarrow> length xs = length ys \<and> deepEqual_elems xs ys | _ \<Rightarrow> False)
      | FObj ps \<Rightarrow> (case b of FObj qs \<Rightarrow> length ps = length qs \<and> checkSpecificProps ps qs | _ \<Rightarrow> False)
      | FPrim p \<Rightarrow> (case b of FPrim q \<Rightarrow> fprim_class p = fprim_class q | _ \<Rightarrow> False)
      | FInst c _ _ \<Rightarrow> (case b of FInst d _ _ \<Rightarrow> c = d | _ \<Rightarrow> False)
      | _ \<Rightarrow> a = b)"
| "deepEqual_elems [] ys = (ys = [])"
| "deepEqual_elems (None # xs) ys =
     (case ys of None # ys' \<Rightarrow> deepEqual_elems xs ys' | _ \<Rightarrow> False)"
| "deepEqual_elems (Some x # xs) ys =
     (case ys of Some y # ys' \<Rightarrow> deepEqual x y \<and> deepEqual_elems xs ys' | _ \<Rightarrow> False)"
| "checkSpecificProps [] qs = True"
| "checkSpecificProps ((k, v) # ps) qs =
     (case map_of qs k of None \<Rightarrow> False | Some w \<Rightarrow> deepEqual v w \<and> checkSpecificProps ps qs)"

declare deepEqual.simps [simp del]

section \<open>Facts about properties and elements\<close>

lemma map_of_insert_index_prop:
  "map_of ps k = None \<Longrightarrow> map_of (insert_index_prop k v ps) = (map_of ps)(k \<mapsto> v)"
  by (induction ps) (auto split: if_splits)

lemma map_of_replace_prop: "map_of (replace_prop k v ps) = (if map_of ps k = None then map_of ps else (map_of ps)(k \<mapsto> v))"
  by (induction ps) (auto split: if_splits)

lemma map_of_set_prop [simp]: "map_of (set_prop k v ps) = (map_of ps)(k \<mapsto> v)"
  by (auto simp: set_prop_def map_of_insert_index_prop map_of_replace_prop map_add_def split: option.splits)

lemma map_of_delete_prop [simp]: "map_of (delete_prop k ps) = (map_of ps)(k := None)"
  by (induction ps) (auto simp: delete_prop_def split: if_splits)

lemma set_insert_index_prop: "set (insert_index_prop k v ps) = insert (k, v) (set ps)"
  by (induction ps) (auto split: if_splits)

lemma set_replace_prop: "set (replace_prop k v ps) \<subseteq> insert (k, v) (set ps)"
  by (induction ps) (auto split: if_splits)

lemma set_set_prop: "set (set_prop k v ps) \<subseteq> insert (k, v) (set ps)"
  using set_replace_prop [of k v ps] by (auto simp: set_prop_def set_insert_index_prop)

lemma keys_insert_index_prop: "fst ` set (insert_index_prop k v ps) = insert k (fst ` set ps)"
  by (auto simp: set_insert_index_prop)

lemma distinct_insert_index_prop:
  "distinct (map fst ps) \<Longrightarrow> k \<notin> fst ` set ps \<Longrightarrow> distinct (map fst (insert_index_prop k v ps))"
  by (induction ps) (auto simp: keys_insert_index_prop)

lemma map_fst_replace_prop: "map fst (replace_prop k v ps) = map fst ps"
  by (induction ps) auto

lemma distinct_set_prop [simp]: "distinct (map fst ps) \<Longrightarrow> distinct (map fst (set_prop k v ps))"
  by (auto simp: set_prop_def map_fst_replace_prop distinct_insert_index_prop map_of_eq_None_iff)

lemma distinct_delete_prop [simp]: "distinct (map fst ps) \<Longrightarrow> distinct (map fst (delete_prop k ps))"
  by (auto simp: delete_prop_def distinct_map_filter)

lemma wf_set_prop [simp]: "wf_fval (FObj ps) \<Longrightarrow> wf_fval v \<Longrightarrow> wf_fval (FObj (set_prop k v ps))"
  using set_set_prop [of k v ps] by auto

lemma wf_delete_prop [simp]: "wf_fval (FObj ps) \<Longrightarrow> wf_fval (FObj (delete_prop k ps))"
  by (auto simp: delete_prop_def distinct_map_filter)

lemma arr_at_set_elem [simp]: "arr_at (set_elem i v xs) j = (if j = i then Some v else arr_at xs j)"
  by (auto simp: arr_at_def set_elem_def nth_append nth_list_update)

lemma set_set_elem: "set (set_elem i v xs) \<subseteq> insert (Some v) (insert None (set xs))"
  by (auto simp: set_elem_def dest: set_update_subset_insert [THEN subsetD])

lemma wf_set_elem [simp]: "wf_fval (FArr xs) \<Longrightarrow> wf_fval v \<Longrightarrow> wf_fval (FArr (set_elem i v xs))"
  using set_set_elem [of i v xs] by fastforce

section \<open>Structural equality is equality of canonical forms\<close>

lemma canon_num_eq: "canon_num x = canon_num y \<longleftrightarrow> f64_is x y"
proof -
  have "f64_nan f64_NaN" by (simp add: f64_nan_def f64_NaN_def f64_exp_def f64_frac_def)
  then show ?thesis by (auto simp: canon_num_def f64_is_def)
qed

lemma sort_key_fst_eq:
  assumes "distinct (map fst ps)" "distinct (map fst qs)"
  shows "sort_key fst ps = sort_key fst qs \<longleftrightarrow> set ps = set qs"
proof
  assume "sort_key fst ps = sort_key fst qs"
  then show "set ps = set qs" by (metis set_sort)
next
  assume eq: "set ps = set qs"
  show "sort_key fst ps = sort_key fst qs"
  proof (rule map_sorted_distinct_set_unique [where f = fst])
    show "inj_on fst (set (sort_key fst ps) \<union> set (sort_key fst qs))"
      using assms(2) eq by (simp add: distinct_map)
    show "distinct (map fst (sort_key fst ps))" "distinct (map fst (sort_key fst qs))"
      using assms by (simp_all add: distinct_map)
  qed (simp_all add: eq)
qed

lemma set_eq_via_map_of:
  assumes "distinct (map fst ps)" "distinct (map fst qs)" "length ps = length qs"
  shows "set ps = set qs \<longleftrightarrow> (\<forall>(k, v)\<in>set ps. map_of qs k = Some v)"
proof
  assume "set ps = set qs"
  then show "\<forall>(k, v)\<in>set ps. map_of qs k = Some v" using assms(2) by auto
next
  assume "\<forall>(k, v)\<in>set ps. map_of qs k = Some v"
  then have "set ps \<subseteq> set qs" by (auto dest: map_of_SomeD)
  moreover have "card (set ps) = card (set qs)"
    using assms by (metis distinct_card distinct_map)
  ultimately show "set ps = set qs" by (simp add: card_subset_eq)
qed

lemma checkSpecificProps_iff:
  "checkSpecificProps ps qs \<longleftrightarrow> (\<forall>(k, v)\<in>set ps. \<exists>w. map_of qs k = Some w \<and> deepEqual v w)"
  by (induction ps) (auto split: option.splits)

lemma deepEqual_elems_iff:
  "deepEqual_elems xs ys \<longleftrightarrow> list_all2 (rel_option deepEqual) xs ys"
proof (induction xs arbitrary: ys)
  case Nil
  then show ?case by simp
next
  case (Cons x xs)
  then show ?case by (cases x; cases ys) (auto split: option.splits)
qed

lemma deepEqual_simps [simp]:
  "deepEqual (FNum x) b = (case b of FNum y \<Rightarrow> f64_is x y | _ \<Rightarrow> False)"
  "deepEqual (FArr xs) b = (case b of FArr ys \<Rightarrow> list_all2 (rel_option deepEqual) xs ys | _ \<Rightarrow> False)"
  "deepEqual (FObj ps) b = (case b of FObj qs \<Rightarrow> length ps = length qs \<and>
     (\<forall>(k, v)\<in>set ps. \<exists>w. map_of qs k = Some w \<and> deepEqual v w) | _ \<Rightarrow> False)"
  "deepEqual (FPrim p) b = (case b of FPrim q \<Rightarrow> fprim_class p = fprim_class q | _ \<Rightarrow> False)"
  "deepEqual (FInst c t st) b = (case b of FInst d _ _ \<Rightarrow> c = d | _ \<Rightarrow> False)"
  "deepEqual FUndefined b = (b = FUndefined)"
  "deepEqual FNull b = (b = FNull)"
  "deepEqual (FBool t1) b = (b = FBool t1)"
  "deepEqual (FBigInt i) b = (b = FBigInt i)"
  "deepEqual (FStr s) b = (b = FStr s)"
  "deepEqual (FSym s) b = (b = FSym s)"
  "deepEqual (FUniqueSym n) b = (b = FUniqueSym n)"
  by (auto simp: deepEqual.simps checkSpecificProps_iff deepEqual_elems_iff list_all2_lengthD
      split: fval.splits)

lemma props_canon:
  assumes d: "distinct (map fst ps)" "distinct (map fst qs)"
  shows "length ps = length qs \<and> (\<forall>(k, v)\<in>set ps. \<exists>w. map_of qs k = Some w \<and> canon v = canon w)
    \<longleftrightarrow> canon (FObj ps) = canon (FObj qs)"
proof -
  let ?c = "map (map_prod id canon)"
  have d': "distinct (map fst (?c ps))" "distinct (map fst (?c qs))"
    using d by (simp_all add: comp_def)
  have m: "map_of (?c qs) k = map_option canon (map_of qs k)" for k
    by (induction qs) auto
  have "(\<forall>(k, v)\<in>set ps. \<exists>w. map_of qs k = Some w \<and> canon v = canon w)
      \<longleftrightarrow> (\<forall>(k, v)\<in>set (?c ps). map_of (?c qs) k = Some v)"
    by (fastforce simp: m map_option_eq_Some)
  then have "length ps = length qs \<and> (\<forall>(k, v)\<in>set ps. \<exists>w. map_of qs k = Some w \<and> canon v = canon w)
      \<longleftrightarrow> length (?c ps) = length (?c qs) \<and> (\<forall>(k, v)\<in>set (?c ps). map_of (?c qs) k = Some v)"
    by (simp only: length_map)
  also have "\<dots> \<longleftrightarrow> length (?c ps) = length (?c qs) \<and> set (?c ps) = set (?c qs)"
    using set_eq_via_map_of [OF d'] by blast
  also have "\<dots> \<longleftrightarrow> set (?c ps) = set (?c qs)"
    using d' by (metis distinct_card distinct_map)
  also have "\<dots> \<longleftrightarrow> canon (FObj ps) = canon (FObj qs)"
    using sort_key_fst_eq [OF d'] by simp
  finally show ?thesis .
qed

lemma deepEqual_props_canon:
  assumes eq: "\<And>k v w. (k, v) \<in> set ps \<Longrightarrow> map_of qs k = Some w \<Longrightarrow> deepEqual v w \<longleftrightarrow> canon v = canon w"
    and d: "distinct (map fst ps)" "distinct (map fst qs)"
  shows "deepEqual (FObj ps) (FObj qs) \<longleftrightarrow> canon (FObj ps) = canon (FObj qs)"
proof -
  have "(\<forall>(k, v)\<in>set ps. \<exists>w. map_of qs k = Some w \<and> deepEqual v w) \<longleftrightarrow>
        (\<forall>(k, v)\<in>set ps. \<exists>w. map_of qs k = Some w \<and> canon v = canon w)"
    using eq by blast
  then show ?thesis using props_canon [OF d] by simp
qed

lemma canon_eq_atom:
  "FUndefined = canon b \<longleftrightarrow> b = FUndefined"
  "FNull = canon b \<longleftrightarrow> b = FNull"
  "FBool t = canon b \<longleftrightarrow> b = FBool t"
  "FBigInt i = canon b \<longleftrightarrow> b = FBigInt i"
  "FStr s = canon b \<longleftrightarrow> b = FStr s"
  "FSym s = canon b \<longleftrightarrow> b = FSym s"
  "FUniqueSym n = canon b \<longleftrightarrow> b = FUniqueSym n"
  by (cases b; auto)+

lemma deepEqual_canon:
  "wf_fval a \<Longrightarrow> wf_fval b \<Longrightarrow> plain a \<Longrightarrow> plain b \<Longrightarrow> deepEqual a b \<longleftrightarrow> canon a = canon b"
proof (induction a arbitrary: b)
  case (FNum x)
  then show ?case by (cases b) (auto simp: canon_num_eq)
next
  case (FArr xs)
  show ?case
  proof (cases b)
    case [simp]: (FArr ys)
    have "list_all2 (rel_option deepEqual) xs ys \<longleftrightarrow> list_all2 (\<lambda>x y. map_option canon x = map_option canon y) xs ys"
      using FArr.IH FArr.prems by (intro list.rel_cong_simp refl) (auto simp: simp_implies_def rel_option_iff split: option.splits)
    then show ?thesis
      by (auto simp: list_all2_conv_all_nth list_eq_iff_nth_eq)
  qed simp_all
next
  case (FObj ps)
  show ?case
  proof (cases b)
    case b: (FObj qs)
    have "deepEqual v w \<longleftrightarrow> canon v = canon w" if kv: "(k, v) \<in> set ps" and kw: "map_of qs k = Some w" for k v w
    proof (rule FObj.IH)
      have "(k, w) \<in> set qs" using kw by (rule map_of_SomeD)
      then show "wf_fval w" "plain w" "wf_fval v" "plain v" using FObj.prems kv b by auto
      show "(k, v) \<in> set ps" by (fact kv)
      show "v \<in> Basic_BNFs.snds (k, v)" by simp
    qed
    then show ?thesis
      using FObj.prems unfolding b by (intro deepEqual_props_canon) auto
  qed simp_all
next
  case (FPrim p)
  then show ?case by simp
next
  case (FInst c t st)
  then show ?case by simp
qed (simp_all add: canon_eq_atom)

end
