(* ===== verification/JsonPath.thy ===== *)
theory JsonPath
  imports Prelude "HOL-Library.Sublist"
begin

text \<open>
  JSON Pointers and path relations (\<^verbatim>\<open>runtime/memory/v2/path.ts\<close>). A path is the list of its
  segments; a pointer is its escaped string form (RFC 6901).
\<close>

type_synonym path = "string list"

datatype pointer_error = InvalidPointer string

section \<open>String primitives of the language\<close>

text \<open>\<open>replaceAll\<close> is JavaScript's for a non-empty pattern: leftmost, non-overlapping.\<close>

function replaceAll :: "string \<Rightarrow> string \<Rightarrow> string \<Rightarrow> string" where
  "replaceAll pat rep [] = []"
| "replaceAll pat rep (c # cs) =
     (if pat \<noteq> [] \<and> take (length pat) (c # cs) = pat
      then rep @ replaceAll pat rep (drop (length pat) (c # cs))
      else c # replaceAll pat rep cs)"
  by pat_completeness auto
termination
  by (relation "measure (\<lambda>(pat, rep, s). length s)") auto

fun splitOn :: "char \<Rightarrow> string \<Rightarrow> string list" where
  "splitOn sep [] = [[]]"
| "splitOn sep (c # cs) =
     (case splitOn sep cs of
        [] \<Rightarrow> [[c]]
      | seg # segs \<Rightarrow> if c = sep then [] # seg # segs else (c # seg) # segs)"

section \<open>The source's operations\<close>

definition parseSegment :: "string \<Rightarrow> string" where
  "parseSegment segment = replaceAll ''~0'' ''~'' (replaceAll ''~1'' ''/'' segment)"

definition parsePointer :: "string \<Rightarrow> pointer_error + path" where
  "parsePointer path =
     (if path = '''' then Inr []
      else if take 1 path \<noteq> ''/'' then Inl (InvalidPointer path)
      else Inr (map parseSegment (splitOn (CHR ''/'') (drop 1 path))))"

definition encodeSegment :: "string \<Rightarrow> string" where
  "encodeSegment segment =
     (let segment1 = (if CHR ''~'' \<in> set segment then replaceAll ''~'' ''~0'' segment else segment)
      in if CHR ''/'' \<in> set segment1 then replaceAll ''/'' ''~1'' segment1 else segment1)"

fun encodePointer :: "path \<Rightarrow> string" where
  "encodePointer [] = ''''"
| "encodePointer (segment # path) = CHR ''/'' # encodeSegment segment @ encodePointer path"

fun prefixPointers_loop :: "string \<Rightarrow> path \<Rightarrow> string list" where
  "prefixPointers_loop pointer [] = []"
| "prefixPointers_loop pointer (segment # path) =
     (let pointer' = pointer @ encodePointer [segment]
      in pointer' # prefixPointers_loop pointer' path)"

definition prefixPointers :: "path \<Rightarrow> string list" where
  "prefixPointers path = '''' # prefixPointers_loop '''' path"

definition isPrefixPath :: "path \<Rightarrow> path \<Rightarrow> bool" where
  "isPrefixPath pre path =
     (if length pre > length path then False
      else list_all (\<lambda>index. path ! index = pre ! index) [0..<length pre])"

definition pathsOverlap :: "path \<Rightarrow> path \<Rightarrow> bool" where
  "pathsOverlap left right \<longleftrightarrow> isPrefixPath left right \<or> isPrefixPath right left"

definition parentPath :: "path \<Rightarrow> path" where
  "parentPath path = (if length path = 0 then [] else butlast path)"

section \<open>Segments round-trip\<close>

definition esc_tilde :: "char \<Rightarrow> string" where
  "esc_tilde c = (if c = CHR ''~'' then ''~0'' else [c])"

definition esc_both :: "char \<Rightarrow> string" where
  "esc_both c = (if c = CHR ''~'' then ''~0'' else if c = CHR ''/'' then ''~1'' else [c])"

lemma replaceAll_absent: "a \<notin> set s \<Longrightarrow> replaceAll [a] rep s = s"
  by (induction s) auto

lemma replaceAll_single: "replaceAll [a] rep s = concat (map (\<lambda>c. if c = a then rep else [c]) s)"
  by (induction s) auto

lemma encodeSegment_eq: "encodeSegment s = concat (map esc_both s)"
proof -
  have "encodeSegment s = replaceAll ''/'' ''~1'' (replaceAll ''~'' ''~0'' s)"
    by (simp add: encodeSegment_def Let_def replaceAll_absent)
  also have "\<dots> = concat (map esc_both s)"
    by (induction s) (auto simp: replaceAll_single esc_both_def)
  finally show ?thesis .
qed

lemma replaceAll_slash: "replaceAll ''~1'' ''/'' (concat (map esc_both s)) = concat (map esc_tilde s)"
  by (induction s) (auto simp: esc_both_def esc_tilde_def)

lemma replaceAll_tilde: "replaceAll ''~0'' ''~'' (concat (map esc_tilde s)) = s"
  by (induction s) (auto simp: esc_tilde_def)

lemma parseSegment_encodeSegment [simp]: "parseSegment (encodeSegment s) = s"
  by (simp add: parseSegment_def encodeSegment_eq replaceAll_slash replaceAll_tilde)

lemma encodeSegment_no_slash: "CHR ''/'' \<notin> set (encodeSegment s)"
  by (auto simp: encodeSegment_eq esc_both_def)

lemma encodeSegment_inj: "encodeSegment s = encodeSegment t \<Longrightarrow> s = t"
  by (metis parseSegment_encodeSegment)

section \<open>Pointers round-trip\<close>

lemma splitOn_nonempty [simp]: "splitOn sep s \<noteq> []"
  by (induction s) (auto split: list.splits)

lemma splitOn_no_sep: "sep \<notin> set s \<Longrightarrow> splitOn sep s = [s]"
  by (induction s) auto

lemma splitOn_append_sep: "sep \<notin> set s \<Longrightarrow> splitOn sep (s @ sep # t) = s # splitOn sep t"
  by (induction s) (auto split: list.splits)

lemma splitOn_encodePointer:
  "splitOn (CHR ''/'') (encodeSegment s @ encodePointer p) = map encodeSegment (s # p)"
proof (induction p arbitrary: s)
  case Nil
  then show ?case by (simp add: splitOn_no_sep encodeSegment_no_slash)
next
  case (Cons a p)
  then show ?case by (simp add: splitOn_append_sep encodeSegment_no_slash)
qed

lemma parsePointer_encodePointer [simp]: "parsePointer (encodePointer p) = Inr p"
  by (cases p) (simp_all add: parsePointer_def splitOn_encodePointer comp_def del: splitOn.simps)

lemma encodePointer_inj: "encodePointer p = encodePointer q \<longleftrightarrow> p = q"
  by (metis parsePointer_encodePointer sum.inject(2))

lemma encodePointer_append: "encodePointer (p @ q) = encodePointer p @ encodePointer q"
  by (induction p) auto

section \<open>Prefix relations\<close>

lemma prefixPointers_loop_eq:
  "prefixPointers_loop (encodePointer p) q = map (\<lambda>i. encodePointer (p @ take i q)) [1..<Suc (length q)]"
proof (induction q arbitrary: p)
  case Nil
  then show ?case by simp
next
  case (Cons a q)
  have "prefixPointers_loop (encodePointer (p @ [a])) q
      = map (\<lambda>i. encodePointer (p @ take i (a # q))) (map Suc [1..<Suc (length q)])"
    by (simp add: Cons.IH del: upt_Suc)
  moreover have "[1..<Suc (length (a # q))] = 1 # map Suc [1..<Suc (length q)]"
    by (simp add: map_Suc_upt upt_conv_Cons del: upt_Suc)
  ultimately show ?case
    by (simp add: encodePointer_append Let_def del: upt_Suc)
qed

lemma prefixPointers_eq:
  "prefixPointers p = map (\<lambda>i. encodePointer (take i p)) [0..<Suc (length p)]"
  using prefixPointers_loop_eq [of "[]" p]
  by (simp add: prefixPointers_def upt_conv_Cons del: upt_Suc)

lemma isPrefixPath_iff [simp]: "isPrefixPath p q \<longleftrightarrow> prefix p q"
proof
  assume "isPrefixPath p q"
  then have "length p \<le> length q" "\<forall>i<length p. q ! i = p ! i"
    by (auto simp: isPrefixPath_def list_all_iff split: if_splits)
  then have "p = take (length p) q"
    by (auto intro: nth_equalityI)
  then show "prefix p q" by (metis take_is_prefix)
next
  assume "prefix p q"
  then show "isPrefixPath p q"
    by (auto simp: isPrefixPath_def list_all_iff prefix_def nth_append)
qed

lemma pathsOverlap_iff: "pathsOverlap p q \<longleftrightarrow> prefix p q \<or> prefix q p"
  by (simp add: pathsOverlap_def)

lemma pathsOverlap_sym: "pathsOverlap p q = pathsOverlap q p"
  by (auto simp: pathsOverlap_iff)

lemma not_overlap_split:
  assumes "\<not> pathsOverlap p q"
  obtains r a p' b q' where "p = r @ a # p'" "q = r @ b # q'" "a \<noteq> b"
  using assms parallel_decomp [of p q] by (auto simp: pathsOverlap_iff parallel_def)

lemma prefixPointers_prefix: "encodePointer p \<in> set (prefixPointers q) \<longleftrightarrow> prefix p q"
proof -
  have "encodePointer p \<in> set (prefixPointers q) \<longleftrightarrow> (\<exists>i\<le>length q. p = take i q)"
    by (simp add: prefixPointers_eq encodePointer_inj image_iff Bex_def less_Suc_eq_le del: upt_Suc)
  also have "\<dots> \<longleftrightarrow> prefix p q"
    by (metis append_eq_conv_conj nat_le_linear prefix_def take_all take_is_prefix)
  finally show ?thesis .
qed

lemma prefixPointers_distinct: "distinct (prefixPointers q)"
proof -
  have "inj_on (\<lambda>i. take i q) {0..<Suc (length q)}"
  proof (rule inj_onI)
    fix i j assume "i \<in> {0..<Suc (length q)}" "j \<in> {0..<Suc (length q)}" "take i q = take j q"
    then have "length (take i q) = length (take j q)" "i \<le> length q" "j \<le> length q" by auto
    then show "i = j" by simp
  qed
  then have "inj_on (\<lambda>i. encodePointer (take i q)) {0..<Suc (length q)}"
    by (simp add: inj_on_def encodePointer_inj)
  then show ?thesis
    unfolding prefixPointers_eq distinct_map by (simp only: distinct_upt set_upt simp_thms)
qed

section \<open>Properties\<close>

text \<open>Pointers are a faithful text form of paths: \<open>parsePointer\<close> recovers every path from its
  pointer, whatever bytes its segments hold (the escape characters and the empty segment included),
  so two paths have the same pointer only when they are the same path.\<close>

theorem pointer_round_trip:
  "parsePointer (encodePointer p) = Inr p \<and> (encodePointer p = encodePointer q) = (p = q)"
  by (simp add: encodePointer_inj)

text \<open>\<open>prefixPointers\<close> lists exactly the pointers of the prefixes of a path, the root first and
  each once, so that looking a pointer up in it decides \<open>isPrefixPath\<close>; and two paths overlap
  exactly when one of the two pointers is found among the prefixes of the other path.\<close>

theorem prefix_pointers_decide:
  "isPrefixPath p q = (encodePointer p \<in> set (prefixPointers q))
   \<and> distinct (prefixPointers q) \<and> length (prefixPointers q) = Suc (length q)
   \<and> pathsOverlap p q = (encodePointer p \<in> set (prefixPointers q)
                            \<or> encodePointer q \<in> set (prefixPointers p))"
proof -
  have "length (prefixPointers q) = Suc (length q)"
    by (simp add: prefixPointers_eq del: upt_Suc)
  then show ?thesis
    by (simp only: prefixPointers_prefix prefixPointers_distinct isPrefixPath_iff pathsOverlap_iff simp_thms)
qed

end
