(* ===== verification/PathEdit.thy ===== *)
theory PathEdit
  imports FabricValue JsonPath
begin

text \<open>
  Editing a value along a path (\<^verbatim>\<open>base/data-model/src/value-clone.ts\<close>). \<open>cloneForMutation\<close> hands
  its caller the container at a path for mutation, inside a tree whose spine to it is mutable. Where
  the code then mutates that container in place, the model writes the mutated container back at the
  same path with \<open>writeBack\<close>. Freezing, thawing and copying (\<^verbatim>\<open>cloneIfNecessary\<close>, \<^verbatim>\<open>deepFreeze\<close>) keep
  the content of a value, so they are the identity here.

  An array of the model has elements only. Where the code would give an array a property that is not
  an index, the model stops with the error \<open>NamedArrayProperty\<close>, which is not an error of the code.
\<close>

datatype path_trace =
    Complete "fval list" fval
  | Missing "fval list" nat
  | Blocked "fval list" nat fval

datatype clone_error =
    NonMutableRoot
  | NonContainerRoot
  | NonContainerDescent nat
  | MissingSegment nat
  | NonMutableLeaf nat
  | NamedArrayProperty

section \<open>Tracing a path\<close>

fun tracePath_loop :: "fval list \<Rightarrow> nat \<Rightarrow> fval \<Rightarrow> path \<Rightarrow> path_trace" where
  "tracePath_loop containers index current [] = Complete containers current"
| "tracePath_loop containers index current (key # path) =
     (if \<not> isFabricPlainContainer current then Blocked containers index current
      else case own current key of
          None \<Rightarrow> Missing (containers @ [current]) index
        | Some child \<Rightarrow> tracePath_loop (containers @ [current]) (Suc index) child path)"

definition tracePath :: "fval \<Rightarrow> path \<Rightarrow> path_trace" where
  "tracePath value path = tracePath_loop [] 0 value path"

definition missingContainerIsArray :: "string \<Rightarrow> bool" where
  "missingContainerIsArray nextKey \<longleftrightarrow> isArrayIndexPropertyName nextKey \<or> nextKey = ''-''"

definition createMissingContainer :: "string \<Rightarrow> fval" where
  "createMissingContainer nextKey = (if missingContainerIsArray nextKey then FArr [] else FObj [])"

section \<open>Cloning for mutation\<close>

text \<open>\<^verbatim>\<open>container[key] = v\<close> on an array or a plain object.\<close>

fun set_slot :: "fval \<Rightarrow> string \<Rightarrow> fval \<Rightarrow> clone_error + fval" where
  "set_slot (FObj ps) key v = Inr (FObj (set_prop key v ps))"
| "set_slot (FArr xs) key v =
     (if isArrayIndexPropertyName key then Inr (FArr (set_elem (index_of key) v xs))
      else Inl NamedArrayProperty)"
| "set_slot _ key v = Inl NamedArrayProperty"

text \<open>Splicing a container into its parent, and that into its own, up to the root.\<close>

fun splice_spine :: "fval list \<Rightarrow> path \<Rightarrow> fval \<Rightarrow> clone_error + fval" where
  "splice_spine (parent # parents) (key # path) child =
     bindR (splice_spine parents path child) (\<lambda>thawed. set_slot parent key thawed)"
| "splice_spine _ _ child = Inr child"

text \<open>The containers created for the missing end of a path, with the one the path leads to.\<close>

fun create_rest :: "path \<Rightarrow> string \<Rightarrow> fval \<Rightarrow> clone_error + (fval \<times> fval)" where
  "create_rest [] nextKeyAfterPath current = Inr (current, current)"
| "create_rest (key # path) nextKeyAfterPath current =
     (let nextKey = (case path of [] \<Rightarrow> nextKeyAfterPath | key' # _ \<Rightarrow> key')
      in bindR (create_rest path nextKeyAfterPath (createMissingContainer nextKey)) (\<lambda>(fresh, pathValue).
           bindR (set_slot current key fresh) (\<lambda>current'. Inr (current', pathValue))))"

definition cloneForMutation ::
    "fval \<Rightarrow> path \<Rightarrow> bool \<Rightarrow> string \<Rightarrow> clone_error + (fval \<times> fval)" where
  "cloneForMutation value path createMissing nextKeyAfterPath =
     (if length path = 0 then
        if \<not> isFabricContainerValue value then Inl NonMutableRoot else Inr (value, value)
      else
        case tracePath value path of
          Blocked containers at _ \<Rightarrow>
            if at = 0 then Inl NonContainerRoot else Inl (NonContainerDescent (at - 1))
        | Missing containers at \<Rightarrow>
            if \<not> createMissing then Inl (MissingSegment at)
            else
              bindR (create_rest (drop at path) nextKeyAfterPath (last containers))
                (\<lambda>(current, pathValue).
                  bindR (splice_spine (butlast containers) path current) (\<lambda>newRoot. Inr (newRoot, pathValue)))
        | Complete containers valueAtPath \<Rightarrow>
            if \<not> isFabricContainerValue valueAtPath then Inl (NonMutableLeaf (length path - 1))
            else
              bindR (splice_spine containers path valueAtPath) (\<lambda>newRoot. Inr (newRoot, valueAtPath)))"

section \<open>Reading and writing along a path\<close>

text \<open>A store read and written one key at a time, read and written along a path of keys.\<close>

fun get_path :: "('v \<Rightarrow> 'k \<Rightarrow> 'v option) \<Rightarrow> 'v \<Rightarrow> 'k list \<Rightarrow> 'v option" where
  "get_path get v [] = Some v"
| "get_path get v (k # p) = (case get v k of None \<Rightarrow> None | Some w \<Rightarrow> get_path get w p)"

fun put_path ::
    "('v \<Rightarrow> 'k \<Rightarrow> 'v option) \<Rightarrow> ('v \<Rightarrow> 'k \<Rightarrow> 'v \<Rightarrow> 'e + 'v) \<Rightarrow> 'e \<Rightarrow> 'v \<Rightarrow> 'k list \<Rightarrow> 'v \<Rightarrow> 'e + 'v" where
  "put_path get put e v [] c = Inr c"
| "put_path get put e v (k # p) c =
     (case get v k of
        None \<Rightarrow> Inl e
      | Some w \<Rightarrow> bindR (put_path get put e w p c) (\<lambda>w'. put v k w'))"

text \<open>What a store promises of one key gives what reading and writing along paths promise.\<close>

locale path_store =
  fixes get :: "'v \<Rightarrow> 'k \<Rightarrow> 'v option"
    and put :: "'v \<Rightarrow> 'k \<Rightarrow> 'v \<Rightarrow> 'e + 'v"
    and e :: 'e
  assumes get_put: "put v k w = Inr v' \<Longrightarrow> get v' k' = (if k' = k then Some w else get v k')"
    and put_present: "get v k = Some w \<Longrightarrow> \<exists>v'. put v k u = Inr v'"
    and put_same: "get v k = Some w \<Longrightarrow> put v k w = Inr v"
    and put_put: "put v k w = Inr v' \<Longrightarrow> put v' k u = put v k u"
begin

lemma get_path_append:
  "get_path get v (p @ q) = (case get_path get v p of None \<Rightarrow> None | Some w \<Rightarrow> get_path get w q)"
  by (induction p arbitrary: v) (auto split: option.splits)

lemma put_path_total: "get_path get v p = Some w \<Longrightarrow> \<exists>v'. put_path get put e v p c = Inr v'"
proof (induction p arbitrary: v)
  case (Cons k p)
  then obtain x where x: "get v k = Some x" "get_path get x p = Some w" by (auto split: option.splits)
  from Cons.IH [OF this(2)] obtain x' where "put_path get put e x p c = Inr x'" by blast
  with put_present [OF x(1), of x'] x show ?case by auto
qed simp

lemma put_path_same: "get_path get v p = Some w \<Longrightarrow> put_path get put e v p w = Inr v"
  by (induction p arbitrary: v) (auto simp: put_same split: option.splits)

lemma get_put_below: "put_path get put e v p c = Inr v' \<Longrightarrow> get_path get v' (p @ q) = get_path get c q"
proof (induction p arbitrary: v v')
  case (Cons k p)
  then obtain x x' where "get v k = Some x" "put_path get put e x p c = Inr x'" "put v k x' = Inr v'"
    by (auto simp: result_simps split: option.splits)
  with Cons.IH [of x x'] get_put [of v k x' v' k] show ?case by simp
qed simp

lemma get_put_beside:
  "put_path get put e v p c = Inr v' \<Longrightarrow> \<not> prefix p q \<Longrightarrow> \<not> prefix q p \<Longrightarrow> get_path get v' q = get_path get v q"
proof (induction p arbitrary: v v' q)
  case (Cons k p)
  then obtain x x' where x: "get v k = Some x" "put_path get put e x p c = Inr x'" "put v k x' = Inr v'"
    by (auto simp: result_simps split: option.splits)
  obtain j q' where q: "q = j # q'" using Cons.prems(3) by (cases q) auto
  show ?case
  proof (cases "j = k")
    case True
    with Cons.IH [OF x(2), of q'] Cons.prems q x get_put [of v k x' v' k] show ?thesis by simp
  next
    case False
    then show ?thesis using q get_put [OF x(3), of j] by simp
  qed
qed simp

lemma get_put_self: "put_path get put e v p c = Inr v' \<Longrightarrow> get_path get v' p = Some c"
  using get_put_below [of v p c v' "[]"] by simp

lemma put_path_put: "put_path get put e v p c = Inr v' \<Longrightarrow> put_path get put e v' p c' = put_path get put e v p c'"
proof (induction p arbitrary: v v')
  case (Cons k p)
  then obtain x x' where x: "get v k = Some x" "put_path get put e x p c = Inr x'" "put v k x' = Inr v'"
    by (auto simp: result_simps split: option.splits)
  have "put v' k = put v k" using put_put [OF x(3)] by (rule ext)
  then show ?case using x Cons.IH [OF x(2)] get_put [OF x(3), of k] by simp
qed simp

text \<open>A write that agrees with what was there, but for one key, changes no path beside that key.\<close>

lemma get_put_slot:
  assumes c: "get_path get v p = Some c" and put: "put_path get put e v p c' = Inr v'"
    and agree: "\<And>k'. k' \<noteq> k \<Longrightarrow> get c' k' = get c k'"
    and q: "\<not> prefix (p @ [k]) q" "\<not> prefix q (p @ [k])"
  shows "get_path get v' q = get_path get v q"
proof (cases "prefix p q")
  case True
  then obtain r where r: "q = p @ r" by (auto simp: prefix_def)
  then obtain j r' where j: "r = j # r'" using q by (cases r) auto
  then have "j \<noteq> k" using q r by auto
  then have "get_path get c' r = get_path get c r" using agree j by simp
  then show ?thesis using get_put_below [OF put, of r] c r by (simp add: get_path_append)
next
  case False
  moreover have "\<not> prefix q p" using q(2) by auto
  ultimately show ?thesis using get_put_beside [OF put] by simp
qed

end

text \<open>The child a path segment leads to: a property of a plain object, an element of an array.\<close>

fun child :: "fval \<Rightarrow> string \<Rightarrow> fval option" where
  "child (FObj ps) k = map_of ps k"
| "child (FArr xs) k = (if isArrayIndexPropertyName k then arr_at xs (index_of k) else None)"
| "child _ k = None"

abbreviation readAt :: "fval \<Rightarrow> path \<Rightarrow> fval option" where
  "readAt \<equiv> get_path child"

text \<open>The tree once the container at a path has been mutated.\<close>

abbreviation writeBack :: "fval \<Rightarrow> path \<Rightarrow> fval \<Rightarrow> clone_error + fval" where
  "writeBack \<equiv> put_path child set_slot NamedArrayProperty"

section \<open>The path-edit functions\<close>

definition cloneWithValueAtPath :: "fval \<Rightarrow> path \<Rightarrow> fval \<Rightarrow> clone_error + fval" where
  "cloneWithValueAtPath root path value =
     (if length path = 0 then Inr value
      else
        let lastKey = last path;
            root' = (if root = FUndefined \<or> root = FNull then FObj [] else root)
        in bindR (cloneForMutation root' (butlast path) True lastKey) (\<lambda>(newRoot, pathValue).
             if \<not> isFabricPlainContainer pathValue then
               if length path < 2 then Inl NonContainerRoot
               else Inl (NonContainerDescent (length path - 2))
             else
               bindR (set_slot pathValue lastKey value) (writeBack newRoot (butlast path))))"

fun readChildAt :: "fval \<Rightarrow> string \<Rightarrow> fval" where
  "readChildAt container key =
     (if isArray container \<and> \<not> isArrayIndexPropertyName key then FUndefined
      else case own container key of None \<Rightarrow> FUndefined | Some v \<Rightarrow> v)"

definition hasChildAt :: "fval \<Rightarrow> string \<Rightarrow> bool" where
  "hasChildAt container key \<longleftrightarrow>
     (if isArray container \<and> \<not> isArrayIndexPropertyName key then False else hasOwn container key)"

text \<open>The walk to the parent; \<open>None\<close> where it meets nothing to remove.\<close>

fun parent_walk :: "fval \<Rightarrow> path \<Rightarrow> fval option" where
  "parent_walk parent [] = Some parent"
| "parent_walk parent (key # path) =
     (if \<not> isFabricPlainContainer parent then None
      else let child = readChildAt parent key
           in if child = FUndefined then None else parent_walk child path)"

fun remove_slot :: "fval \<Rightarrow> string \<Rightarrow> fval" where
  "remove_slot (FArr xs) key = FArr (take (index_of key) xs @ drop (Suc (index_of key)) xs)"
| "remove_slot (FObj ps) key = FObj (delete_prop key ps)"
| "remove_slot v key = v"

definition cloneWithoutValueAtPath :: "fval \<Rightarrow> path \<Rightarrow> clone_error + fval" where
  "cloneWithoutValueAtPath root path =
     (if root = FUndefined \<or> length path = 0 then Inr FUndefined
      else
        case parent_walk root (butlast path) of
          None \<Rightarrow> Inr root
        | Some parent \<Rightarrow>
            if \<not> isFabricPlainContainer parent \<or> \<not> hasChildAt parent (last path) then Inr root
            else
              bindR (cloneForMutation root (butlast path) False '''') (\<lambda>(newRoot, pathValue).
                writeBack newRoot (butlast path) (remove_slot pathValue (last path))))"

section \<open>Children and slots\<close>

lemma own_child: "own v k = Some w \<Longrightarrow> child v k = Some w \<or> child v k = None \<and> (\<exists>n. w = FNum n)"
  by (cases v) (auto split: if_splits)

lemma own_None_child: "own v k = None \<Longrightarrow> child v k = None"
  by (cases v) (auto split: if_splits)

lemma child_own: "child v k = Some w \<Longrightarrow> own v k = Some w"
  by (cases v) (auto split: if_splits)

lemma child_container: "child v k = Some w \<Longrightarrow> isFabricPlainContainer v"
  by (cases v) (auto simp: isFabricPlainContainer_def)

lemma digit_of_inj: "digit_of c = Some d \<Longrightarrow> digit_of c' = Some d \<Longrightarrow> c = c'"
proof -
  assume "digit_of c = Some d" "digit_of c' = Some d"
  then have "of_char c = d + (48 :: nat)" "of_char c' = d + (48 :: nat)"
    by (auto simp: digit_of_def Let_def split: if_splits)
  then show "c = c'" by (metis of_char_eq_iff)
qed

lemma digits_value_snoc:
  "digits_value n (s @ [c]) = (case (digits_value n s, digit_of c) of
     (Some m, Some d) \<Rightarrow> Some (m * 10 + d) | _ \<Rightarrow> None)"
  by (induction s arbitrary: n) (auto split: option.splits)

lemma digits_value_ge: "digits_value n s = Some m \<Longrightarrow> n * 10 ^ length s \<le> m"
proof (induction s arbitrary: n)
  case (Cons c s)
  then obtain d where d: "digits_value (n * 10 + d) s = Some m" by (auto split: option.splits)
  have "n * 10 ^ length (c # s) \<le> (n * 10 + d) * 10 ^ length s" by (simp add: algebra_simps)
  also have "\<dots> \<le> m" using Cons.IH [OF d] .
  finally show ?case .
qed simp

definition canonical_digits :: "string \<Rightarrow> bool" where
  "canonical_digits s \<longleftrightarrow> digits_value 0 s \<noteq> None \<and> (s = [] \<or> digit_of (hd s) \<noteq> Some 0)"

lemma canonical_pos:
  assumes "canonical_digits s" "s \<noteq> []" "digits_value 0 s = Some m"
  shows "10 ^ (length s - 1) \<le> m"
proof -
  obtain c t where s: "s = c # t" using assms(2) by (cases s) auto
  then obtain d where d: "digit_of c = Some d" "digits_value d t = Some m" "d \<noteq> 0"
    using assms by (auto simp: canonical_digits_def split: option.splits)
  have "1 * 10 ^ length t \<le> d * 10 ^ length t" using d(3) by (intro mult_le_mono1) simp
  also have "\<dots> \<le> m" by (rule digits_value_ge [OF d(2)])
  finally show ?thesis using s by simp
qed

lemma canonical_snoc: "canonical_digits (s @ [c]) \<Longrightarrow> canonical_digits s"
  by (cases s) (auto simp: canonical_digits_def digits_value_snoc split: option.splits)

lemma digit_of_less: "digit_of c = Some d \<Longrightarrow> d < 10"
  by (auto simp: digit_of_def Let_def split: if_splits)

lemma digits_snoc_Some:
  assumes "canonical_digits (s @ [c])"
  shows "\<exists>m d. digits_value 0 s = Some m \<and> digit_of c = Some d \<and> d < 10
    \<and> digits_value 0 (s @ [c]) = Some (m * 10 + d)"
proof -
  have "digits_value 0 (s @ [c]) \<noteq> None" using assms by (simp add: canonical_digits_def)
  then show ?thesis
    unfolding digits_value_snoc by (cases "digits_value 0 s"; cases "digit_of c") (simp_all add: digit_of_less)
qed

lemma canonical_inj:
  "canonical_digits s \<Longrightarrow> canonical_digits t \<Longrightarrow> digits_value 0 s = digits_value 0 t \<Longrightarrow> s = t"
proof (induction s arbitrary: t rule: rev_induct)
  case Nil
  have "t = []"
  proof (rule ccontr)
    assume "t \<noteq> []"
    moreover have "digits_value 0 t = Some 0" using Nil.prems(3) by simp
    ultimately have "(10::nat) ^ (length t - 1) \<le> 0" by (rule canonical_pos [OF Nil.prems(2)])
    then show False by simp
  qed
  then show ?case by simp
next
  case (snoc c s)
  obtain m d where m: "digits_value 0 s = Some m" "digit_of c = Some d" "d < 10"
    "digits_value 0 (s @ [c]) = Some (m * 10 + d)"
    using digits_snoc_Some [OF snoc.prems(1)] by blast
  show ?case
  proof (cases t rule: rev_cases)
    case Nil
    then have "digits_value 0 (s @ [c]) = Some 0" using snoc.prems(3) by simp
    then have "(10::nat) ^ (length (s @ [c]) - 1) \<le> 0" by (intro canonical_pos [OF snoc.prems(1)]) simp_all
    then show ?thesis by simp
  next
    case (snoc t' c')
    obtain m' d' where m': "digits_value 0 t' = Some m'" "digit_of c' = Some d'" "d' < 10"
      "digits_value 0 (t' @ [c']) = Some (m' * 10 + d')"
      using digits_snoc_Some [of t' c'] snoc.prems(2) snoc by blast
    have "m * 10 + d = m' * 10 + d'" using snoc.prems(3) m(4) m'(4) snoc by simp
    then have "(m * 10 + d) div 10 = (m' * 10 + d') div 10" by (rule arg_cong)
    then have "m = m'" using m(3) m'(3) by simp
    then have "d = d'" using \<open>m * 10 + d = m' * 10 + d'\<close> by simp
    have "c = c'" using digit_of_inj [OF m(2)] m'(2) \<open>d = d'\<close> by simp
    moreover have "s = t'"
    proof (rule snoc.IH)
      show "canonical_digits s" using canonical_snoc [OF snoc.prems(1)] .
      show "canonical_digits t'" using canonical_snoc snoc.prems(2) unfolding snoc by blast
      show "digits_value 0 s = digits_value 0 t'" using m(1) m'(1) \<open>m = m'\<close> by simp
    qed
    ultimately show ?thesis using snoc by simp
  qed
qed

lemma digit_of_zero: "digit_of c = Some 0 \<Longrightarrow> c = CHR ''0''"
  by (rule digit_of_inj [of c 0]) (simp_all add: digit_of_def)

lemma index_name_cases:
  assumes "isArrayIndexPropertyName k"
  shows "k = ''0'' \<or> canonical_digits k \<and> k \<noteq> [] \<and> digits_value 0 k = Some (index_of k)"
proof (cases k)
  case (Cons c cs)
  show ?thesis
  proof (cases "c = CHR ''0''")
    case False
    then obtain n where "digits_value 0 k = Some n" "digit_of c \<noteq> None"
      using assms Cons by (auto simp: isArrayIndexPropertyName_def simp del: digits_value.simps split: if_splits option.splits)
    then show ?thesis
      using False Cons digit_of_zero [of c] by (auto simp: canonical_digits_def index_of_def simp del: digits_value.simps)
  qed (use assms Cons in \<open>simp add: isArrayIndexPropertyName_def\<close>)
qed (use assms in \<open>simp add: isArrayIndexPropertyName_def\<close>)

lemma index_of_inj:
  assumes "isArrayIndexPropertyName j" "isArrayIndexPropertyName k" "index_of j = index_of k"
  shows "j = k"
proof -
  have z: "index_of ''0'' = 0" by code_simp
  have pos: "index_of s > 0" if "canonical_digits s \<and> s \<noteq> [] \<and> digits_value 0 s = Some (index_of s)" for s
    using that canonical_pos [of s "index_of s"] by (metis gr_zeroI le_zero_eq power_not_zero zero_neq_numeral)
  show ?thesis
    using index_name_cases [OF assms(1)] index_name_cases [OF assms(2)]
  proof (elim disjE)
    assume "k = ''0''" "canonical_digits j \<and> j \<noteq> [] \<and> digits_value 0 j = Some (index_of j)"
    then show ?thesis using pos [of j] z assms(3) by simp
  next
    assume "j = ''0''" "canonical_digits k \<and> k \<noteq> [] \<and> digits_value 0 k = Some (index_of k)"
    then show ?thesis using pos [of k] z assms(3) by simp
  next
    assume "canonical_digits j \<and> j \<noteq> [] \<and> digits_value 0 j = Some (index_of j)"
      "canonical_digits k \<and> k \<noteq> [] \<and> digits_value 0 k = Some (index_of k)"
    then show ?thesis using canonical_inj [of j k] assms(3) by simp
  qed simp
qed

lemma set_slot_child: "set_slot v k w = Inr v' \<Longrightarrow> child v' k' = (if k' = k then Some w else child v k')"
  by (cases v) (auto split: if_splits dest: index_of_inj)

lemma replace_prop_same: "map_of ps k = Some w \<Longrightarrow> replace_prop k w ps = ps"
  by (induction ps) (auto split: if_splits)

lemma set_elem_same: "arr_at xs i = Some w \<Longrightarrow> set_elem i w xs = xs"
  by (auto simp: arr_at_def set_elem_def list_update_same_conv split: if_splits)

lemma insert_index_twice:
  "map_of ps k = None \<Longrightarrow> replace_prop k w (insert_index_prop k u ps) = insert_index_prop k w ps"
  by (induction ps) auto

lemma replace_twice: "replace_prop k w (replace_prop k u ps) = replace_prop k w ps"
  by (induction ps) auto

lemma replace_append: "map_of ps k = None \<Longrightarrow> replace_prop k w (ps @ qs) = ps @ replace_prop k w qs"
  by (induction ps) (auto split: if_splits)

lemma set_prop_twice: "set_prop k w (set_prop k u ps) = set_prop k w ps"
proof (cases "map_of ps k")
  case None
  have "set_prop k w (set_prop k u ps) = replace_prop k w (set_prop k u ps)"
    by (simp add: set_prop_def [of k w "set_prop k u ps"])
  then show ?thesis
    using None by (auto simp: set_prop_def insert_index_twice replace_append)
next
  case (Some v)
  have "set_prop k w (set_prop k u ps) = replace_prop k w (set_prop k u ps)"
    by (simp add: set_prop_def [of k w "set_prop k u ps"])
  then show ?thesis using Some by (simp add: set_prop_def replace_twice)
qed

lemma set_elem_twice: "set_elem i w (set_elem i u xs) = set_elem i w xs"
  by (auto simp: set_elem_def list_update_append)

interpretation tree: path_store child set_slot NamedArrayProperty
proof
  show "set_slot v k w = Inr v' \<Longrightarrow> child v' k' = (if k' = k then Some w else child v k')" for v k w v' k'
    by (rule set_slot_child)
  show "child v k = Some w \<Longrightarrow> \<exists>v'. set_slot v k u = Inr v'" for v k w u
    by (cases v) (auto split: if_splits)
  show "child v k = Some w \<Longrightarrow> set_slot v k w = Inr v" for v k w
    by (cases v) (auto simp: set_prop_def replace_prop_same set_elem_same split: if_splits)
  show "set_slot v k w = Inr v' \<Longrightarrow> set_slot v' k u = set_slot v k u" for v k w v' u
    by (cases v) (auto simp: set_prop_twice set_elem_twice split: if_splits)
qed

section \<open>What a trace says\<close>

lemma plain_container: "isFabricPlainContainer v \<longleftrightarrow> (\<exists>xs. v = FArr xs) \<or> (\<exists>ps. v = FObj ps)"
  by (cases v) (auto simp: isFabricPlainContainer_def)

lemma readAt_stuck: "\<not> isFabricPlainContainer v \<Longrightarrow> p \<noteq> [] \<Longrightarrow> readAt v p = None"
  by (cases v; cases p) (auto simp: isFabricPlainContainer_def)

lemma loop_number: "tracePath_loop cs i (FNum n) p = (if p = [] then Complete cs (FNum n) else Blocked cs i (FNum n))"
  by (cases p) (auto simp: isFabricPlainContainer_def)

lemma loop_Complete:
  assumes "tracePath_loop cs i v p = Complete ds w" "\<not> (\<exists>n. w = FNum n)"
  shows "\<exists>es. ds = cs @ es \<and> length es = length p \<and> readAt v p = Some w
    \<and> (\<forall>u. splice_spine es p u = writeBack v p u)"
  using assms
proof (induction p arbitrary: cs i v)
  case Nil
  then show ?case by simp
next
  case (Cons k p)
  then obtain x where x: "own v k = Some x" "tracePath_loop (cs @ [v]) (Suc i) x p = Complete ds w"
    by (auto split: if_splits option.splits)
  then have "\<not> (\<exists>n. x = FNum n)" using Cons.prems(2) by (auto simp: loop_number split: if_splits)
  then have c: "child v k = Some x" using own_child [OF x(1)] by blast
  obtain es where "ds = (cs @ [v]) @ es" "length es = length p" "readAt x p = Some w"
    "\<forall>u. splice_spine es p u = writeBack x p u"
    using Cons.IH [OF x(2) Cons.prems(2)] by blast
  then show ?case using c by (intro exI [of _ "v # es"]) simp
qed

lemma loop_Missing:
  assumes "tracePath_loop cs i v p = Missing ds at"
  shows "\<exists>es c k q. ds = cs @ es @ [c] \<and> at = i + length es \<and> p = take (length es) p @ k # q \<and> length es < length p
    \<and> readAt v (take (length es) p) = Some c \<and> isFabricPlainContainer c \<and> own c k = None
    \<and> (\<forall>u. splice_spine es p u = writeBack v (take (length es) p) u)"
  using assms
proof (induction p arbitrary: cs i v)
  case Nil
  then show ?case by simp
next
  case (Cons k p)
  then have pc: "isFabricPlainContainer v" by (auto split: if_splits)
  show ?case
  proof (cases "own v k")
    case None
    then have "ds = cs @ [] @ [v]" "at = i" using Cons.prems pc by auto
    then show ?thesis using None pc by (intro exI [of _ "[]"] exI [of _ v] exI [of _ k] exI [of _ p]) simp
  next
    case (Some x)
    then have x: "tracePath_loop (cs @ [v]) (Suc i) x p = Missing ds at" using Cons.prems pc by simp
    then have "\<not> (\<exists>n. x = FNum n)" by (auto simp: loop_number split: if_splits)
    then have c: "child v k = Some x" using own_child [OF Some] by blast
    obtain es c' k' q where "ds = (cs @ [v]) @ es @ [c']" "at = Suc i + length es"
      "p = take (length es) p @ k' # q" "length es < length p" "readAt x (take (length es) p) = Some c'"
      "isFabricPlainContainer c'" "own c' k' = None"
      "\<forall>u. splice_spine es p u = writeBack x (take (length es) p) u"
      using Cons.IH [OF x] by blast
    then show ?thesis using c by (intro exI [of _ "v # es"] exI [of _ c'] exI [of _ k'] exI [of _ q]) simp
  qed
qed

lemma loop_Blocked:
  assumes "tracePath_loop cs i v p = Blocked ds at w"
  shows "\<exists>j<length p. at = i + j \<and> \<not> isFabricPlainContainer w \<and> readAt v p = None"
  using assms
proof (induction p arbitrary: cs i v)
  case Nil
  then show ?case by simp
next
  case (Cons k p)
  show ?case
  proof (cases "isFabricPlainContainer v")
    case False
    then have "readAt v (k # p) = None" "w = v" "at = i"
      using Cons.prems readAt_stuck [of v "k # p"] by simp_all
    then show ?thesis using False by (intro exI [of _ 0]) (simp del: get_path.simps)
  next
    case True
    then obtain x where x: "own v k = Some x" "tracePath_loop (cs @ [v]) (Suc i) x p = Blocked ds at w"
      using Cons.prems by (auto split: option.splits)
    obtain j where "j < length p" "at = Suc i + j" "\<not> isFabricPlainContainer w" "readAt x p = None"
      using Cons.IH [OF x(2)] by blast
    moreover have "child v k = None \<or> child v k = Some x" using own_child [OF x(1)] by auto
    ultimately show ?thesis by (intro exI [of _ "Suc j"]) auto
  qed
qed

section \<open>What cloning for mutation hands out\<close>

lemma created_empty: "q \<noteq> [] \<Longrightarrow> readAt (createMissingContainer k) q = None"
  by (cases q) (auto simp: createMissingContainer_def arr_at_def)

lemma created_container [simp]:
  "isFabricPlainContainer (createMissingContainer k)" "wf_fval (createMissingContainer k)"
  by (simp_all add: createMissingContainer_def isFabricPlainContainer_def)

lemma create_rest_target:
  "create_rest p next c = Inr (c', pv) \<Longrightarrow>
     readAt c' p = Some pv \<and> pv = (if p = [] then c else createMissingContainer next)"
proof (induction p arbitrary: c c')
  case (Cons k p)
  let ?n = "case p of [] \<Rightarrow> next | k' # _ \<Rightarrow> k'"
  obtain f where f: "create_rest p next (createMissingContainer ?n) = Inr (f, pv)" "set_slot c k f = Inr c'"
    using Cons.prems by (auto simp: result_simps Let_def)
  then show ?case using Cons.IH [OF f(1)] set_slot_child [OF f(2), of k] by auto
qed simp

lemma create_rest_frame:
  "create_rest p next c = Inr (c', pv) \<Longrightarrow> p = [] \<or> child c (hd p) = None \<Longrightarrow> \<not> prefix q p \<Longrightarrow>
     readAt c' q = readAt c q"
proof (induction p arbitrary: c c' q)
  case (Cons k p)
  let ?n = "case p of [] \<Rightarrow> next | k' # _ \<Rightarrow> k'"
  obtain f where f: "create_rest p next (createMissingContainer ?n) = Inr (f, pv)" "set_slot c k f = Inr c'"
    using Cons.prems by (auto simp: result_simps Let_def)
  obtain j r where q: "q = j # r" using Cons.prems(3) by (cases q) auto
  show ?case
  proof (cases "j = k")
    case True
    then have r: "\<not> prefix r p" "r \<noteq> []" using Cons.prems(3) q by auto
    have "p = [] \<or> child (createMissingContainer ?n) (hd p) = None"
      by (auto simp: createMissingContainer_def arr_at_def)
    from Cons.IH [OF f(1) this r(1)] have "readAt f r = None" using created_empty [OF r(2)] by simp
    then show ?thesis using Cons.prems(2) q True set_slot_child [OF f(2), of k] by simp
  next
    case False
    then show ?thesis using q set_slot_child [OF f(2), of j] by simp
  qed
qed simp

lemma container_value: "isFabricContainerValue w \<Longrightarrow> \<not> (\<exists>n. w = FNum n)"
  by (auto simp: isFabricContainerValue_def isFabricPlainContainer_def)

lemma plain_is_value: "isFabricPlainContainer v \<Longrightarrow> isFabricContainerValue v"
  by (simp add: isFabricContainerValue_def)

text \<open>The path to what is handed out: either it was there, and nothing changes, or it was missing
  and is created along with the containers to it.\<close>

definition cloned :: "fval \<Rightarrow> path \<Rightarrow> bool \<Rightarrow> string \<Rightarrow> fval \<Rightarrow> fval \<Rightarrow> bool" where
  "cloned v p createMissing next v' pv \<longleftrightarrow>
     readAt v' p = Some pv \<and> (\<forall>q. \<not> prefix q p \<longrightarrow> readAt v' q = readAt v q)
     \<and> (v' = v \<and> isFabricContainerValue pv
        \<or> readAt v p = None \<and> createMissing \<and> pv = createMissingContainer next)"

lemma clone_Complete:
  assumes "tracePath v p = Complete ds w" "isFabricContainerValue w" "p \<noteq> []"
  shows "cloneForMutation v p cm next = Inr (v, w) \<and> readAt v p = Some w"
proof -
  obtain es where es: "ds = es" "readAt v p = Some w" "\<forall>u. splice_spine es p u = writeBack v p u"
    using loop_Complete [OF assms(1) [unfolded tracePath_def] container_value [OF assms(2)]] by auto
  have "splice_spine ds p w = Inr v" using es tree.put_path_same [OF es(2)] by simp
  then show ?thesis using assms es by (simp add: cloneForMutation_def)
qed

lemma clone_Missing:
  assumes "tracePath v p = Missing ds at" "cloneForMutation v p cm next = Inr (v', pv)"
  shows "cloned v p cm next v' pv"
proof -
  obtain es c k q where m: "ds = es @ [c]" "at = length es" "p = take (length es) p @ k # q" "length es < length p"
    "readAt v (take (length es) p) = Some c" "own c k = None"
    "\<forall>u. splice_spine es p u = writeBack v (take (length es) p) u"
    using loop_Missing [OF assms(1) [unfolded tracePath_def]] by auto
  define r where "r = take (length es) p"
  have "take (length es) p @ drop (length es) p = take (length es) p @ k # q"
    using m(3) by (simp only: append_take_drop_id)
  then have d: "drop at p = k # q" by (simp only: same_append_eq m(2))
  have p: "p = r @ k # q" using m(3) by (simp only: r_def)
  then have "p \<noteq> []" by simp
  note p = p d this
  obtain c' where c': "create_rest (k # q) next c = Inr (c', pv)" "writeBack v r c' = Inr v'" and cm: cm
    using assms m(1,7) p(2,3) by (auto simp: cloneForMutation_def result_simps r_def split: if_splits)
  have k: "child c k = None" using own_None_child [OF m(6)] .
  have r: "readAt v r = Some c" using m(5) by (simp add: r_def)
  have none: "readAt v p = None" using r k p(1) by (simp add: tree.get_path_append)
  have "readAt v' p = Some pv"
    using tree.get_put_below [OF c'(2), of "k # q"] create_rest_target [OF c'(1)] p(1) by simp
  moreover have "readAt v' s = readAt v s" if s: "\<not> prefix s p" for s
  proof (cases "prefix r s")
    case True
    then obtain t where t: "s = r @ t" by (auto simp: prefix_def)
    then have "\<not> prefix t (k # q)" using s unfolding p(1) by simp
    then have "readAt c' t = readAt c t" by (intro create_rest_frame [OF c'(1)]) (simp add: k)
    then show ?thesis using tree.get_put_below [OF c'(2), of t] r t by (simp add: tree.get_path_append)
  next
    case False
    moreover have "\<not> prefix s r" using s p(1) by (auto simp: prefix_def)
    ultimately show ?thesis using tree.get_put_beside [OF c'(2)] by simp
  qed
  ultimately show ?thesis
    using none cm create_rest_target [OF c'(1)] by (simp add: cloned_def)
qed

lemma clone_cases:
  assumes "cloneForMutation v p cm next = Inr (v', pv)"
  shows "cloned v p cm next v' pv"
proof (cases "p = []")
  case True
  then show ?thesis using assms by (auto simp: cloneForMutation_def cloned_def split: if_splits)
next
  case False
  show ?thesis
  proof (cases "tracePath v p")
    case (Complete ds w)
    then have w: "isFabricContainerValue w" using assms False by (auto simp: cloneForMutation_def split: if_splits)
    from clone_Complete [OF Complete w False, of cm "next"] show ?thesis
      using assms w by (auto simp: cloned_def)
  next
    case (Missing ds at)
    then show ?thesis using clone_Missing assms by blast
  next
    case (Blocked ds at w)
    then show ?thesis using assms False by (auto simp: cloneForMutation_def split: if_splits)
  qed
qed

lemma clone_present:
  assumes "readAt v p = Some w" "isFabricContainerValue w"
  shows "cloneForMutation v p cm next = Inr (v, w)"
proof (cases "p = []")
  case True
  then show ?thesis using assms by (simp add: cloneForMutation_def)
next
  case False
  have "tracePath_loop cs i v p = Complete (cs @ spine) w \<or> (\<exists>ds. tracePath_loop cs i v p = Complete ds w)" for cs i spine
    using assms(1)
  proof (induction p arbitrary: v cs i)
    case (Cons k p)
    then obtain x where x: "child v k = Some x" "readAt x p = Some w" by (auto split: option.splits)
    then show ?case
      using Cons.IH [OF x(2), of "cs @ [v]" "Suc i"] child_own [OF x(1)] child_container [OF x(1)] by auto
  qed simp
  then obtain ds where "tracePath v p = Complete ds w" unfolding tracePath_def by blast
  from clone_Complete [OF this assms(2) False] show ?thesis by blast
qed

section \<open>Well-formedness\<close>

lemma wf_child: "wf_fval v \<Longrightarrow> child v k = Some w \<Longrightarrow> wf_fval w"
  by (cases v) (fastforce simp: arr_at_def dest: map_of_SomeD nth_mem split: if_splits)+

lemma wf_set_slot: "wf_fval v \<Longrightarrow> wf_fval w \<Longrightarrow> set_slot v k w = Inr v' \<Longrightarrow> wf_fval v'"
  by (cases v) (auto simp del: wf_fval.simps split: if_splits)

lemma wf_readAt: "wf_fval v \<Longrightarrow> readAt v p = Some w \<Longrightarrow> wf_fval w"
  by (induction p arbitrary: v) (auto dest: wf_child split: option.splits)

lemma wf_writeBack: "wf_fval v \<Longrightarrow> wf_fval c \<Longrightarrow> writeBack v p c = Inr v' \<Longrightarrow> wf_fval v'"
proof (induction p arbitrary: v v')
  case (Cons k p)
  then obtain x x' where "child v k = Some x" "writeBack x p c = Inr x'" "set_slot v k x' = Inr v'"
    by (auto simp: result_simps split: option.splits)
  with Cons.IH [of x x'] Cons.prems wf_child wf_set_slot show ?case by blast
qed simp

lemma wf_create_rest: "create_rest p next c = Inr (c', pv) \<Longrightarrow> wf_fval c \<Longrightarrow> wf_fval c'"
proof (induction p arbitrary: c c')
  case (Cons k p)
  let ?n = "case p of [] \<Rightarrow> next | k' # _ \<Rightarrow> k'"
  obtain f where f: "create_rest p next (createMissingContainer ?n) = Inr (f, pv)" "set_slot c k f = Inr c'"
    using Cons.prems by (auto simp: result_simps Let_def)
  have "wf_fval f" using Cons.IH [OF f(1)] by simp
  then show ?case using Cons.prems(2) wf_set_slot f(2) by blast
qed simp

lemma wf_clone:
  assumes "cloneForMutation v p cm next = Inr (v', pv)" "wf_fval v"
  shows "wf_fval v' \<and> wf_fval pv"
proof -
  have "wf_fval v'"
  proof (cases "tracePath v p")
    case (Missing ds at)
    then obtain es c where m: "ds = es @ [c]" "readAt v (take (length es) p) = Some c"
      "\<forall>u. splice_spine es p u = writeBack v (take (length es) p) u" "p \<noteq> []"
      using loop_Missing [of "[]" 0 v p ds at] by (auto simp: tracePath_def)
    then obtain c' where "create_rest (drop at p) next c = Inr (c', pv)" "writeBack v (take (length es) p) c' = Inr v'"
      using assms(1) Missing by (auto simp: cloneForMutation_def result_simps split: if_splits)
    then show ?thesis using wf_create_rest wf_writeBack wf_readAt m(2) assms(2) by blast
  next
    case (Complete ds w)
    then have "v' = v" using assms(1) clone_Complete [OF Complete, of cm "next"]
      by (cases "p = []") (auto simp: cloneForMutation_def split: if_splits)
    then show ?thesis using assms(2) by simp
  next
    case (Blocked ds at w)
    then have "v' = v" using assms(1) by (auto simp: cloneForMutation_def split: if_splits)
    then show ?thesis using assms(2) by simp
  qed
  moreover have "readAt v' p = Some pv" using clone_cases [OF assms(1)] by (simp add: cloned_def)
  ultimately show ?thesis using wf_readAt by blast
qed

section \<open>Setting and removing along a path\<close>

lemma readChildAt_child: "isFabricPlainContainer c \<Longrightarrow> readChildAt c k = (case child c k of None \<Rightarrow> FUndefined | Some v \<Rightarrow> v)"
  by (auto simp: plain_container split: option.splits)

lemma hasChildAt_child: "isFabricPlainContainer c \<Longrightarrow> hasChildAt c k \<longleftrightarrow> child c k \<noteq> None"
  by (auto simp: plain_container hasChildAt_def hasOwn_def)

declare readChildAt.simps [simp del]

lemma parent_walk_iff:
  "parent_walk v p = Some w \<longleftrightarrow> readAt v p = Some w \<and> (p = [] \<or> w \<noteq> FUndefined)"
proof (induction p arbitrary: v)
  case (Cons k p)
  show ?case
  proof (cases "isFabricPlainContainer v")
    case True
    then show ?thesis
      using Cons.IH readAt_stuck [of FUndefined p]
      by (cases "p = []") (auto simp: readChildAt_child isFabricPlainContainer_def Let_def split: option.splits)
  next
    case False
    then show ?thesis using readAt_stuck [of v "k # p"] by (simp del: get_path.simps)
  qed
qed auto

lemma butlast_last_read:
  "p \<noteq> [] \<Longrightarrow> readAt v p = (case readAt v (butlast p) of None \<Rightarrow> None | Some c \<Rightarrow> child c (last p))"
  using tree.get_path_append [of v "butlast p" "[last p]"] by (auto split: option.splits)

lemma without_absent:
  assumes "root \<noteq> FUndefined" "p \<noteq> []" "readAt root p = None"
  shows "cloneWithoutValueAtPath root p = Inr root"
proof (cases "parent_walk root (butlast p)")
  case (Some c)
  then have "isFabricPlainContainer c \<longrightarrow> \<not> hasChildAt c (last p)"
    using assms butlast_last_read [of p root] by (auto simp: parent_walk_iff hasChildAt_child)
  then show ?thesis using assms Some by (auto simp: cloneWithoutValueAtPath_def)
qed (use assms in \<open>simp add: cloneWithoutValueAtPath_def\<close>)

lemma without_present:
  assumes "p \<noteq> []" "readAt root (butlast p) = Some c" "child c (last p) \<noteq> None"
  shows "cloneWithoutValueAtPath root p = writeBack root (butlast p) (remove_slot c (last p))"
proof -
  have c: "isFabricPlainContainer c" using assms(3) child_container by blast
  then have u: "c \<noteq> FUndefined" by (auto simp: isFabricPlainContainer_def)
  have w: "parent_walk root (butlast p) = Some c" "hasChildAt c (last p)"
    using assms c u by (simp_all add: parent_walk_iff hasChildAt_child)
  have r: "root \<noteq> FUndefined"
    using assms(2) u readAt_stuck [of FUndefined "butlast p"]
    by (cases "butlast p = []") (auto simp: isFabricPlainContainer_def)
  have "cloneForMutation root (butlast p) False [] = Inr (root, c)"
    by (rule clone_present [OF assms(2) plain_is_value [OF c]])
  then show ?thesis using w r c assms(1) by (simp add: cloneWithoutValueAtPath_def)
qed

lemma set_at_reads:
  assumes "cloneForMutation root (butlast p) cm k = Inr (r', pv)" "set_slot pv (last p) value = Inr c'"
    and "writeBack r' (butlast p) c' = Inr v'" "p \<noteq> []"
  shows "readAt v' p = Some value" and "\<not> pathsOverlap p q \<Longrightarrow> readAt v' q = readAt root q"
proof -
  have p: "p = butlast p @ [last p]" using assms(4) by simp
  note cl = clone_cases [OF assms(1), unfolded cloned_def]
  show "readAt v' p = Some value"
    using tree.get_put_below [OF assms(3), of "[last p]"] set_slot_child [OF assms(2), of "last p"] p by simp
  assume "\<not> pathsOverlap p q"
  then have o: "\<not> prefix (butlast p @ [last p]) q" "\<not> prefix q (butlast p @ [last p])"
    using p by (auto simp: pathsOverlap_iff)
  have "readAt v' q = readAt r' q"
  proof (rule tree.get_put_slot [OF _ assms(3) _ o])
    show "readAt r' (butlast p) = Some pv" using cl by blast
    show "k' \<noteq> last p \<Longrightarrow> child c' k' = child pv k'" for k' using set_slot_child [OF assms(2), of k'] by simp
  qed
  also have "\<dots> = readAt root q"
  proof -
    have "\<not> prefix q (butlast p)" using o(2) by (metis prefix_prefix)
    then show ?thesis using cl by blast
  qed
  finally show "readAt v' q = readAt root q" .
qed

section \<open>Properties\<close>

text \<open>What \<^verbatim>\<open>cloneForMutation\<close> hands out when it returns: the value it names is at the path in
  the tree it names, it is a container, no path off the spine reads differently, and either the path
  was there and nothing changed, or it was missing, creating was asked for, and it is the empty
  container of the shape the next key calls for.\<close>

theorem clone_for_mutation_contract:
  assumes "cloneForMutation v p createMissing nextKey = Inr (v', pv)"
  shows "readAt v' p = Some pv \<and> isFabricContainerValue pv
    \<and> (\<forall>q. isPrefixPath q p \<or> readAt v' q = readAt v q)
    \<and> (if readAt v p = None then createMissing \<and> pv = createMissingContainer nextKey else v' = v)"
proof -
  note c = clone_cases [OF assms, unfolded cloned_def]
  then have "isFabricContainerValue pv" using plain_is_value by auto
  moreover have "if readAt v p = None then createMissing \<and> pv = createMissingContainer nextKey else v' = v"
    using c by auto
  ultimately show ?thesis using c unfolding isPrefixPath_iff by blast
qed

theorem clone_for_mutation_contract_witness:
  "readAt (FObj [(''a'', FObj []), (''b'', FArr [])]) [''b''] = Some (FArr [])
   \<and> readAt (FObj [(''a'', FObj []), (''b'', FArr [])]) [''a''] = readAt (FObj [(''a'', FObj [])]) [''a'']"
proof -
  have "cloneForMutation (FObj [(''a'', FObj [])]) [''b''] True ''-''
      = Inr (FObj [(''a'', FObj []), (''b'', FArr [])], FArr [])"
    by code_simp
  from clone_for_mutation_contract [OF this] have
    "readAt (FObj [(''a'', FObj []), (''b'', FArr [])]) [''b''] = Some (FArr [])"
    "\<forall>q. isPrefixPath q [''b''] \<or>
       readAt (FObj [(''a'', FObj []), (''b'', FArr [])]) q = readAt (FObj [(''a'', FObj [])]) q"
    by blast+
  then show ?thesis by (auto dest: spec [of _ "[''a'']"])
qed

text \<open>Without \<^verbatim>\<open>createMissing\<close>, \<^verbatim>\<open>cloneForMutation\<close> returns exactly where the path leads to a
  container, and then hands out that container in the value it was given; everywhere else it is one
  of its errors.\<close>

theorem clone_for_mutation_returns_iff:
  "cloneForMutation v p False nextKey = Inr (v', pv)
     \<longleftrightarrow> v' = v \<and> readAt v p = Some pv \<and> isFabricContainerValue pv"
proof
  assume "cloneForMutation v p False nextKey = Inr (v', pv)"
  from clone_cases [OF this] show "v' = v \<and> readAt v p = Some pv \<and> isFabricContainerValue pv"
    by (auto simp: cloned_def)
next
  assume "v' = v \<and> readAt v p = Some pv \<and> isFabricContainerValue pv"
  then show "cloneForMutation v p False nextKey = Inr (v', pv)" using clone_present by simp
qed

text \<open>C36. \<^verbatim>\<open>cloneWithValueAtPath\<close> is a write: the path reads back as the value written, and a path
  that does not overlap it reads as before.\<close>

theorem set_at_path_reads_back:
  assumes "cloneWithValueAtPath root p value = Inr v'"
  shows "readAt v' p = Some value \<and> (\<forall>q. pathsOverlap p q \<or> readAt v' q = readAt root q)"
proof (cases "p = []")
  case True
  then show ?thesis using assms by (simp add: cloneWithValueAtPath_def pathsOverlap_iff)
next
  case False
  let ?r = "if root = FUndefined \<or> root = FNull then FObj [] else root"
  obtain r' pv c' where c: "cloneForMutation ?r (butlast p) True (last p) = Inr (r', pv)"
    "set_slot pv (last p) value = Inr c'" "writeBack r' (butlast p) c' = Inr v'"
    using assms False by (auto simp: cloneWithValueAtPath_def Let_def result_simps split: if_splits)
  have root: "readAt ?r q = readAt root q" if "\<not> pathsOverlap p q" for q
    using that by (cases q) (auto simp: pathsOverlap_iff)
  have "readAt v' q = readAt root q" if "\<not> pathsOverlap p q" for q
    using set_at_reads(2) [OF c False that] root [OF that] by simp
  then show ?thesis using set_at_reads(1) [OF c False] by blast
qed

theorem set_at_path_reads_back_witness:
  "readAt (FObj [(''list'', FArr [Some FNull]), (''x'', FNull)]) [''list'', ''0''] = Some FNull"
proof -
  have "cloneWithValueAtPath (FObj [(''list'', FArr []), (''x'', FNull)]) [''list'', ''0''] FNull
      = Inr (FObj [(''list'', FArr [Some FNull]), (''x'', FNull)])"
    by code_simp
  from set_at_path_reads_back [OF this] show ?thesis by simp
qed

text \<open>\<^verbatim>\<open>cloneWithoutValueAtPath\<close> never fails on a value and a non-empty path: a path that is not
  there leaves the value as it is, and otherwise its parent loses that property, or that element
  with the ones after it moving down, and nothing beside the parent changes.\<close>

theorem remove_at_path_total:
  assumes "root \<noteq> FUndefined" "p \<noteq> []"
  shows "(readAt root p = None \<longrightarrow> cloneWithoutValueAtPath root p = Inr root)
    \<and> (readAt root p \<noteq> None \<longrightarrow> (\<exists>c v'. cloneWithoutValueAtPath root p = Inr v'
         \<and> readAt root (butlast p) = Some c \<and> readAt v' (butlast p) = Some (remove_slot c (last p))
         \<and> (\<forall>q. pathsOverlap (butlast p) q \<or> readAt v' q = readAt root q)))"
proof (intro conjI impI)
  assume "readAt root p = None"
  then show "cloneWithoutValueAtPath root p = Inr root" by (rule without_absent [OF assms])
next
  assume "readAt root p \<noteq> None"
  then obtain c w where c: "readAt root (butlast p) = Some c" "child c (last p) = Some w"
    using butlast_last_read [OF assms(2), of root] by (auto split: option.splits)
  obtain v' where v': "writeBack root (butlast p) (remove_slot c (last p)) = Inr v'"
    using tree.put_path_total [OF c(1)] by blast
  have "cloneWithoutValueAtPath root p = Inr v'"
    using without_present [OF assms(2) c(1)] c(2) v' by simp
  moreover have "readAt v' (butlast p) = Some (remove_slot c (last p))"
    using tree.get_put_self [OF v'] .
  moreover have "pathsOverlap (butlast p) q \<or> readAt v' q = readAt root q" for q
    using tree.get_put_beside [OF v', of q] by (auto simp: pathsOverlap_iff)
  ultimately show "\<exists>c v'. cloneWithoutValueAtPath root p = Inr v'
      \<and> readAt root (butlast p) = Some c \<and> readAt v' (butlast p) = Some (remove_slot c (last p))
      \<and> (\<forall>q. pathsOverlap (butlast p) q \<or> readAt v' q = readAt root q)"
    using c(1) by blast
qed

theorem remove_at_path_total_witness:
  "cloneWithoutValueAtPath (FObj [(''list'', FArr [Some FNull])]) [''list'', ''1'']
     = Inr (FObj [(''list'', FArr [Some FNull])])"
proof -
  let ?r = "FObj [(''list'', FArr [Some FNull])]" and ?p = "[''list'', ''1'']"
  have none: "readAt ?r ?p = None"
    by (simp add: isArrayIndexPropertyName_def digit_of_def arr_at_def index_of_def)
  have ne: "?r \<noteq> FUndefined" "?p \<noteq> []" by simp_all
  show ?thesis by (rule remove_at_path_total [OF ne, THEN conjunct1, rule_format, OF none])
qed

end
