(* ===== verification/Leb128.thy ===== *)
theory Leb128
  imports Prelude
begin

unbundle bit_operations_syntax

text \<open>
  LEB128 variable-length integers (\<^verbatim>\<open>base/bytes/src/leb128.ts\<close>). JavaScript's bitwise operators
  work on 32-bit words, so the loops run on \<^typ>\<open>u32\<close>; a shift count is always below 32 here.
  A JavaScript number is seen by these functions through \<^verbatim>\<open>Number.isInteger\<close>: \<open>Whole n\<close> is the
  integer \<open>n\<close> and \<open>Fractional\<close> any number that is not an integer, \<^verbatim>\<open>NaN\<close> and the infinities
  included.
\<close>

datatype jsnumeric = Whole int | Fractional

datatype leb_error = NotNonNegativeInteger | NotInteger | ExceedsRange | UnexpectedEnd

definition MAX_UINT32 :: int where "MAX_UINT32 = 0xFFFFFFFF"
definition MIN_INT32 :: int where "MIN_INT32 = - 0x80000000"
definition MAX_INT32 :: int where "MAX_INT32 = 0x7FFFFFFF"

section \<open>Word facts\<close>

lemma and_7f: "w AND 0x7f = take_bit 7 (w :: 'a::len word)"
  by (simp add: take_bit_eq_mask mask_eq_exp_minus_1)

lemma and_80_zero: "w AND 0x80 = 0 \<longleftrightarrow> \<not> bit (w :: byte) 7"
proof -
  have "(0x80 :: byte) = push_bit 7 1" by simp
  then show ?thesis
    by (metis (no_types) and_exp_eq_0_iff_not_bit power_numeral_even numeral_One push_bit_of_1)
qed

lemma and_40_zero: "w AND 0x40 = 0 \<longleftrightarrow> \<not> bit (w :: byte) 6"
proof -
  have "(0x40 :: byte) = 2 ^ 6" by simp
  then show ?thesis by (metis and_exp_eq_0_iff_not_bit)
qed

section \<open>Unsigned\<close>

function uleb_loop :: "u32 \<Rightarrow> bytes" where
  "uleb_loop remaining =
     (if remaining > 0 then
        (let byte = ucast (remaining AND 0x7f); remaining' = drop_bit 7 remaining
         in (if remaining' > 0 then byte OR 0x80 else byte) # uleb_loop remaining')
      else [])"
  by pat_completeness auto
termination
proof (relation "measure unat")
  fix remaining :: u32
  assume "remaining > 0"
  then have "unat remaining > 0"
    by (simp add: word_less_nat_alt)
  then show "\<And>x xa. x = ucast (remaining AND 127) \<Longrightarrow> xa = drop_bit 7 remaining \<Longrightarrow>
      (xa, remaining) \<in> measure unat"
    by (simp only: in_measure unat_drop_bit_eq) (simp add: drop_bit_eq_div)
qed simp

declare uleb_loop.simps [simp del]

definition encodeULEB128 :: "jsnumeric \<Rightarrow> leb_error + bytes" where
  "encodeULEB128 value =
     (case value of
        Fractional \<Rightarrow> Inl NotNonNegativeInteger
      | Whole n \<Rightarrow>
          if n < 0 then Inl NotNonNegativeInteger
          else if n > MAX_UINT32 then Inl ExceedsRange
          else if n = 0 then Inr [0]
          else Inr (uleb_loop (word_of_int n)))"

function uleb_decode :: "bytes \<Rightarrow> u32 \<Rightarrow> nat \<Rightarrow> nat \<Rightarrow> leb_error + (u32 \<times> nat)" where
  "uleb_decode buffer result shift index =
     (if index \<ge> length buffer then Inl UnexpectedEnd
      else
        let byte = buffer ! index in
        if shift \<ge> 28 \<and> (byte AND 0x7f) > 0x0f then Inl ExceedsRange
        else if shift \<ge> 35 then Inl ExceedsRange
        else
          let result' = result OR push_bit shift (ucast (byte AND 0x7f)) in
          if byte AND 0x80 \<noteq> 0 then uleb_decode buffer result' (shift + 7) (Suc index)
          else Inr (result', Suc index))"
  by pat_completeness auto
termination
  by (relation "measure (\<lambda>(buffer, result, shift, index). length buffer - index)") auto

declare uleb_decode.simps [simp del]

definition decodeULEB128 :: "bytes \<Rightarrow> nat \<Rightarrow> leb_error + (nat \<times> nat)" where
  "decodeULEB128 buffer index =
     bindR (uleb_decode buffer 0 0 index) (\<lambda>(result, next). Inr (unat result, next))"

section \<open>Signed\<close>

definition sleb_measure :: "u32 \<Rightarrow> nat" where
  "sleb_measure v = (if v = 0 \<or> v = - 1 then 0 else nat \<bar>sint v\<bar> + 1)"

lemma sleb_measure_decreases:
  assumes "v \<noteq> 0" "v \<noteq> - 1"
  shows "sleb_measure (signed_drop_bit 7 v) < sleb_measure v"
proof -
  have "sint v \<noteq> 0" "sint v \<noteq> - 1"
    using assms by (metis signed_0 signed_word_eqI, metis signed_minus_1 signed_word_eqI)
  moreover have "sint (signed_drop_bit 7 v) = sint v div 128"
    by (simp add: sint_signed_drop_bit_eq drop_bit_eq_div)
  ultimately show ?thesis
    using assms by (auto simp: sleb_measure_def)
qed

function sleb_loop :: "u32 \<Rightarrow> bytes" where
  "sleb_loop value =
     (let byte = ucast (value AND 0x7f) :: byte; value' = signed_drop_bit 7 value
      in if (value' = 0 \<and> byte AND 0x40 = 0) \<or> (value' = - 1 \<and> byte AND 0x40 \<noteq> 0)
         then [byte] else (byte OR 0x80) # sleb_loop value')"
  by pat_completeness auto
termination
proof (relation "measure sleb_measure")
  fix v :: u32 and byte v'
  assume "byte = ucast (v AND 127)" "v' = signed_drop_bit 7 v"
    and "\<not> (v' = 0 \<and> byte AND 64 = (0 :: byte) \<or> v' = - 1 \<and> byte AND 64 \<noteq> 0)"
  then have "v \<noteq> 0" "v \<noteq> - 1" by auto
  then show "(v', v) \<in> measure sleb_measure"
    using \<open>v' = _\<close> by (simp add: sleb_measure_decreases)
qed simp

declare sleb_loop.simps [simp del]

definition encodeSLEB128 :: "jsnumeric \<Rightarrow> leb_error + bytes" where
  "encodeSLEB128 value =
     (case value of
        Fractional \<Rightarrow> Inl NotInteger
      | Whole n \<Rightarrow>
          if n < MIN_INT32 \<or> n > MAX_INT32 then Inl ExceedsRange
          else Inr (sleb_loop (word_of_int n)))"

function sleb_decode :: "bytes \<Rightarrow> u32 \<Rightarrow> nat \<Rightarrow> nat \<Rightarrow> leb_error + (u32 \<times> nat)" where
  "sleb_decode buffer result shift index =
     (if index \<ge> length buffer then Inl UnexpectedEnd
      else
        let byte = buffer ! index in
        if shift \<ge> 35 then Inl ExceedsRange
        else
          let result' = result OR push_bit shift (ucast (byte AND 0x7f)); shift' = shift + 7 in
          if byte AND 0x80 \<noteq> 0 then sleb_decode buffer result' shift' (Suc index)
          else
            Inr (if shift' < 32 \<and> byte AND 0x40 \<noteq> 0
                 then result' OR - push_bit shift' 1 else result', Suc index))"
  by pat_completeness auto
termination
  by (relation "measure (\<lambda>(buffer, result, shift, index). length buffer - index)") auto

declare sleb_decode.simps [simp del]

definition decodeSLEB128 :: "bytes \<Rightarrow> nat \<Rightarrow> leb_error + (int \<times> nat)" where
  "decodeSLEB128 buffer index =
     bindR (sleb_decode buffer 0 0 index) (\<lambda>(result, next). Inr (sint result, next))"

section \<open>Round trips\<close>

lemma uleb_split:
  "push_bit s (take_bit 7 r) OR push_bit (s + 7) (drop_bit 7 r) = push_bit s (r :: u32)"
proof (rule bit_word_eqI)
  fix n
  assume "n < LENGTH(32)"
  moreover have "s + 7 \<le> n \<Longrightarrow> 7 + (n - (s + 7)) = n - s" by arith
  ultimately show "bit (push_bit s (take_bit 7 r) OR push_bit (s + 7) (drop_bit 7 r)) n
      = bit (push_bit s r) n"
    by (cases "n < s + 7") (auto simp: bit_simps)
qed

lemma uleb_decode_step:
  assumes "bs = pre @ b # rest" "shift < 28" "bit b 7"
  shows "uleb_decode bs result shift (length pre)
    = uleb_decode bs (result OR push_bit shift (ucast (take_bit 7 b))) (shift + 7) (Suc (length pre))"
  using assms by (subst uleb_decode.simps) (auto simp: and_7f and_80_zero Let_def)

lemma uleb_decode_last:
  assumes "bs = pre @ b # rest" "shift < 28 \<or> shift = 28 \<and> take_bit 7 b \<le> 0x0f" "\<not> bit b 7"
  shows "uleb_decode bs result shift (length pre)
    = Inr (result OR push_bit shift (ucast (take_bit 7 b)), Suc (length pre))"
  using assms by (subst uleb_decode.simps) (auto simp: and_7f and_80_zero Let_def)

lemma low_byte:
  "ucast (take_bit 7 (ucast (take_bit 7 (r :: u32)) :: byte)) = take_bit 7 r"
  "ucast (take_bit 7 ((ucast (take_bit 7 r) :: byte) OR 0x80)) = take_bit 7 r"
  "\<not> bit (ucast (take_bit 7 r) :: byte) 7"
  "bit ((ucast (take_bit 7 r) :: byte) OR 0x80) 7"
proof -
  have "take_bit 7 (0x80 :: byte) = 0" by simp
  then show "ucast (take_bit 7 ((ucast (take_bit 7 r) :: byte) OR 0x80)) = take_bit 7 r"
    by (auto simp: take_bit_or bit_simps intro!: bit_word_eqI)
qed (auto simp: bit_simps intro!: bit_word_eqI)

lemma uleb_loop_decode:
  assumes "unat r < 2 ^ (32 - shift)" "shift \<le> 28" "7 dvd shift" "r > 0"
  shows "uleb_decode (pre @ uleb_loop r @ rest) result shift (length pre)
    = Inr (result OR push_bit shift r, length pre + length (uleb_loop r))"
  using assms
proof (induction r arbitrary: pre result shift rule: uleb_loop.induct)
  case (1 r)
  let ?b = "ucast (take_bit 7 r) :: byte" and ?r = "drop_bit 7 r"
  let ?bs = "pre @ uleb_loop r @ rest"
  have ur: "unat ?r = unat r div 128"
    by (simp only: unat_drop_bit_eq) (simp add: drop_bit_eq_div)
  show ?case
  proof (cases "?r > 0")
    case True
    then have "128 \<le> unat r"
      by (auto simp: word_less_nat_alt ur)
    with 1 have "(2::nat) ^ 7 < 2 ^ (32 - shift)" by simp
    then have "7 < 32 - shift"
      by (rule power_less_imp_less_exp [rotated]) simp
    then have sh: "shift < 28" "shift + 7 \<le> 28" "7 dvd shift + 7"
      using 1(4) by presburger+
    have "(2::nat) ^ (32 - shift) = 128 * 2 ^ (32 - (shift + 7))"
      using \<open>7 < 32 - shift\<close> power_add [of "2::nat" 7 "32 - (shift + 7)"] by simp
    with 1 have b: "unat ?r < 2 ^ (32 - (shift + 7))"
      by (simp add: ur less_mult_imp_div_less mult.commute)
    have loop: "uleb_loop r = (?b OR 0x80) # uleb_loop ?r"
      using 1 True by (simp add: uleb_loop.simps [of r] Let_def and_7f)
    have "uleb_decode ?bs result shift (length pre)
      = uleb_decode ?bs (result OR push_bit shift (take_bit 7 r)) (shift + 7) (Suc (length pre))"
      using uleb_decode_step [of ?bs pre "?b OR 0x80"] sh loop low_byte by simp
    also have "\<dots> = Inr ((result OR push_bit shift (take_bit 7 r)) OR push_bit (shift + 7) ?r,
        Suc (length pre) + length (uleb_loop ?r))"
      using 1(1) [OF _ refl refl, of "shift + 7" "pre @ [?b OR 0x80]"] 1 True sh b loop by simp
    finally show ?thesis
      using loop by (simp add: or.assoc uleb_split)
  next
    case False
    then have small: "take_bit 7 r = r"
      by (simp add: take_bit_eq_self_iff_drop_bit_eq_0 word_neq_0_conv [symmetric])
    have loop: "uleb_loop r = [?b]"
      using 1 False by (simp add: uleb_loop.simps [of r] uleb_loop.simps [of ?r] Let_def and_7f)
    have "shift = 28 \<Longrightarrow> unat r < 16" using 1 by simp
    moreover have "unat (take_bit 7 ?b) = unat r"
      using arg_cong [OF low_byte(1) [of r], of uint] small
      by (simp add: uint_up_ucast is_up flip: nat_uint_eq)
    ultimately have "shift = 28 \<Longrightarrow> take_bit 7 ?b \<le> 0x0f"
      by (simp add: word_le_nat_alt)
    then show ?thesis
      using uleb_decode_last [of ?bs pre ?b rest shift result] 1 loop low_byte(1,3) [of r] small
      by fastforce
  qed
qed

lemma decodeULEB128_encode:
  assumes "encodeULEB128 (Whole n) = Inr bs"
  shows "decodeULEB128 (pre @ bs @ rest) (length pre) = Inr (nat n, length pre + length bs)"
proof -
  consider "n = 0" "bs = [0]" | "0 < n" "n \<le> MAX_UINT32" "bs = uleb_loop (word_of_int n)"
    using assms by (auto simp: encodeULEB128_def split: if_splits)
  then show ?thesis
  proof cases
    case 1
    then show ?thesis
      by (simp add: decodeULEB128_def uleb_decode_last [of _ pre 0 rest])
  next
    case 2
    then have u: "uint (word_of_int n :: u32) = n"
      by (simp add: MAX_UINT32_def uint_word_of_int_eq take_bit_int_eq_self)
    then have "(word_of_int n :: u32) > 0" "unat (word_of_int n :: u32) = nat n"
      using 2 by (auto simp: word_less_alt simp flip: nat_uint_eq)
    moreover have "nat n < 2 ^ 32"
      using 2 by (simp add: MAX_UINT32_def)
    ultimately show ?thesis
      using uleb_loop_decode [of "word_of_int n" 0 pre rest 0] 2 by (simp add: decodeULEB128_def)
  qed
qed

lemma sleb_sign:
  assumes "signed_drop_bit 7 v = (if s then - 1 else 0 :: u32)" "bit v 6 = s" "7 \<le> n" "n < 32"
  shows "bit v n = s"
proof -
  have "bit (signed_drop_bit 7 v) (n - 7) = bit v n"
    using assms(3,4) by (auto simp: bit_simps)
  then show ?thesis
    using assms by (auto split: if_splits)
qed

lemma sleb_decode_step:
  assumes "bs = pre @ b # rest" "shift < 35" "bit b 7"
  shows "sleb_decode bs result shift (length pre)
    = sleb_decode bs (result OR push_bit shift (ucast (take_bit 7 b))) (shift + 7) (Suc (length pre))"
  using assms by (subst sleb_decode.simps) (auto simp: and_7f and_80_zero Let_def)

lemma sleb_decode_last:
  assumes "bs = pre @ b # rest" "shift < 35" "\<not> bit b 7"
  shows "sleb_decode bs result shift (length pre)
    = Inr ((result OR push_bit shift (ucast (take_bit 7 b)))
        OR (if shift + 7 < 32 \<and> bit b 6 then - push_bit (shift + 7) 1 else 0), Suc (length pre))"
  using assms by (subst sleb_decode.simps) (auto simp: and_7f and_80_zero and_40_zero Let_def)

lemma sleb_last_value:
  assumes "signed_drop_bit 7 v = (if s then - 1 else 0 :: u32)" "bit v 6 = s"
  shows "push_bit shift (take_bit 7 v) OR (if shift + 7 < 32 \<and> s then - push_bit (shift + 7) 1 else 0)
    = push_bit shift v"
proof (rule bit_word_eqI)
  fix n
  assume n: "n < LENGTH(32)"
  then have "bit (- push_bit (shift + 7) 1 :: u32) n \<longleftrightarrow> shift + 7 \<le> n"
    by (simp add: push_bit_of_1 minus_exp_eq_not_mask bit_not_iff bit_mask_iff not_less)
  moreover have "7 \<le> n - shift \<Longrightarrow> bit v (n - shift) = s"
    using sleb_sign [OF assms, of "n - shift"] n by simp
  ultimately show "bit (push_bit shift (take_bit 7 v)
        OR (if shift + 7 < 32 \<and> s then - push_bit (shift + 7) 1 else 0)) n = bit (push_bit shift v) n"
    using n by (cases "7 \<le> n - shift") (auto simp: bit_or_iff bit_push_bit_iff bit_take_bit_iff)
qed

lemma sleb_split:
  "push_bit s (take_bit 7 r) OR push_bit (s + 7) (signed_drop_bit 7 r) = push_bit s (r :: u32)"
proof (rule bit_word_eqI)
  fix n
  assume "n < LENGTH(32)"
  moreover have "s + 7 \<le> n \<Longrightarrow> 7 + (n - (s + 7)) = n - s" by arith
  ultimately show "bit (push_bit s (take_bit 7 r) OR push_bit (s + 7) (signed_drop_bit 7 r)) n
      = bit (push_bit s r) n"
    by (cases "n < s + 7") (auto simp: bit_simps)
qed

lemma bit_signed_drop_bit_7:
  assumes "n < 32"
  shows "bit (signed_drop_bit 7 v :: u32) n = bit v (min 31 (n + 7))"
proof -
  have "bit (signed_drop_bit 7 v) n = bit v (if 25 \<le> n then 31 else n + 7)"
    using assms by (simp add: bit_signed_drop_bit_iff add.commute del: One_nat_def)
  moreover have "min 31 (n + 7) = (if 25 \<le> n then 31 else n + 7)" by simp
  ultimately show ?thesis by simp
qed

lemma signed_take_bit_fixpoint:
  "(v :: u32) = signed_take_bit k v \<longleftrightarrow> (\<forall>n<32. bit v n = bit v (min k n))"
  by (subst bit_eq_iff) (auto simp: bit_signed_take_bit_iff dest: bit_imp_le_length)

lemma sleb_short:
  assumes "v = signed_take_bit (31 - 28) (v :: u32)"
  shows "signed_drop_bit 7 v = (if bit v 6 then - 1 else 0)"
proof (rule bit_word_eqI)
  note hyp = signed_take_bit_fixpoint [THEN iffD1, OF assms, rule_format]
  fix n
  assume n: "n < LENGTH(32)"
  then show "bit (signed_drop_bit 7 v) n = bit (if bit v 6 then - 1 else 0 :: u32) n"
    using hyp [of "min 31 (n + 7)"] hyp [of 6] by (auto simp: bit_signed_drop_bit_7)
qed

lemma sleb_narrow:
  assumes "v = signed_take_bit (31 - shift) (v :: u32)" "shift \<le> 21"
  shows "signed_drop_bit 7 v = signed_take_bit (31 - (shift + 7)) (signed_drop_bit 7 v)"
  unfolding signed_take_bit_fixpoint
proof (intro allI impI)
  note hyp = signed_take_bit_fixpoint [THEN iffD1, OF assms(1), rule_format]
  fix n :: nat
  assume n: "n < 32"
  show "bit (signed_drop_bit 7 v) n = bit (signed_drop_bit 7 v) (min (31 - (shift + 7)) n)"
  proof (cases "n \<le> 24 - shift")
    case True
    then have "min (31 - (shift + 7)) n = n" by arith
    then show ?thesis by simp
  next
    case False
    then have "min (31 - (shift + 7)) n = 24 - shift" "min 31 (24 - shift + 7) = 31 - shift"
      "min (31 - shift) (min 31 (n + 7)) = 31 - shift"
      using assms(2) by linarith+
    then show ?thesis
      using hyp [of "min 31 (n + 7)"] n bit_signed_drop_bit_7 [of n v]
        bit_signed_drop_bit_7 [of "24 - shift" v] by (simp only: split: if_splits) simp
  qed
qed

lemma sleb_loop_decode:
  assumes "v = signed_take_bit (31 - shift) v" "shift \<le> 28" "7 dvd shift"
  shows "sleb_decode (pre @ sleb_loop v @ rest) result shift (length pre)
    = Inr (result OR push_bit shift v, length pre + length (sleb_loop v))"
  using assms
proof (induction v arbitrary: pre result shift rule: sleb_loop.induct)
  case (1 v)
  let ?b = "ucast (take_bit 7 v) :: byte" and ?v = "signed_drop_bit 7 v"
  let ?bs = "pre @ sleb_loop v @ rest"
  let ?stop = "(?v = 0 \<and> ?b AND 0x40 = 0) \<or> (?v = - 1 \<and> ?b AND 0x40 \<noteq> 0)"
  show ?case
  proof (cases ?stop)
    case True
    then have loop: "sleb_loop v = [?b]"
      by (simp add: sleb_loop.simps [of v] Let_def and_7f)
    have s: "?v = (if bit v 6 then - 1 else 0)" "bit ?b 6 = bit v 6"
      using True by (auto simp: and_40_zero bit_simps)
    show ?thesis
      using sleb_decode_last [of ?bs pre ?b rest shift result] loop low_byte(1,3) [of v] 1(3)
        sleb_last_value [OF s(1) refl, of shift] s(2) by (simp add: or.assoc)
  next
    case False
    have "shift \<noteq> 28"
      using sleb_short [of v] 1(2) False
      by (cases "bit v 6") (auto simp: and_40_zero bit_simps)
    then have sh: "shift + 7 \<le> 28" "7 dvd shift + 7"
      using 1(3,4) by presburger+
    have v: "?v = signed_take_bit (31 - (shift + 7)) ?v"
      using sleb_narrow [OF 1(2)] sh by simp
    have loop: "sleb_loop v = (?b OR 0x80) # sleb_loop ?v"
      by (subst sleb_loop.simps) (use False in \<open>simp only: Let_def and_7f if_False\<close>)
    have "sleb_decode ?bs result shift (length pre)
      = sleb_decode ?bs (result OR push_bit shift (take_bit 7 v)) (shift + 7) (Suc (length pre))"
      using sleb_decode_step [of ?bs pre "?b OR 0x80"] sh loop low_byte by simp
    also have "\<dots> = Inr ((result OR push_bit shift (take_bit 7 v)) OR push_bit (shift + 7) ?v,
        Suc (length pre) + length (sleb_loop ?v))"
      using 1(1) [OF refl refl, of "shift + 7" "pre @ [?b OR 0x80]"] False sh v loop
      by (simp add: and_7f)
    finally show ?thesis
      using loop by (simp add: or.assoc sleb_split)
  qed
qed

lemma decodeSLEB128_encode:
  assumes "encodeSLEB128 (Whole n) = Inr bs"
  shows "decodeSLEB128 (pre @ bs @ rest) (length pre) = Inr (n, length pre + length bs)"
proof -
  have n: "MIN_INT32 \<le> n" "n \<le> MAX_INT32" "bs = sleb_loop (word_of_int n)"
    using assms by (auto simp: encodeSLEB128_def split: if_splits)
  then have "sint (word_of_int n :: u32) = n"
    by (simp add: sint_sbintrunc' signed_take_bit_int_eq_self MIN_INT32_def MAX_INT32_def)
  moreover have "(word_of_int n :: u32) = signed_take_bit (31 - 0) (word_of_int n)"
  proof (rule bit_word_eqI)
    fix k
    assume "k < LENGTH(32)"
    then have "min 31 k = k" by simp
    then show "bit (word_of_int n :: u32) k = bit (signed_take_bit (31 - 0) (word_of_int n :: u32)) k"
      using \<open>k < LENGTH(32)\<close> by (simp only: bit_signed_take_bit_iff) simp
  qed
  ultimately show ?thesis
    using sleb_loop_decode [of "word_of_int n" 0 pre rest 0] n by (simp add: decodeSLEB128_def)
qed

lemma length_uleb_loop: "unat r < 128 ^ k \<Longrightarrow> length (uleb_loop r) \<le> k"
proof (induction r arbitrary: k rule: uleb_loop.induct)
  case (1 r)
  have ur: "unat (drop_bit 7 r) = unat r div 128"
    by (simp only: unat_drop_bit_eq) (simp add: drop_bit_eq_div)
  show ?case
  proof (cases "r > 0")
    case True
    with 1(2) obtain j where k: "k = Suc j"
      by (cases k) (auto simp: word_less_nat_alt)
    with 1(2) have "unat (drop_bit 7 r) < 128 ^ j"
      by (simp add: ur less_mult_imp_div_less mult.commute)
    then show ?thesis
      using 1(1) [OF True refl refl] True k by (simp add: uleb_loop.simps [of r] Let_def)
  qed (simp add: uleb_loop.simps [of r])
qed

lemma encodeULEB128_length:
  assumes "encodeULEB128 v = Inr bs"
  shows "1 \<le> length bs \<and> length bs \<le> 5"
proof -
  have "length (uleb_loop r) \<le> 5" for r
    using length_uleb_loop [of r 5] unsigned_less [of r, where 'a = nat] by simp
  moreover have "bs \<noteq> []"
  proof (cases v)
    case (Whole n)
    then show ?thesis
      using decodeULEB128_encode [of n bs "[]" "[]"] assms
      by (auto simp: decodeULEB128_def uleb_decode.simps)
  qed (use assms in \<open>simp add: encodeULEB128_def\<close>)
  ultimately show ?thesis
    using assms by (auto simp: encodeULEB128_def Suc_le_eq split: jsnumeric.splits if_splits)
qed

section \<open>The length prefix as a stream codec\<close>

text \<open>What the content hash puts before every variable-length field, and how a reader takes it off.\<close>

definition uleb_enc :: "nat \<Rightarrow> bytes option" where
  "uleb_enc n = (case encodeULEB128 (Whole (int n)) of Inl _ \<Rightarrow> None | Inr bs \<Rightarrow> Some bs)"

definition uleb_dec :: "bytes \<Rightarrow> (nat \<times> bytes) option" where
  "uleb_dec bs = (case decodeULEB128 bs 0 of Inl _ \<Rightarrow> None | Inr (n, i) \<Rightarrow> Some (n, drop i bs))"

interpretation uleb: stream_codec uleb_enc uleb_dec
proof
  fix n x r
  assume "uleb_enc n = Some x"
  then have "encodeULEB128 (Whole (int n)) = Inr x"
    by (simp add: uleb_enc_def split: sum.splits)
  from decodeULEB128_encode [OF this, of "[]" r] show "uleb_dec (x @ r) = Some (n, r)"
    by (simp add: uleb_dec_def)
qed

section \<open>Properties\<close>

text \<open>C40. Every integer of the unsigned 32-bit range encodes, in one to five bytes, and
  \<^verbatim>\<open>decodeULEB128\<close> reads the encoding back from any position of any buffer that holds it there,
  returning the integer and the index just past it.\<close>

theorem uleb128_round_trip:
  assumes "0 \<le> n" and "n \<le> MAX_UINT32"
  shows "\<exists>bs. encodeULEB128 (Whole n) = Inr bs \<and> 1 \<le> length bs \<and> length bs \<le> 5 \<and>
    (\<forall>pre rest. decodeULEB128 (pre @ bs @ rest) (length pre) = Inr (nat n, length pre + length bs))"
proof -
  obtain bs where "encodeULEB128 (Whole n) = Inr bs"
    using assms by (cases "n = 0") (auto simp: encodeULEB128_def)
  then show ?thesis using decodeULEB128_encode encodeULEB128_length by blast
qed

theorem uleb128_round_trip_witness:
  "\<exists>bs. encodeULEB128 (Whole 624485) = Inr bs \<and> 1 \<le> length bs \<and> length bs \<le> 5 \<and>
    (\<forall>pre rest. decodeULEB128 (pre @ bs @ rest) (length pre) = Inr (nat 624485, length pre + length bs))"
  by (rule uleb128_round_trip) (simp_all add: MAX_UINT32_def)

text \<open>The same for the signed form over the signed 32-bit range: what \<^verbatim>\<open>encodeSLEB128\<close> writes,
  \<^verbatim>\<open>decodeSLEB128\<close> reads back, sign included, wherever it stands in a buffer.\<close>

theorem sleb128_round_trip:
  assumes "MIN_INT32 \<le> n" and "n \<le> MAX_INT32"
  shows "\<exists>bs. encodeSLEB128 (Whole n) = Inr bs \<and>
    (\<forall>pre rest. decodeSLEB128 (pre @ bs @ rest) (length pre) = Inr (n, length pre + length bs))"
proof -
  obtain bs where "encodeSLEB128 (Whole n) = Inr bs"
    using assms by (auto simp: encodeSLEB128_def)
  then show ?thesis using decodeSLEB128_encode by blast
qed

theorem sleb128_round_trip_witness:
  "\<exists>bs. encodeSLEB128 (Whole (- 123456)) = Inr bs \<and>
    (\<forall>pre rest. decodeSLEB128 (pre @ bs @ rest) (length pre) = Inr (- 123456, length pre + length bs))"
  by (rule sleb128_round_trip) (simp_all add: MIN_INT32_def MAX_INT32_def)

text \<open>The decoders treat a value beyond 32 bits differently. \<^verbatim>\<open>decodeULEB128\<close> refuses every fifth
  byte with payload bits above the four that fit; \<^verbatim>\<open>decodeSLEB128\<close>, documented to throw beyond the
  signed 32-bit range, accepts the five-byte encoding of \<open>2 ^ 32\<close> and returns 0.\<close>

theorem sleb128_accepts_out_of_range:
  "decodeSLEB128 [0x80, 0x80, 0x80, 0x80, 0x10] 0 = Inr (0, 5) \<and>
   decodeULEB128 [0x80, 0x80, 0x80, 0x80, 0x10] 0 = Inl ExceedsRange"
  by (simp add: decodeSLEB128_def decodeULEB128_def sleb_decode.simps uleb_decode.simps)

end
