(* ===== verification/TwosComplement.thy ===== *)
theory TwosComplement
  imports Leb128
begin

unbundle bit_operations_syntax

text \<open>
  Minimal two's-complement big-endian byte strings of big integers (\<^verbatim>\<open>base/bytes/src/bigint.ts\<close> and
  the two implementations behind it, \<^verbatim>\<open>bigint-uint8-direct.ts\<close> and \<^verbatim>\<open>bigint-uint8-hex-string.ts\<close>).
  \<open>mtc\<close> is the reference encoder and \<open>tc_value\<close> the reference reading of a byte string; the
  sections after the definitions show that both implementations compute them.
\<close>

datatype bigint_error = EmptyInput | InvalidHex | NotMinimal | InvalidBase64

section \<open>The reference\<close>

fun be_bytes :: "nat \<Rightarrow> int \<Rightarrow> bytes" where
  "be_bytes 0 v = []"
| "be_bytes (Suc n) v = be_bytes n (v div 256) @ [word_of_int v]"

function mtc :: "int \<Rightarrow> bytes" where
  "mtc v = (if - 128 \<le> v \<and> v < 128 then [word_of_int v] else mtc (v div 256) @ [word_of_int v])"
  by pat_completeness auto
termination
  by (relation "measure (\<lambda>v. nat \<bar>v\<bar>)") auto

declare mtc.simps [simp del]

definition uval :: "bytes \<Rightarrow> int" where
  "uval bs = foldl (\<lambda>a b. a * 256 + uint b) 0 bs"

definition tc_value :: "bytes \<Rightarrow> int" where
  "tc_value bs = uval bs - (if bs \<noteq> [] \<and> bit (hd bs) 7 then 256 ^ length bs else 0)"

section \<open>Shared helpers\<close>

definition nibbleValueAt :: "string \<Rightarrow> nat \<Rightarrow> int" where
  "nibbleValueAt hex at = (let c = of_char (hex ! at) in if c < 0x3a then c - 0x30 else c - 0x57)"

definition byteValueAt :: "string \<Rightarrow> nat \<Rightarrow> int" where
  "byteValueAt hex at = push_bit 4 (nibbleValueAt hex at) OR nibbleValueAt hex (at + 1)"

text \<open>\<^verbatim>\<open>BigInt.prototype.toString(16)\<close> of a non-negative integer.\<close>

definition hex_digit :: "nat \<Rightarrow> char" where
  "hex_digit n = char_of (if n < 10 then 0x30 + n else 0x57 + n)"

fun hex_digits :: "nat \<Rightarrow> string" where
  "hex_digits n = (if n < 16 then [hex_digit n] else hex_digits (n div 16) @ [hex_digit (n mod 16)])"

declare hex_digits.simps [simp del]

definition hexStringFromPositiveValue :: "nat \<Rightarrow> string" where
  "hexStringFromPositiveValue value =
     (let hex = hex_digits value in
      if odd (length hex) then CHR ''0'' # hex
      else if nibbleValueAt hex 0 \<ge> 8 then ''00'' @ hex
      else hex)"

text \<open>\<^verbatim>\<open>slice(i)\<close> of a byte array, a negative start counting from the end.\<close>

definition slice_from :: "int \<Rightarrow> bytes \<Rightarrow> bytes" where
  "slice_from i bs = (if i < 0 then drop (nat (int (length bs) + i)) bs else drop (nat i) bs)"

text \<open>The loop of \<^verbatim>\<open>encode5To8Bytes\<close>. Past the end of the buffer the byte read is \<^verbatim>\<open>undefined\<close>,
  which differs from the skip byte and is 0 under a bitwise operator.\<close>

function skip_loop :: "bytes \<Rightarrow> byte \<Rightarrow> byte \<Rightarrow> nat \<Rightarrow> bytes" where
  "skip_loop dv64Bytes skipByte signBit i =
     (if i < length dv64Bytes then
        (let byte = dv64Bytes ! i in
         if byte \<noteq> skipByte then
           (if byte AND 0x80 = signBit then slice_from (int i) dv64Bytes
            else slice_from (int i - 1) dv64Bytes)
         else skip_loop dv64Bytes skipByte signBit (Suc i))
      else if 0 = signBit then slice_from (int i) dv64Bytes
      else slice_from (int i - 1) dv64Bytes)"
  by pat_completeness auto
termination
  by (relation "measure (\<lambda>(bs, _, _, i). length bs - i)") auto

declare skip_loop.simps [simp del]

definition encode5To8Bytes :: "int \<Rightarrow> bool \<Rightarrow> bytes" where
  "encode5To8Bytes value negative =
     (let skipByte = (if negative then 0xff else 0x00); signBit = skipByte AND 0x80
      in skip_loop (be_bytes 8 value) skipByte signBit 0)"

section \<open>The direct implementation\<close>

text \<open>\<^verbatim>\<open>result[i] = num >> k\<close>: an arithmetic shift of a 32-bit integer, its low byte stored.\<close>

definition put :: "u32 \<Rightarrow> nat \<Rightarrow> byte" where
  "put num k = ucast (signed_drop_bit k num)"

definition bigintToMtcDirect :: "int \<Rightarrow> bytes" where
  "bigintToMtcDirect value =
     (if value \<ge> 0 then
        if value \<le> 0x7fffffff then
          let num = word_of_int value in
          if value \<le> 0x7fff then
            if value \<le> 0x7f then [put num 0]
            else [put num 8, put num 0]
          else
            if value \<le> 0x7fffff then [put num 16, put num 8, put num 0]
            else [put num 24, put num 16, put num 8, put num 0]
        else if value \<le> 0x7fffffffffffffff then encode5To8Bytes value False
        else
          let hex = hexStringFromPositiveValue (nat value) in
          map (\<lambda>i. word_of_int (byteValueAt hex (i * 2))) [0..<length hex div 2]
      else
        if value \<ge> - 0x80000000 then
          let num = word_of_int value in
          if value \<ge> - 0x8000 then
            if value \<ge> - 0x80 then [put num 0]
            else [put num 8, put num 0]
          else
            if value \<ge> - 0x800000 then [put num 16, put num 8, put num 0]
            else [put num 24, put num 16, put num 8, put num 0]
        else if value \<ge> - 0x8000000000000000 then encode5To8Bytes value True
        else
          let hex = hexStringFromPositiveValue (nat (NOT value)) in
          map (\<lambda>i. word_of_int (0xff XOR byteValueAt hex (i * 2))) [0..<length hex div 2])"

text \<open>\<^verbatim>\<open>(b0 << 24) | (b1 << 16) | (b2 << 8) | b3\<close> on 32-bit integers.\<close>

definition quad :: "byte \<Rightarrow> byte \<Rightarrow> byte \<Rightarrow> byte \<Rightarrow> u32" where
  "quad b0 b1 b2 b3 =
     push_bit 24 (ucast b0) OR push_bit 16 (ucast b1) OR push_bit 8 (ucast b2) OR ucast b3"

definition quad_at :: "bytes \<Rightarrow> nat \<Rightarrow> u32" where
  "quad_at bytes i = quad (bytes ! i) (bytes ! (i + 1)) (bytes ! (i + 2)) (bytes ! (i + 3))"

definition low32 :: "u32 \<Rightarrow> int" where
  "low32 w = sint w AND 0xffffffff"

function direct_loop :: "(u32 \<Rightarrow> u32) \<Rightarrow> bytes \<Rightarrow> int \<Rightarrow> nat \<Rightarrow> int" where
  "direct_loop f bytes result i =
     (if i < length bytes then
        (let subResult1 = low32 (f (quad_at bytes i));
             subResult2 = low32 (f (quad_at bytes (i + 4)))
         in direct_loop f bytes
              (push_bit 64 result OR push_bit 32 subResult1 OR subResult2) (i + 8))
      else result)"
  by pat_completeness auto
termination
  by (relation "measure (\<lambda>(_, bs, _, i). length bs - i)") auto

declare direct_loop.simps [simp del]

definition bigintFromMtcSlow :: "bytes \<Rightarrow> int" where
  "bigintFromMtcSlow bytes =
     (let negative = (bytes ! 0) AND 0x80 \<noteq> 0;
          partials = length bytes mod 8;
          result =
            (if partials = 0 then if negative then - 1 else 0
             else if partials \<le> 4 then
               drop_bit (32 - partials * 8) (sint (quad_at bytes 0))
             else
               drop_bit (64 - partials * 8)
                 (push_bit 32 (sint (quad_at bytes 0)) OR low32 (quad_at bytes 4)))
      in if \<not> negative \<or> length bytes \<le> 128
         then direct_loop id bytes result partials
         else NOT (direct_loop NOT bytes (NOT result) partials))"

definition bigintFromMtcDirect :: "bytes \<Rightarrow> bigint_error + int" where
  "bigintFromMtcDirect bytes =
     (case bytes of
        [] \<Rightarrow> Inl EmptyInput
      | [b0] \<Rightarrow> Inr (sint (signed_drop_bit 24 (push_bit 24 (ucast b0) :: u32)))
      | [b0, b1] \<Rightarrow> Inr (sint (signed_drop_bit 16 (push_bit 24 (ucast b0) OR push_bit 16 (ucast b1) :: u32)))
      | [b0, b1, b2] \<Rightarrow>
          Inr (sint (signed_drop_bit 8
            (push_bit 24 (ucast b0) OR push_bit 16 (ucast b1) OR push_bit 8 (ucast b2) :: u32)))
      | [b0, b1, b2, b3] \<Rightarrow> Inr (sint (quad b0 b1 b2 b3))
      | [b0, b1, b2, b3, b4] \<Rightarrow> Inr (push_bit 8 (sint (quad b0 b1 b2 b3)) OR uint b4)
      | [b0, b1, b2, b3, b4, b5] \<Rightarrow>
          Inr (push_bit 16 (sint (quad b0 b1 b2 b3)) OR
            sint (push_bit 8 (ucast b4) OR ucast b5 :: u32))
      | [b0, b1, b2, b3, b4, b5, b6] \<Rightarrow>
          Inr (push_bit 24 (sint (quad b0 b1 b2 b3)) OR
            sint (push_bit 16 (ucast b4) OR push_bit 8 (ucast b5) OR ucast b6 :: u32))
      | [b0, b1, b2, b3, b4, b5, b6, b7] \<Rightarrow>
          Inr (push_bit 32 (sint (quad b0 b1 b2 b3)) OR low32 (quad b4 b5 b6 b7))
      | _ \<Rightarrow> Inr (bigintFromMtcSlow bytes))"

section \<open>The hex-string implementation\<close>

text \<open>\<^verbatim>\<open>Uint8Array.fromHex\<close> (lower-case digits) and \<^verbatim>\<open>toHex\<close>.\<close>

definition hex_value :: "char \<Rightarrow> nat option" where
  "hex_value c =
     (let n = (of_char c :: nat)
      in if 0x30 \<le> n \<and> n \<le> 0x39 then Some (n - 0x30)
         else if 0x61 \<le> n \<and> n \<le> 0x66 then Some (n - 0x57) else None)"

fun fromHex :: "string \<Rightarrow> bigint_error + bytes" where
  "fromHex [] = Inr []"
| "fromHex [_] = Inl InvalidHex"
| "fromHex (a # b # cs) =
     (case (hex_value a, hex_value b) of
        (Some x, Some y) \<Rightarrow> bindR (fromHex cs) (\<lambda>bs. Inr (of_nat (16 * x + y) # bs))
      | _ \<Rightarrow> Inl InvalidHex)"

definition toHex :: "bytes \<Rightarrow> string" where
  "toHex bs = concat (map (\<lambda>b. [hex_digit (unat b div 16), hex_digit (unat b mod 16)]) bs)"

text \<open>\<^verbatim>\<open>BigInt("0x" + hex)\<close> for a string of hex digits.\<close>

definition bigint_of_hex :: "string \<Rightarrow> int" where
  "bigint_of_hex hex = foldl (\<lambda>a c. a * 16 + (case hex_value c of None \<Rightarrow> 0 | Some n \<Rightarrow> int n)) 0 hex"

text \<open>Complementing a byte array through a \<^verbatim>\<open>Uint32Array\<close> on its first \<open>n\<close> groups of four bytes
  (a little-endian view), the bytes after them untouched.\<close>

fun complement_quads :: "nat \<Rightarrow> bytes \<Rightarrow> bytes" where
  "complement_quads (Suc n) (b0 # b1 # b2 # b3 # bs) =
     (let w = NOT (quad b3 b2 b1 b0)
      in ucast w # ucast (drop_bit 8 w) # ucast (drop_bit 16 w) # ucast (drop_bit 24 w)
         # complement_quads n bs)"
| "complement_quads _ bs = bs"

definition complement_bytes :: "bytes \<Rightarrow> bytes" where
  "complement_bytes result =
     (let resultLength = length result in
      if resultLength < 128 then map NOT result
      else
        let byteRemainder = resultLength mod 4;
            result' = complement_quads (resultLength div 4) result;
            split = resultLength - byteRemainder
        in take split result' @ map NOT (drop split result'))"

definition bigintToMtcHex :: "int \<Rightarrow> bigint_error + bytes" where
  "bigintToMtcHex value =
     (if value \<ge> 0 then
        if value \<le> 0x7fffffff then
          let num = word_of_int value in
          if value \<le> 0x7fff then
            if value \<le> 0x7f then Inr [put num 0]
            else Inr [put num 8, put num 0]
          else
            if value \<le> 0x7fffff then Inr [put num 16, put num 8, put num 0]
            else Inr [put num 24, put num 16, put num 8, put num 0]
        else if value \<le> 0x7fffffffffffffff then Inr (encode5To8Bytes value False)
        else fromHex (hexStringFromPositiveValue (nat value))
      else
        if value \<ge> - 0x80000000 then
          let num = word_of_int value in
          if value \<ge> - 0x8000 then
            if value \<ge> - 0x80 then Inr [put num 0]
            else Inr [put num 8, put num 0]
          else
            if value \<ge> - 0x800000 then Inr [put num 16, put num 8, put num 0]
            else Inr [put num 24, put num 16, put num 8, put num 0]
        else if value \<ge> - 0x8000000000000000 then Inr (encode5To8Bytes value True)
        else
          bindR (fromHex (hexStringFromPositiveValue (nat (NOT value))))
            (\<lambda>result. Inr (complement_bytes result)))"

definition bigintFromMtcHex :: "bytes \<Rightarrow> bigint_error + int" where
  "bigintFromMtcHex bytes =
     (if length bytes \<le> 32 then bigintFromMtcDirect bytes
      else
        let positiveResult = bigint_of_hex (toHex bytes) in
        if bytes ! 0 \<le> 0x7f then Inr positiveResult
        else Inr (positiveResult OR push_bit (length bytes * 8) (- 1)))"

section \<open>The exported functions\<close>

text \<open>\<open>useHex\<close> is \<^verbatim>\<open>useUint8ArrayToFromHex\<close>: whether the host has \<^verbatim>\<open>Uint8Array.fromHex\<close>.\<close>

definition bigintToMinimalTwosComplement :: "bool \<Rightarrow> int \<Rightarrow> bigint_error + bytes" where
  "bigintToMinimalTwosComplement useHex value =
     (if useHex then bigintToMtcHex value else Inr (bigintToMtcDirect value))"

definition bigintFromMinimalTwosComplement :: "bool \<Rightarrow> bytes \<Rightarrow> bigint_error + int" where
  "bigintFromMinimalTwosComplement useHex bytes =
     (if useHex then bigintFromMtcHex bytes else bigintFromMtcDirect bytes)"

section \<open>Byte strings as integers\<close>

text \<open>\<open>fits n v\<close>: the integer \<open>v\<close> has an \<open>n\<close>-byte two's-complement form.\<close>

definition fits :: "nat \<Rightarrow> int \<Rightarrow> bool" where
  "fits n v \<longleftrightarrow> - (256 ^ n) \<le> 2 * v \<and> 2 * v < 256 ^ n"

lemma uval_simps [simp]:
  "uval [] = 0"
  "uval (bs @ [b]) = uval bs * 256 + uint b"
  by (simp_all add: uval_def)

lemma uval_append: "uval (as @ bs) = uval as * 256 ^ length bs + uval bs"
proof (induction bs rule: rev_induct)
  case (snoc b bs)
  show ?case
    using snoc by (simp add: append_assoc [symmetric] algebra_simps del: append_assoc)
qed simp

lemma uval_Cons: "uval (b # bs) = uint b * 256 ^ length bs + uval bs"
  using uval_append [of "[b]" bs] uval_simps(2) [of "[]" b] by simp

lemma uint_byte: "0 \<le> uint (b :: byte)" "uint (b :: byte) < 256"
  using uint_lt2p [of b] by simp_all

lemma uval_bounds: "0 \<le> uval bs \<and> uval bs < 256 ^ length bs"
proof (induction bs rule: rev_induct)
  case (snoc b bs)
  then show ?case using uint_byte [of b] by simp
qed simp

lemma length_be_bytes [simp]: "length (be_bytes n v) = n"
  by (induction n arbitrary: v) auto

lemma uval_be_bytes: "uval (be_bytes n v) = v mod 256 ^ n"
proof (induction n arbitrary: v)
  case (Suc n)
  have "uint (word_of_int v :: byte) = v mod 256"
    by (simp add: uint_word_of_int)
  then show ?case
    using Suc by (simp add: zmod_zmult2_eq)
qed simp

lemma digit_256:
  assumes "x * 256 + a = y * 256 + b" "0 \<le> a" "a < 256" "0 \<le> b" "b < 256"
  shows "a = b \<and> x = (y :: int)"
proof -
  have "x \<le> y" "y \<le> x" using assms by linarith+
  then have "x = y" by (rule antisym)
  then show ?thesis using assms(1) by simp
qed

lemma le_div_256: "a \<le> b div 256 \<longleftrightarrow> a * 256 \<le> (b :: int)" "b div 256 < a \<longleftrightarrow> b < a * 256"
proof -
  have "b = b div 256 * 256 + b mod 256" "0 \<le> b mod 256" "b mod 256 < 256" by simp_all
  then show "a \<le> b div 256 \<longleftrightarrow> a * 256 \<le> b" "b div 256 < a \<longleftrightarrow> b < a * 256" by linarith+
qed

lemma uval_inj: "length as = length bs \<Longrightarrow> uval as = uval bs \<Longrightarrow> as = bs"
proof (induction as arbitrary: bs rule: rev_induct)
  case (snoc a as)
  then obtain b cs where bs: "bs = cs @ [b]" by (cases bs rule: rev_cases) auto
  have eq: "uval as * 256 + uint a = uval cs * 256 + uint b" using snoc bs by simp
  then have "uint a = uint b" "uval as = uval cs"
    using digit_256 uint_byte [of a] uint_byte [of b] by blast+
  then show ?case using snoc bs by (simp add: word_uint_eq_iff)
qed simp

lemma be_bytes_eqI: "uval bs = v mod 256 ^ length bs \<Longrightarrow> be_bytes (length bs) v = bs"
  by (rule uval_inj) (simp_all add: uval_be_bytes)

lemma bit7_uint: "bit (b :: byte) 7 \<longleftrightarrow> 128 \<le> uint b"
proof -
  have "bit b 7 \<longleftrightarrow> bit (uint b) 7" by (simp add: bit_uint_iff)
  also have "\<dots> \<longleftrightarrow> odd (uint b div 128)" by (simp add: bit_iff_odd)
  finally have "bit b 7 \<longleftrightarrow> odd (uint b div 128)" .
  moreover have "uint b div 128 = (if 128 \<le> uint b then 1 else 0)" using uint_byte [of b] by auto
  ultimately show ?thesis by simp
qed

lemma hd_sign:
  assumes "bs \<noteq> []"
  shows "bit (hd bs) 7 \<longleftrightarrow> 256 ^ length bs \<le> 2 * uval bs"
proof -
  obtain b cs where bs: "bs = b # cs" using assms by (cases bs) auto
  have "128 \<le> uint b \<longleftrightarrow> 256 ^ length bs \<le> 2 * uval bs"
  proof
    assume "128 \<le> uint b"
    then have "128 * 256 ^ length cs \<le> uint b * (256 ^ length cs :: int)" by (intro mult_right_mono) auto
    also have "\<dots> \<le> uval bs" using uval_bounds [of cs] by (simp add: bs uval_Cons)
    finally show "256 ^ length bs \<le> 2 * uval bs" by (simp add: bs)
  next
    assume h: "256 ^ length bs \<le> 2 * uval bs"
    show "128 \<le> uint b"
    proof (rule ccontr)
      assume "\<not> 128 \<le> uint b"
      then have "uint b \<le> 127" by simp
      then have "uint b * 256 ^ length cs \<le> 127 * (256 ^ length cs :: int)" by (intro mult_right_mono) auto
      then have "uval bs < 128 * 256 ^ length cs"
        using uval_bounds [of cs] unfolding bs uval_Cons by linarith
      then show False using h by (simp add: bs)
    qed
  qed
  then show ?thesis by (simp add: bs bit7_uint)
qed

lemma tc_value_alt:
  "bs \<noteq> [] \<Longrightarrow> tc_value bs = (if 256 ^ length bs \<le> 2 * uval bs then uval bs - 256 ^ length bs else uval bs)"
  by (simp add: tc_value_def hd_sign)

lemma fits_tc_value: "bs \<noteq> [] \<Longrightarrow> fits (length bs) (tc_value bs)"
  using uval_bounds [of bs] by (auto simp: tc_value_alt fits_def)

lemma be_bytes_tc_value: "bs \<noteq> [] \<Longrightarrow> be_bytes (length bs) (tc_value bs) = bs"
  using uval_bounds [of bs] by (intro be_bytes_eqI) (auto simp: tc_value_alt)

lemma tc_value_eqI:
  assumes "bs \<noteq> []" "fits (length bs) v" "uval bs = v mod 256 ^ length bs"
  shows "tc_value bs = v"
proof -
  let ?m = "256 ^ length bs :: int"
  have "v mod ?m = (if 0 \<le> v then v else v + ?m)"
    using assms(2) mod_pos_pos_trivial [of v ?m] mod_pos_pos_trivial [of "v + ?m" ?m]
    by (auto simp: fits_def)
  then show ?thesis using assms by (auto simp: tc_value_alt fits_def)
qed

lemma tc_value_be_bytes: "1 \<le> n \<Longrightarrow> fits n v \<Longrightarrow> tc_value (be_bytes n v) = v"
  by (rule tc_value_eqI) (auto simp: uval_be_bytes simp flip: length_0_conv)

lemma fits_1: "fits (Suc 0) v \<longleftrightarrow> - 128 \<le> v \<and> v < 128"
  by (auto simp: fits_def)

lemma fits_Suc: "1 \<le> n \<Longrightarrow> fits (Suc n) v \<longleftrightarrow> fits n (v div 256)"
proof -
  assume "1 \<le> n"
  then have "even ((256 :: int) ^ n)" by simp
  then obtain m where m: "(256 :: int) ^ n = 2 * m" by (elim evenE)
  show ?thesis
    using le_div_256(1) [of "- m" v] le_div_256(2) [of v m] by (auto simp: fits_def m)
qed

lemma mtc_eqI:
  assumes "1 \<le> n" "fits n v" "n = 1 \<or> \<not> fits (n - 1) v"
  shows "mtc v = be_bytes n v"
  using assms
proof (induction n arbitrary: v)
  case (Suc n)
  show ?case
  proof (cases "n = 0")
    case True
    then show ?thesis using Suc.prems by (simp add: fits_1 mtc.simps [of v])
  next
    case False
    have "\<not> (- 128 \<le> v \<and> v < 128)"
    proof
      assume "- 128 \<le> v \<and> v < 128"
      moreover have "(256 :: int) \<le> 256 ^ n" using False power_increasing [of 1 n "256 :: int"] by simp
      ultimately show False using Suc.prems False by (auto simp: fits_def)
    qed
    moreover have "n = 1 \<or> \<not> fits (n - 1) (v div 256)"
      using Suc.prems False fits_Suc [of "n - 1" v] by (cases "n = 1") auto
    then have "mtc (v div 256) = be_bytes n (v div 256)"
      using Suc.IH [of "v div 256"] Suc.prems False fits_Suc [of n v] by simp
    ultimately show ?thesis by (subst mtc.simps) auto
  qed
qed simp

lemma mtc_properties: "\<exists>n\<ge>1. mtc v = be_bytes n v \<and> fits n v \<and> (n = 1 \<or> \<not> fits (n - 1) v)"
proof (induction v rule: mtc.induct)
  case (1 v)
  show ?case
  proof (cases "- 128 \<le> v \<and> v < 128")
    case True
    then show ?thesis by (intro exI [of _ 1]) (simp add: mtc.simps [of v] fits_1)
  next
    case False
    then obtain n where n: "1 \<le> n" "mtc (v div 256) = be_bytes n (v div 256)" "fits n (v div 256)"
      "n = 1 \<or> \<not> fits (n - 1) (v div 256)"
      using 1 by blast
    then have "mtc v = be_bytes (Suc n) v" using False by (subst mtc.simps) auto
    moreover have "\<not> fits n v"
      using n False fits_Suc [of "n - 1" v] by (cases "n = 1") (auto simp: fits_1)
    ultimately show ?thesis using n by (intro exI [of _ "Suc n"]) (simp add: fits_Suc)
  qed
qed

lemma fits_mono: "fits m v \<Longrightarrow> m \<le> n \<Longrightarrow> fits n v"
proof -
  assume "fits m v" "m \<le> n"
  then have "(256 :: int) ^ m \<le> 256 ^ n" by (intro power_increasing) auto
  then show "fits n v" using \<open>fits m v\<close> unfolding fits_def by linarith
qed

lemma mtc_shortest:
  assumes "bs \<noteq> []"
  shows "length (mtc (tc_value bs)) \<le> length bs"
proof -
  from mtc_properties [of "tc_value bs"] obtain n
    where n: "mtc (tc_value bs) = be_bytes n (tc_value bs)" "n = 1 \<or> \<not> fits (n - 1) (tc_value bs)"
    by (elim exE conjE)
  have "0 < length bs" using assms by simp
  moreover have "\<not> length bs \<le> n - 1" if "n \<noteq> 1"
    using fits_mono [OF fits_tc_value [OF assms], of "n - 1"] n(2) that by auto
  ultimately have "n \<le> length bs" by (cases "n = 1") linarith+
  then show ?thesis by (simp add: n(1))
qed

lemma tc_value_mtc: "tc_value (mtc v) = v"
proof -
  obtain n where "1 \<le> n" "mtc v = be_bytes n v" "fits n v" using mtc_properties [of v] by blast
  then show ?thesis by (simp only: tc_value_be_bytes)
qed

lemma mtc_inj: "mtc v = mtc w \<Longrightarrow> v = w"
  by (metis tc_value_mtc)

section \<open>The encoders compute the reference\<close>

lemma ucast_byte_sint: "(ucast (w :: u32) :: byte) = word_of_int (sint w)"
  by (rule bit_word_eqI) (simp add: bit_simps bit_sint_iff)

lemma put_of_int:
  assumes "- (2 ^ 31) \<le> v" "v < 2 ^ 31"
  shows "put (word_of_int v) k = word_of_int (v div 2 ^ k)"
proof -
  have "sint (word_of_int v :: u32) = v"
    using assms by (simp add: signed_of_int signed_take_bit_int_eq_self)
  then show ?thesis
    by (simp add: put_def ucast_byte_sint sint_signed_drop_bit_eq drop_bit_eq_div)
qed

lemma put_bytes:
  assumes "fits 4 v"
  shows "[put (word_of_int v) 0] = be_bytes 1 v"
    "[put (word_of_int v) 8, put (word_of_int v) 0] = be_bytes 2 v"
    "[put (word_of_int v) 16, put (word_of_int v) 8, put (word_of_int v) 0] = be_bytes 3 v"
    "[put (word_of_int v) 24, put (word_of_int v) 16, put (word_of_int v) 8, put (word_of_int v) 0]
      = be_bytes 4 v"
  using assms by (simp_all add: fits_def put_of_int eval_nat_numeral zdiv_zmult2_eq [symmetric])

lemma drop_be_bytes: "k \<le> n \<Longrightarrow> drop k (be_bytes n v) = be_bytes (n - k) v"
  by (induction n arbitrary: v k) (auto simp: Suc_diff_le le_Suc_eq)

lemma skip_loop_at:
  assumes "bs = replicate i skip @ b # rest" "b \<noteq> skip" "j \<le> i"
  shows "skip_loop bs skip sign j = (if b AND 0x80 = sign then drop i bs else slice_from (int i - 1) bs)"
  using assms
proof (induction "i - j" arbitrary: j)
  case 0
  then have "j = i" by simp
  then show ?case
    using 0 by (subst skip_loop.simps) (auto simp: nth_append slice_from_def Let_def)
next
  case (Suc n)
  then have "skip_loop bs skip sign (Suc j) = (if b AND 0x80 = sign then drop i bs else slice_from (int i - 1) bs)"
    by simp
  moreover have "j < length bs" "bs ! j = skip" using Suc by (auto simp: nth_append)
  ultimately show ?case by (subst skip_loop.simps) simp
qed

lemma first_non_skip:
  "\<exists>b\<in>set bs. b \<noteq> skip \<Longrightarrow> \<exists>i b rest. bs = replicate i skip @ b # rest \<and> b \<noteq> skip"
proof (induction bs)
  case (Cons a bs)
  show ?case
  proof (cases "a = skip")
    case True
    then obtain i b rest where "bs = replicate i skip @ b # rest" "b \<noteq> skip" using Cons by auto
    then show ?thesis using True by (intro exI [of _ "Suc i"] exI [of _ b] exI [of _ rest]) simp
  qed (intro exI [of _ 0], auto)
qed simp

lemma uval_replicate_0: "uval (replicate i 0 @ bs) = uval bs"
  by (induction i) (auto simp: uval_Cons)

lemma uval_replicate_ff: "uval (replicate i 0xff @ bs) = uval bs + (256 ^ i - 1) * 256 ^ length bs"
proof (induction i)
  case (Suc i)
  have "uint (0xff :: byte) = 255" by simp
  then show ?case using Suc by (simp add: uval_Cons power_add algebra_simps del: uint_numeral)
qed simp

lemma bit_80: "bit (0x80 :: byte) n \<longleftrightarrow> n = 7"
proof -
  have eq: "(0x80 :: byte) = push_bit 7 1" by simp
  show ?thesis unfolding eq
    by (subst bit_push_bit_iff, subst bit_1_iff, subst possible_bit_word) auto
qed

lemma and_80: "(b :: byte) AND 0x80 = (if bit b 7 then 0x80 else 0)"
proof (cases "bit b 7")
  case True
  then have "b AND 0x80 = 0x80"
    by (intro bit_word_eqI) (simp only: bit_and_iff bit_80, auto)
  then show ?thesis using True by simp
qed (use and_80_zero in simp)

text \<open>The shortest form of an integer, seen from its first byte that is not a sign extension.\<close>

lemma strip_pos:
  assumes v: "v = uval (b # rest)" and b: "b \<noteq> 0"
  shows "if bit b 7 then fits (Suc (Suc (length rest))) v \<and> \<not> fits (Suc (length rest)) v
    else fits (Suc (length rest)) v \<and> \<not> fits (length rest) v"
proof -
  define P :: int where "P = 256 ^ length rest"
  have "uint b \<noteq> 0" using b by (simp add: word_uint_eq_iff)
  then have "1 \<le> uint b" using uint_byte [of b] by linarith
  then have "1 * P \<le> uint b * P" by (intro mult_right_mono) (auto simp: P_def)
  moreover have "0 \<le> uval rest" "uval (b # rest) = uint b * P + uval rest"
    using uval_bounds [of rest] by (simp_all add: uval_Cons P_def)
  ultimately have "P \<le> v" using v by simp
  moreover have "bit b 7 \<longleftrightarrow> 256 * P \<le> 2 * v" using hd_sign [of "b # rest"] v by (simp add: P_def)
  moreover have "v < 256 * P" "0 < P" using uval_bounds [of "b # rest"] v by (simp_all add: P_def)
  ultimately show ?thesis by (auto simp: fits_def simp flip: P_def)
qed

lemma strip_neg:
  assumes v: "v = uval (b # rest) - 256 * 256 ^ length rest" and b: "b \<noteq> 0xff"
  shows "if bit b 7 then fits (Suc (length rest)) v \<and> \<not> fits (length rest) v
    else fits (Suc (Suc (length rest))) v \<and> \<not> fits (Suc (length rest)) v"
proof -
  define P :: int where "P = 256 ^ length rest"
  have "uint b \<noteq> uint (0xff :: byte)" using b by (simp only: word_uint_eq_iff) simp
  then have "uint b \<le> 254" using uint_byte [of b] by simp
  then have "uint b * P \<le> 254 * P" by (intro mult_right_mono) (auto simp: P_def)
  moreover have "uval rest < P" "uval (b # rest) = uint b * P + uval rest"
    using uval_bounds [of rest] by (simp_all add: uval_Cons P_def)
  ultimately have "v < - P" using v by (simp flip: P_def)
  moreover have "bit b 7 \<longleftrightarrow> - (256 * P) \<le> 2 * v" using hd_sign [of "b # rest"] v by (auto simp: P_def)
  moreover have "- (256 * P) \<le> v" "0 < P" using uval_bounds [of "b # rest"] v by (simp_all add: P_def)
  ultimately show ?thesis by (auto simp: fits_def simp flip: P_def)
qed

text \<open>An eight-byte form, split at its first byte that differs from the sign extension.\<close>

lemma split_skip:
  assumes ne: "bs \<noteq> []" and t: "t = tc_value bs" "t \<noteq> 0" "t \<noteq> - 1"
    and skip: "skip = (if t < 0 then 0xff else 0 :: byte)"
  obtains i b rest where "bs = replicate i skip @ b # rest" "b \<noteq> skip"
    "t = uval (b # rest) - (if t < 0 then 256 * 256 ^ length rest else 0)"
proof -
  have u: "uval bs = (if t < 0 then t + 256 ^ length bs else t)"
    using ne t(1) uval_bounds [of bs] by (auto simp: tc_value_alt)
  have rep: "uval (replicate n skip @ cs) = uval cs + (if t < 0 then 256 ^ n * 256 ^ length cs - 256 ^ length cs else 0)" for n cs
    unfolding skip by (cases "t < 0") (simp_all add: uval_replicate_0 uval_replicate_ff left_diff_distrib)
  have "\<exists>b\<in>set bs. b \<noteq> skip"
  proof (rule ccontr)
    assume "\<not> ?thesis"
    then have r: "replicate (length bs) skip = bs" by (intro replicate_eqI [symmetric]) auto
    have "uval bs = (if t < 0 then 256 ^ length bs - 1 else 0)"
      using rep [of "length bs" "[]"] by (simp add: r)
    then show False using u t(2,3) by (cases "t < 0") simp_all
  qed
  from first_non_skip [OF this] obtain i b rest
    where bs: "bs = replicate i skip @ b # rest" and b: "b \<noteq> skip" by (elim exE conjE)
  have "256 ^ length bs = 256 ^ i * (256 * 256 ^ length rest :: int)"
    by (simp add: bs power_add)
  then have "t = uval (b # rest) - (if t < 0 then 256 * 256 ^ length rest else 0)"
    using u rep [of i "b # rest", folded bs] by (cases "t < 0") simp_all
  then show thesis by (rule that [OF bs b])
qed

lemma encode5To8Bytes_mtc:
  assumes "fits 8 v" "\<not> fits 4 v" "negative \<longleftrightarrow> v < 0"
  shows "encode5To8Bytes v negative = mtc v"
proof -
  define bs where "bs = be_bytes 8 v"
  define skip :: byte where "skip = (if v < 0 then 0xff else 0)"
  have len8: "length bs = 8" by (simp add: bs_def)
  have v: "tc_value bs = v" using assms(1) by (simp add: bs_def tc_value_be_bytes)
  have "v \<noteq> 0" "v \<noteq> - 1" using assms(2) by (auto simp: fits_def)
  moreover have "bs \<noteq> []" using len8 by auto
  ultimately obtain i b rest where bs: "bs = replicate i skip @ b # rest" and b: "b \<noteq> skip"
    and tv: "v = uval (b # rest) - (if v < 0 then 256 * 256 ^ length rest else 0)"
    using split_skip [of bs v skip] unfolding v skip_def by blast
  have i: "i \<le> 7" and len: "length rest = 7 - i"
    using len8 arg_cong [OF bs, of length] by simp_all
  have n: "Suc (7 - i) = 8 - i" "Suc (8 - i) = 9 - i" using i by simp_all
  have strip: "if bit b 7 = negative then fits (8 - i) v \<and> \<not> fits (7 - i) v else fits (9 - i) v \<and> \<not> fits (8 - i) v"
  proof (cases negative)
    case True
    then show ?thesis using strip_neg [of v b rest] tv b assms(3) unfolding len n skip_def by auto
  next
    case False
    then show ?thesis using strip_pos [of v b rest] tv b assms(3) unfolding len n skip_def by auto
  qed
  have loop: "encode5To8Bytes v negative =
      (if bit b 7 = negative then drop i bs else slice_from (int i - 1) bs)"
    using skip_loop_at [OF bs b, of 0 "skip AND 0x80"] assms(3)
    by (cases "v < 0") (simp_all add: encode5To8Bytes_def skip_def and_80 flip: bs_def)
  show ?thesis
  proof (cases "bit b 7 = negative")
    case True
    then have "mtc v = be_bytes (8 - i) v" using strip i by (intro mtc_eqI) auto
    then show ?thesis using loop True i by (simp add: drop_be_bytes bs_def)
  next
    case False
    then have "i \<noteq> 0" using strip assms(1) by (cases i) auto
    then obtain k where k: "i = Suc k" by (cases i) auto
    have "mtc v = be_bytes (9 - i) v"
      using False strip i k by (intro mtc_eqI) (auto simp: Suc_diff_le)
    then show ?thesis
      using loop False i k by (simp add: slice_from_def drop_be_bytes bs_def)
  qed
qed

lemma hex_value_bound: "hex_value c = Some n \<Longrightarrow> n < 16"
  by (auto simp: hex_value_def Let_def split: if_splits)

lemma hex_value_digit: "n < 16 \<Longrightarrow> hex_value (hex_digit n) = Some n"
  by (auto simp: hex_value_def hex_digit_def)

lemma nibble_hex_value:
  assumes "hex_value (s ! i) = Some n"
  shows "nibbleValueAt s i = int n"
proof -
  have "(of_char (s ! i) :: int) = int (of_char (s ! i))" by (simp add: of_nat_of_char)
  then show ?thesis using assms
    by (auto simp: nibbleValueAt_def hex_value_def Let_def of_nat_diff split: if_splits)
qed

lemma byteValueAt_hex:
  assumes "hex_value (s ! i) = Some x" "hex_value (s ! Suc i) = Some y"
  shows "byteValueAt s i = int (16 * x + y)"
proof -
  have "take_bit 4 (int y) = int y"
    using hex_value_bound [OF assms(2)] by (simp add: take_bit_int_eq_self_iff)
  then have "push_bit 4 (int x) OR int y = push_bit 4 (int x) + int y"
    by (intro disjunctive_add [symmetric]) (metis bit_push_bit_iff bit_take_bit_iff not_le)
  then show ?thesis
    by (simp add: byteValueAt_def nibble_hex_value [OF assms(1)] nibble_hex_value [OF assms(2)] push_bit_eq_mult)
qed

lemma bigint_of_hex_append:
  "bigint_of_hex (as @ bs) = bigint_of_hex as * 16 ^ length bs + bigint_of_hex bs"
proof (induction bs rule: rev_induct)
  case (snoc b bs)
  then show ?case
    by (simp add: bigint_of_hex_def append_assoc [symmetric] algebra_simps del: append_assoc)
qed (simp add: bigint_of_hex_def)

lemma bigint_of_hex_single: "hex_value c = Some n \<Longrightarrow> bigint_of_hex [c] = int n"
  by (simp add: bigint_of_hex_def)

lemma bigint_of_hex_Cons:
  "hex_value c = Some n \<Longrightarrow> bigint_of_hex (c # s) = int n * 16 ^ length s + bigint_of_hex s"
  using bigint_of_hex_append [of "[c]" s] by (simp add: bigint_of_hex_single)

definition is_hex :: "string \<Rightarrow> bool" where
  "is_hex s \<longleftrightarrow> (\<forall>c\<in>set s. hex_value c \<noteq> None)"

lemma fromHex_uval:
  "is_hex s \<Longrightarrow> even (length s) \<Longrightarrow>
    \<exists>bs. fromHex s = Inr bs \<and> length bs = length s div 2 \<and> uval bs = bigint_of_hex s \<and>
      bs = map (\<lambda>i. word_of_int (byteValueAt s (i * 2))) [0..<length s div 2]"
proof (induction s rule: fromHex.induct)
  case (3 a b cs)
  obtain x y where xy: "hex_value a = Some x" "hex_value b = Some y"
    using 3(2) by (auto simp: is_hex_def)
  obtain bs where bs: "fromHex cs = Inr bs" "length bs = length cs div 2" "uval bs = bigint_of_hex cs"
    "bs = map (\<lambda>i. word_of_int (byteValueAt cs (i * 2))) [0..<length cs div 2]"
    using 3 xy by (auto simp: is_hex_def)
  have u: "uint (of_nat (16 * x + y) :: byte) = int (16 * x + y)"
    using hex_value_bound [OF xy(1)] hex_value_bound [OF xy(2)]
    by (simp only: uint_nat unat_of_nat) simp
  have e: "(256 :: int) ^ (length cs div 2) = 16 ^ length cs"
  proof -
    have "length cs = 2 * (length cs div 2)" using 3(3) by simp
    then have "(16 :: int) ^ length cs = 16 ^ (2 * (length cs div 2))" by simp
    also have "\<dots> = 256 ^ (length cs div 2)" by (subst power_mult) simp
    finally show ?thesis by simp
  qed
  have b0: "byteValueAt (a # b # cs) 0 = int (16 * x + y)"
    using xy by (intro byteValueAt_hex) simp_all
  have shift: "byteValueAt (a # b # cs) (Suc (Suc k)) = byteValueAt cs k" for k
    by (simp add: byteValueAt_def nibbleValueAt_def)
  have "fromHex (a # b # cs) = Inr (of_nat (16 * x + y) # bs)" using xy bs(1) by simp
  moreover have "uval (of_nat (16 * x + y) # bs) = bigint_of_hex (a # b # cs)"
    unfolding uval_Cons u bs(2,3) e bigint_of_hex_Cons [OF xy(1)] bigint_of_hex_Cons [OF xy(2)]
    by (simp add: algebra_simps)
  moreover have "of_nat (16 * x + y) # bs
      = map (\<lambda>i. word_of_int (byteValueAt (a # b # cs) (i * 2))) [0..<length (a # b # cs) div 2]"
    unfolding bs(4) by (simp add: upt_conv_Cons map_Suc_upt [symmetric] comp_def shift b0 del: upt_Suc)
  ultimately show ?case using bs(2) by simp
qed (simp_all add: bigint_of_hex_def)

lemma fromHex_be_bytes:
  assumes "is_hex s" "even (length s)"
  shows "fromHex s = Inr (be_bytes (length s div 2) (bigint_of_hex s))"
    "map (\<lambda>i. word_of_int (byteValueAt s (i * 2))) [0..<length s div 2]
      = be_bytes (length s div 2) (bigint_of_hex s)"
proof -
  from fromHex_uval [OF assms] obtain bs where bs: "fromHex s = Inr bs" "length bs = length s div 2"
      "uval bs = bigint_of_hex s" "map (\<lambda>i. word_of_int (byteValueAt s (i * 2))) [0..<length s div 2] = bs"
    by blast
  have "be_bytes (length bs) (bigint_of_hex s) = bs"
    using uval_bounds [of bs] bs(3) by (intro be_bytes_eqI) simp
  then show "fromHex s = Inr (be_bytes (length s div 2) (bigint_of_hex s))"
    "map (\<lambda>i. word_of_int (byteValueAt s (i * 2))) [0..<length s div 2]
      = be_bytes (length s div 2) (bigint_of_hex s)"
    using bs by simp_all
qed

lemma hex_digits_props:
  "is_hex (hex_digits n) \<and> bigint_of_hex (hex_digits n) = int n \<and> hex_digits n \<noteq> [] \<and>
   n < 16 ^ length (hex_digits n) \<and> (0 < n \<longrightarrow> 16 ^ (length (hex_digits n) - 1) \<le> n)"
proof (induction n rule: hex_digits.induct)
  case (1 n)
  show ?case
  proof (cases "n < 16")
    case True
    then show ?thesis
      by (simp add: hex_digits.simps [of n] is_hex_def hex_value_digit bigint_of_hex_def)
  next
    case False
    let ?s = "hex_digits (n div 16)"
    have ih: "is_hex ?s" "bigint_of_hex ?s = int (n div 16)" "?s \<noteq> []" "n div 16 < 16 ^ length ?s"
      "16 ^ (length ?s - 1) \<le> n div 16"
      using 1 False by auto
    have s: "hex_digits n = ?s @ [hex_digit (n mod 16)]" using False by (subst hex_digits.simps) simp
    have d: "hex_value (hex_digit (n mod 16)) = Some (n mod 16)" by (simp add: hex_value_digit)
    have "(16 :: nat) ^ length ?s = 16 * 16 ^ (length ?s - 1)"
      using ih(3) by (cases "hex_digits (n div 16)") simp_all
    then have "16 ^ length ?s \<le> n" using ih(5) by simp
    moreover have "n < 16 ^ Suc (length ?s)" using ih(4) by simp
    moreover have "bigint_of_hex (hex_digits n) = int n"
      using ih(2) by (simp add: s bigint_of_hex_append bigint_of_hex_single [OF d]) (simp add: zmod_int zdiv_int)
    ultimately show ?thesis using ih(1) d by (auto simp: s is_hex_def)
  qed
qed


lemma length_double: "even (length s) \<Longrightarrow> (16 :: int) ^ length s = 256 ^ (length s div 2)"
proof -
  assume "even (length s)"
  then have "(16 :: int) ^ length s = 16 ^ (2 * (length s div 2))" by simp
  then show ?thesis by (subst (asm) power_mult) simp
qed

lemma bigint_of_hex_bounds: "is_hex s \<Longrightarrow> 0 \<le> bigint_of_hex s \<and> bigint_of_hex s < 16 ^ length s"
proof (induction s)
  case (Cons c s)
  then obtain d where d: "hex_value c = Some d" by (auto simp: is_hex_def)
  have "int d * 16 ^ length s \<le> 15 * 16 ^ length s"
    using hex_value_bound [OF d] by (intro mult_right_mono) auto
  moreover have "0 \<le> bigint_of_hex s" "bigint_of_hex s < 16 ^ length s" using Cons by (simp_all add: is_hex_def)
  ultimately have "int d * 16 ^ length s + bigint_of_hex s < 16 * 16 ^ length s" by linarith
  then show ?case using \<open>0 \<le> bigint_of_hex s\<close> by (simp add: bigint_of_hex_Cons [OF d])
qed (simp add: bigint_of_hex_def)

text \<open>The string handed to the slow paths: an even number of digits, as few bytes as hold the
  value with a clear sign bit.\<close>

definition short_hex :: "nat \<Rightarrow> string \<Rightarrow> bool" where
  "short_hex n s \<longleftrightarrow> is_hex s \<and> bigint_of_hex s = int n \<and>
     (\<exists>k. length s = 2 * Suc k \<and> fits (Suc k) (int n) \<and> \<not> fits k (int n))"

lemma short_hexI:
  assumes "is_hex s" "bigint_of_hex s = int n" "length s = 2 * Suc k"
    "2 * int n < 256 * 256 ^ k" "256 ^ k \<le> 2 * int n"
  shows "short_hex n s"
  unfolding short_hex_def using assms by (auto simp: fits_def intro!: exI [of _ k])

lemma hex_zero: "hex_value (CHR ''0'') = Some 0"
  by (simp add: hex_value_def)

lemma zero_prefix:
  "is_hex s \<Longrightarrow> is_hex (CHR ''0'' # s)"
  "bigint_of_hex (CHR ''0'' # s) = bigint_of_hex s"
  using bigint_of_hex_Cons [OF hex_zero, of s] by (simp_all add: is_hex_def hex_zero)

text \<open>The leading digit \<open>d\<close> of a number and the weight \<open>P\<close> of its place.\<close>

lemma leading_digit:
  assumes "0 < n" "hex_digits n = c # cs"
  obtains P where "P = (16 :: int) ^ length cs" "0 < P" "P \<le> int n" "int n < 16 * P"
    "nibbleValueAt (c # cs) 0 \<ge> 8 \<longleftrightarrow> 8 * P \<le> int n"
proof -
  have hx: "is_hex (c # cs)" "bigint_of_hex (c # cs) = int n" "n < 16 ^ Suc (length cs)" "16 ^ length cs \<le> n"
    using hex_digits_props [of n] assms by auto
  obtain d where d: "hex_value c = Some d" using hx(1) by (auto simp: is_hex_def)
  define P :: int where "P = 16 ^ length cs"
  have n: "int n = int d * P + bigint_of_hex cs" "0 \<le> bigint_of_hex cs" "bigint_of_hex cs < P"
    using hx bigint_of_hex_Cons [OF d, of cs] bigint_of_hex_bounds [of cs]
    by (simp_all add: P_def is_hex_def)
  have bd: "P \<le> int n" "int n < 16 * P"
    using of_nat_less_iff [where 'a = int, THEN iffD2, OF hx(3)] of_nat_le_iff [where 'a = int, THEN iffD2, OF hx(4)]
    by (simp_all only: P_def of_nat_power of_nat_mult of_nat_numeral power_Suc)
  have "0 < P" by (simp add: P_def)
  have "8 \<le> int d \<longleftrightarrow> 8 * P \<le> int n"
  proof
    assume "8 \<le> int d"
    then have "8 * P \<le> int d * P" using \<open>0 < P\<close> by (intro mult_right_mono) auto
    then show "8 * P \<le> int n" using n by linarith
  next
    assume h: "8 * P \<le> int n"
    show "8 \<le> int d"
    proof (rule ccontr)
      assume "\<not> 8 \<le> int d"
      then have "int d * P \<le> 7 * P" using \<open>0 < P\<close> by (intro mult_right_mono) auto
      then show False using n h by linarith
    qed
  qed
  then have "nibbleValueAt (c # cs) 0 \<ge> 8 \<longleftrightarrow> 8 * P \<le> int n"
    using nibble_hex_value [of "c # cs" 0 d] d by simp
  with P_def \<open>0 < P\<close> bd show thesis by (rule that)
qed

lemma hexStringFromPositiveValue_short:
  assumes "0 < n"
  shows "short_hex n (hexStringFromPositiveValue n)"
proof -
  let ?h = "hex_digits n"
  have hx: "is_hex ?h" "bigint_of_hex ?h = int n" using hex_digits_props by blast+
  obtain c cs where h: "?h = c # cs" using hex_digits_props [of n] by (cases "?h") auto
  obtain P where P: "P = (16 :: int) ^ length cs" "0 < P" "P \<le> int n" "int n < 16 * P"
    and nib: "nibbleValueAt ?h 0 \<ge> 8 \<longleftrightarrow> 8 * P \<le> int n"
    unfolding h by (rule leading_digit [OF assms h])
  consider (odd) "odd (length ?h)" | (high) "even (length ?h)" "8 * P \<le> int n" | (low) "even (length ?h)" "int n < 8 * P"
    by linarith
  then show ?thesis
  proof cases
    case odd
    then have "256 ^ (length cs div 2) = P" using length_double [of cs] by (simp add: P(1) h)
    then have "short_hex n (CHR ''0'' # ?h)"
      using hx P(2-4) odd by (intro short_hexI [where k = "length cs div 2"]) (simp_all add: zero_prefix h)
    then show ?thesis using odd by (simp add: hexStringFromPositiveValue_def)
  next
    case high
    then have "256 ^ (length ?h div 2) = 16 * P" using length_double [of ?h] by (simp add: P(1) h)
    then have "short_hex n (CHR ''0'' # CHR ''0'' # ?h)"
      using hx P(2-4) high by (intro short_hexI [where k = "length ?h div 2"]) (simp_all add: zero_prefix)
    then show ?thesis using high nib by (simp add: hexStringFromPositiveValue_def)
  next
    case low
    then obtain m where "length ?h = 2 * m" by (elim evenE)
    then obtain k where k: "length ?h = 2 * Suc k" by (cases m) (simp_all add: h)
    then have "256 * 256 ^ k = 16 * P" using length_double [of ?h] low by (simp add: P(1) h)
    then have "short_hex n ?h"
      using hx P(2-4) low k by (intro short_hexI [where k = k]) simp_all
    then show ?thesis using low nib by (simp add: hexStringFromPositiveValue_def)
  qed
qed

lemma fits_NOT: "fits (Suc n) (NOT v) \<longleftrightarrow> fits (Suc n) v"
proof -
  have "even ((256 :: int) ^ Suc n)" by simp
  then obtain p where "(256 :: int) ^ Suc n = 2 * p" by (elim evenE)
  then show ?thesis unfolding fits_def not_int_def by auto
qed

lemma NOT_div_256: "NOT (v :: int) div 256 = NOT (v div 256)"
proof -
  have "NOT v = 256 * NOT (v div 256) + (255 - v mod 256)" by (simp add: not_int_def algebra_simps)
  moreover have "0 \<le> 255 - v mod 256" "255 - v mod 256 < 256"
    using pos_mod_bound [of 256 v] pos_mod_sign [of 256 v] by linarith+
  ultimately show ?thesis by simp
qed

lemma be_bytes_NOT: "map NOT (be_bytes n v) = be_bytes n (NOT v)"
proof (induction n arbitrary: v)
  case (Suc n)
  then show ?case by (simp add: of_int_not_eq NOT_div_256)
qed simp


lemma short_hex_mtc:
  assumes "short_hex n s"
  shows "be_bytes (length s div 2) (int n) = mtc (int n)"
    "fromHex s = Inr (mtc (int n))"
    "map (\<lambda>i. word_of_int (byteValueAt s (i * 2))) [0..<length s div 2] = mtc (int n)"
proof -
  obtain k where k: "length s = 2 * Suc k" "fits (Suc k) (int n)" "\<not> fits k (int n)"
    and s: "is_hex s" "bigint_of_hex s = int n"
    using assms unfolding short_hex_def by blast
  have "mtc (int n) = be_bytes (Suc k) (int n)"
    using k by (intro mtc_eqI) simp_all
  then show "be_bytes (length s div 2) (int n) = mtc (int n)" using k by simp
  then show "fromHex s = Inr (mtc (int n))"
    "map (\<lambda>i. word_of_int (byteValueAt s (i * 2))) [0..<length s div 2] = mtc (int n)"
    using fromHex_be_bytes [OF s(1)] k(1) s(2) by simp_all
qed

lemma mtc_NOT: "map NOT (mtc v) = mtc (NOT v)"
proof (induction v rule: mtc.induct)
  case (1 v)
  have "- 128 \<le> NOT v \<and> NOT v < 128 \<longleftrightarrow> - 128 \<le> v \<and> v < 128" by (auto simp: not_int_def)
  then show ?case
    using 1 by (cases "- 128 \<le> v \<and> v < 128")
      (auto simp: mtc.simps [of v] mtc.simps [of "NOT v"] NOT_div_256 of_int_not_eq)
qed

lemma mtc_small:
  "- 0x80 \<le> v \<Longrightarrow> v \<le> 0x7f \<Longrightarrow> mtc v = be_bytes 1 v"
  "- 0x8000 \<le> v \<Longrightarrow> v \<le> 0x7fff \<Longrightarrow> \<not> fits 1 v \<Longrightarrow> mtc v = be_bytes 2 v"
  "- 0x800000 \<le> v \<Longrightarrow> v \<le> 0x7fffff \<Longrightarrow> \<not> fits 2 v \<Longrightarrow> mtc v = be_bytes 3 v"
  "- 0x80000000 \<le> v \<Longrightarrow> v \<le> 0x7fffffff \<Longrightarrow> \<not> fits 3 v \<Longrightarrow> mtc v = be_bytes 4 v"
  by (intro mtc_eqI; simp add: fits_def)+

lemma unpack_quad:
  "ucast (NOT (quad b3 b2 b1 b0)) = NOT b0"
  "ucast (drop_bit 8 (NOT (quad b3 b2 b1 b0))) = NOT b1"
  "ucast (drop_bit 16 (NOT (quad b3 b2 b1 b0))) = NOT b2"
  "ucast (drop_bit 24 (NOT (quad b3 b2 b1 b0))) = NOT b3"
  by (rule bit_word_eqI; auto simp: quad_def bit_simps dest: bit_imp_le_length)+

lemma complement_quads_map:
  "4 * n \<le> length bs \<Longrightarrow> complement_quads n bs = map NOT (take (4 * n) bs) @ drop (4 * n) bs"
proof (induction n arbitrary: bs)
  case (Suc n)
  then have "Suc (Suc (Suc (Suc (4 * n)))) \<le> length bs" by simp
  then obtain b0 b1 b2 b3 cs where bs: "bs = b0 # b1 # b2 # b3 # cs" and "4 * n \<le> length cs"
    by (auto simp: Suc_le_length_iff)
  moreover have "4 * Suc n = Suc (Suc (Suc (Suc (4 * n))))" by simp
  ultimately show ?case
    using Suc.IH [of cs] by (simp add: unpack_quad Let_def del: mult_Suc_right)
qed simp

lemma complement_bytes_map: "complement_bytes bs = map NOT bs"
proof -
  have "length bs - length bs mod 4 = 4 * (length bs div 4)" by (simp add: minus_mod_eq_mult_div)
  moreover have "map NOT (take k bs) @ map NOT (drop k bs) = map NOT bs" for k
    by (simp flip: map_append)
  ultimately show ?thesis
    by (simp add: complement_bytes_def complement_quads_map Let_def)
qed

lemma xor_ff: "word_of_int (0xff XOR x) = (NOT (word_of_int x) :: byte)"
proof -
  have "(word_of_int 0xff :: byte) = - 1" by simp
  then show ?thesis by (simp only: of_int_xor_eq) simp
qed

lemma mtc_slow_pos:
  assumes "0 < v" "s = hexStringFromPositiveValue (nat v)"
  shows "fromHex s = Inr (mtc v)" "map (\<lambda>i. word_of_int (byteValueAt s (i * 2))) [0..<length s div 2] = mtc v"
  using assms hexStringFromPositiveValue_short [of "nat v"] short_hex_mtc(2,3) [of "nat v" s] by simp_all

lemma mtc_slow_neg:
  assumes "v < - 1" "s = hexStringFromPositiveValue (nat (NOT v))"
  shows "bindR (fromHex s) (\<lambda>bs. Inr (complement_bytes bs)) = Inr (mtc v)"
    "map (\<lambda>i. word_of_int (0xff XOR byteValueAt s (i * 2))) [0..<length s div 2] = mtc v"
proof -
  have p: "0 < NOT v" using assms(1) by (simp add: not_int_def)
  have c: "map NOT (mtc (NOT v)) = mtc v" using mtc_NOT [of "NOT v"] by simp
  show "bindR (fromHex s) (\<lambda>bs. Inr (complement_bytes bs)) = Inr (mtc v)"
    using mtc_slow_pos(1) [OF p assms(2)] c by (simp add: complement_bytes_map)
  show "map (\<lambda>i. word_of_int (0xff XOR byteValueAt s (i * 2))) [0..<length s div 2] = mtc v"
    using arg_cong [OF mtc_slow_pos(2) [OF p assms(2)], of "map NOT"] c by (simp add: xor_ff comp_def)
qed

lemma bigintToMtcDirect_mtc: "bigintToMtcDirect v = mtc v"
proof -
  consider "fits 4 v" | "fits 8 v" "\<not> fits 4 v" | "\<not> fits 8 v" by blast
  then show ?thesis
  proof cases
    case 1
    note p = put_bytes [OF 1]
    have "- 0x80000000 \<le> v" "v \<le> 0x7fffffff" using 1 by (auto simp: fits_def)
    then show ?thesis
      unfolding bigintToMtcDirect_def Let_def p(4) unfolding p(3) unfolding p(2) unfolding p(1)
      using mtc_small [of v] by (auto simp: fits_def)
  next
    case 2
    then show ?thesis
      unfolding bigintToMtcDirect_def Let_def
      using encode5To8Bytes_mtc [of v False] encode5To8Bytes_mtc [of v True] by (auto simp: fits_def)
  next
    case 3
    then show ?thesis
      unfolding bigintToMtcDirect_def Let_def
      using mtc_slow_pos(2) [of v, OF _ refl] mtc_slow_neg(2) [of v, OF _ refl] by (auto simp: fits_def)
  qed
qed

lemma bigintToMtcHex_mtc: "bigintToMtcHex v = Inr (mtc v)"
proof -
  consider "fits 4 v" | "fits 8 v" "\<not> fits 4 v" | "\<not> fits 8 v" by blast
  then show ?thesis
  proof cases
    case 1
    note p = put_bytes [OF 1]
    have "- 0x80000000 \<le> v" "v \<le> 0x7fffffff" using 1 by (auto simp: fits_def)
    then show ?thesis
      unfolding bigintToMtcHex_def Let_def p(4) unfolding p(3) unfolding p(2) unfolding p(1)
      using mtc_small [of v] by (auto simp: fits_def)
  next
    case 2
    then show ?thesis
      unfolding bigintToMtcHex_def Let_def
      using encode5To8Bytes_mtc [of v False] encode5To8Bytes_mtc [of v True] by (auto simp: fits_def)
  next
    case 3
    then show ?thesis
      unfolding bigintToMtcHex_def Let_def
      using mtc_slow_pos(1) [of v, OF _ refl] mtc_slow_neg(1) [of v, OF _ refl] by (auto simp: fits_def)
  qed
qed

section \<open>The decoders compute the reference\<close>

lemma or_add: "0 \<le> y \<Longrightarrow> y < 2 ^ n \<Longrightarrow> push_bit n x OR y = x * 2 ^ n + (y :: int)"
proof -
  assume "0 \<le> y" "y < 2 ^ n"
  then have "take_bit n y = y" by (simp add: take_bit_int_eq_self_iff)
  then have "push_bit n x OR y = push_bit n x + y"
    by (intro disjunctive_add [symmetric]) (metis bit_push_bit_iff bit_take_bit_iff not_le)
  then show ?thesis by (simp add: push_bit_eq_mult)
qed

lemma uval_2: "uval [a, b] = uint a * 2 ^ 8 + uint b"
  by (simp add: uval_Cons)

lemma uval_3: "uval [a, b, c] = uint a * 2 ^ 16 + uval [b, c]"
  by (simp add: uval_Cons)

lemma uval_4: "uval [a, b, c, d] = uint a * 2 ^ 24 + uval [b, c, d]"
  by (simp add: uval_Cons)

lemma or_uval:
  "push_bit 8 (uint b2) OR uint b3 = uval [b2, b3]"
  "push_bit 16 (uint b1) OR uval [b2, b3] = uval [b1, b2, b3]"
  "push_bit 24 (uint b0) OR uval [b1, b2, b3] = uval [b0, b1, b2, b3]"
  using or_add [of "uint b3" 8 "uint b2"] or_add [of "uval [b2, b3]" 16 "uint b1"]
    or_add [of "uval [b1, b2, b3]" 24 "uint b0"] uint_byte [of b3] uval_bounds [of "[b2, b3]"]
    uval_bounds [of "[b1, b2, b3]"]
  by (simp_all only: uval_2 uval_3 uval_4) simp_all

lemma uint_quad: "uint (quad b0 b1 b2 b3) = uval [b0, b1, b2, b3]"
proof -
  have "quad b0 b1 b2 b3 = word_of_int (push_bit 24 (uint b0) OR push_bit 16 (uint b1) OR push_bit 8 (uint b2) OR uint b3)"
    by (rule bit_word_eqI) (auto simp: quad_def bit_simps bit_uint_iff)
  then have "quad b0 b1 b2 b3 = word_of_int (uval [b0, b1, b2, b3])"
    by (simp add: or_uval)
  then show ?thesis using uval_bounds [of "[b0, b1, b2, b3]"] by (simp add: uint_word_of_int)
qed

lemma sint_quad: "sint (quad b0 b1 b2 b3) = tc_value [b0, b1, b2, b3]"
proof -
  have "word_of_int (tc_value [b0, b1, b2, b3]) = quad b0 b1 b2 b3"
    using uint_quad [of b0 b1 b2 b3] uval_bounds [of "[b0, b1, b2, b3]"]
    by (auto simp: word_uint_eq_iff tc_value_alt uint_word_of_int)
  moreover have "sint (word_of_int (tc_value [b0, b1, b2, b3]) :: u32) = tc_value [b0, b1, b2, b3]"
    using fits_tc_value [of "[b0, b1, b2, b3]"]
    by (simp add: signed_of_int signed_take_bit_int_eq_self fits_def)
  ultimately show ?thesis by simp
qed


lemma low32_quad: "low32 (quad b0 b1 b2 b3) = uval [b0, b1, b2, b3]"
proof -
  have "sint w AND 0xffffffff = uint w" for w :: u32
  proof -
    have "(0xffffffff :: int) = mask 32" by (simp add: mask_eq_exp_minus_1)
    then show ?thesis by (simp only: flip: take_bit_eq_mask) (simp add: uint_sint)
  qed
  then show ?thesis by (simp add: low32_def uint_quad)
qed

lemma tc_value_append:
  "as \<noteq> [] \<Longrightarrow> tc_value (as @ bs) = tc_value as * 256 ^ length bs + uval bs"
  by (simp add: tc_value_def uval_append power_add left_diff_distrib)

lemma tc_value_clear: "tc_value (0 # bs) = uval bs"
  by (simp add: tc_value_def uval_Cons)

lemma tc_value_div: "as \<noteq> [] \<Longrightarrow> tc_value (as @ bs) div 256 ^ length bs = tc_value as"
  using uval_bounds [of bs] by (simp add: tc_value_append)

lemma shifted_quad:
  "sint (signed_drop_bit 24 (push_bit 24 (ucast b0) :: u32)) = tc_value [b0]"
  "sint (signed_drop_bit 16 (push_bit 24 (ucast b0) OR push_bit 16 (ucast b1) :: u32)) = tc_value [b0, b1]"
  "sint (signed_drop_bit 8 (push_bit 24 (ucast b0) OR push_bit 16 (ucast b1) OR push_bit 8 (ucast b2) :: u32))
    = tc_value [b0, b1, b2]"
  using tc_value_div [of "[b0]" "[0, 0, 0]"] tc_value_div [of "[b0, b1]" "[0, 0]"]
    tc_value_div [of "[b0, b1, b2]" "[0]"] sint_quad [of b0 0 0 0] sint_quad [of b0 b1 0 0] sint_quad [of b0 b1 b2 0]
  by (simp_all add: quad_def sint_signed_drop_bit_eq drop_bit_eq_div)

lemma tail_quad:
  "sint (push_bit 8 (ucast b4) OR ucast b5 :: u32) = uval [b4, b5]"
  "sint (push_bit 16 (ucast b4) OR push_bit 8 (ucast b5) OR ucast b6 :: u32) = uval [b4, b5, b6]"
  using sint_quad [of 0 0 b4 b5] sint_quad [of 0 b4 b5 b6]
  by (simp_all add: quad_def tc_value_clear) (simp add: uval_Cons)

lemma uval_map_NOT: "uval (map NOT bs) = 256 ^ length bs - 1 - uval bs"
proof (induction bs rule: rev_induct)
  case (snoc b bs)
  have "uint (NOT b) = 255 - uint b"
  proof -
    have "uint (NOT b) = (- uint b - 1) mod 256" by (simp add: unsigned_not_eq take_bit_eq_mod not_int_def)
    also have "\<dots> = (255 - uint b) mod 256" using mod_add_self2 [of "- uint b - 1" 256] by simp
    also have "\<dots> = 255 - uint b" using uint_byte [of b] by (intro mod_pos_pos_trivial) linarith+
    finally show ?thesis .
  qed
  then show ?case using snoc by simp
qed simp

lemma bit_quad:
  "bit (quad b0 b1 b2 b3) n \<longleftrightarrow>
    (if n < 8 then bit b3 n else if n < 16 then bit b2 (n - 8)
     else if n < 24 then bit b1 (n - 16) else n < 32 \<and> bit b0 (n - 24))"
  by (auto simp: quad_def bit_simps dest: bit_imp_le_length)

lemma quad_NOT: "NOT (quad b0 b1 b2 b3) = quad (NOT b0) (NOT b1) (NOT b2) (NOT b3)"
  by (rule bit_word_eqI) (auto simp: bit_quad bit_not_iff)


lemma take_8_split:
  assumes "8 \<le> length bs"
  obtains b0 b1 b2 b3 b4 b5 b6 b7 cs where "bs = b0 # b1 # b2 # b3 # b4 # b5 # b6 # b7 # cs"
  using assms by (auto simp: numeral_eq_Suc Suc_le_length_iff)

lemma direct_loop_uval:
  assumes "f = id \<and> g = id \<or> f = NOT \<and> g = NOT" "8 dvd length bs - i" "i \<le> length bs"
  shows "direct_loop f bs r i = r * 256 ^ (length bs - i) + uval (map g (drop i bs))"
  using assms(2,3)
proof (induction "length bs - i" arbitrary: r i rule: less_induct)
  case less
  show ?case
  proof (cases "i < length bs")
    case False
    then show ?thesis using less by (subst direct_loop.simps) simp
  next
    case True
    then have len: "8 \<le> length bs - i" using less(2) by (intro dvd_imp_le) auto
    then obtain b0 b1 b2 b3 b4 b5 b6 b7 cs
      where d: "drop i bs = b0 # b1 # b2 # b3 # b4 # b5 # b6 # b7 # cs"
      using take_8_split [of "drop i bs"] by (metis length_drop)
    then have d8: "drop (i + 8) bs = cs" using drop_drop [of 8 i bs] by (simp add: add.commute)
    have nth: "bs ! (i + k) = (b0 # b1 # b2 # b3 # b4 # b5 # b6 # b7 # cs) ! k" for k
      using less.prems(2) by (simp add: nth_drop flip: d)
    have q: "quad_at bs i = quad b0 b1 b2 b3" "quad_at bs (i + 4) = quad b4 b5 b6 b7"
      using nth [of 0] nth [of 1] nth [of 2] nth [of 3] nth [of 4] nth [of 5] nth [of 6] nth [of 7]
      by (simp_all add: quad_at_def add.commute [of i])
    define s1 s2 where "s1 = uval (map g [b0, b1, b2, b3])" and "s2 = uval (map g [b4, b5, b6, b7])"
    have low: "low32 (f (quad_at bs i)) = s1" "low32 (f (quad_at bs (i + 4))) = s2"
      using assms(1) by (auto simp: q quad_NOT low32_quad s1_def s2_def)
    have bd: "0 \<le> s1" "s1 < 2 ^ 32" "0 \<le> s2" "s2 < 2 ^ 32"
      using uval_bounds [of "map g [b0, b1, b2, b3]"] uval_bounds [of "map g [b4, b5, b6, b7]"]
      by (simp_all add: s1_def s2_def)
    have u8: "uval (map g (drop i bs)) = (s1 * 2 ^ 32 + s2) * 256 ^ (length bs - (i + 8)) + uval (map g cs)"
      unfolding d using uval_append [of "map g [b0, b1, b2, b3] @ map g [b4, b5, b6, b7]" "map g cs"]
        uval_append [of "map g [b0, b1, b2, b3]" "map g [b4, b5, b6, b7]"] arg_cong [OF d8, of length]
      by (simp add: s1_def s2_def)
    have step: "push_bit 64 r OR push_bit 32 s1 OR s2 = r * 2 ^ 64 + (s1 * 2 ^ 32 + s2)"
      using or_add [of s2 32 s1] or_add [of "s1 * 2 ^ 32 + s2" 64 r] bd by (simp add: or.assoc)
    have pow: "(256 :: int) ^ (length bs - i) = 2 ^ 64 * 256 ^ (length bs - (i + 8))"
      using len power_add [of "256 :: int" 8 "length bs - (i + 8)"] by simp
    have "direct_loop f bs r i = direct_loop f bs (r * 2 ^ 64 + (s1 * 2 ^ 32 + s2)) (i + 8)"
      using True by (subst direct_loop.simps) (simp only: Let_def low step if_True)
    also have "\<dots> = (r * 2 ^ 64 + (s1 * 2 ^ 32 + s2)) * 256 ^ (length bs - (i + 8)) + uval (map g cs)"
    proof -
      have "length bs - i = 8 + (length bs - (i + 8))" using len by simp
      then have "8 dvd length bs - (i + 8)" using less.prems(1) by (metis dvd_add_triv_left_iff)
      then show ?thesis using less(1) [of "i + 8"] len d8 by simp
    qed
    also have "\<dots> = r * 256 ^ (length bs - i) + uval (map g (drop i bs))"
      unfolding u8 pow by (simp only: distrib_right mult.assoc add.assoc)
    finally show ?thesis .
  qed
qed


lemma pow_256: "(256 :: int) ^ k = 2 ^ (k * 8)"
  by (simp add: mult.commute [of k] power_mult)

lemma high_partial:
  assumes "0 < p" "p \<le> 4" "4 \<le> length bs"
  shows "drop_bit (32 - p * 8) (sint (quad_at bs 0)) = tc_value (take p bs)"
proof -
  obtain b0 b1 b2 b3 cs where bs: "bs = b0 # b1 # b2 # b3 # cs"
    using assms(3) by (auto simp: numeral_eq_Suc Suc_le_length_iff)
  let ?q = "[b0, b1, b2, b3]"
  have "tc_value ?q div 256 ^ length (drop p ?q) = tc_value (take p ?q)"
    using tc_value_div [of "take p ?q" "drop p ?q"] assms by simp
  moreover have "(256 :: int) ^ length (drop p ?q) = 2 ^ (32 - p * 8)"
    using assms(2) pow_256 [of "length (drop p ?q)"] by (simp add: diff_mult_distrib)
  moreover have "take p bs = take p ?q" using assms(2) by (simp add: bs take_Cons' numeral_eq_Suc)
  ultimately show ?thesis by (simp add: drop_bit_eq_div quad_at_def bs sint_quad)
qed

lemma high_partial_8:
  assumes "4 < p" "p \<le> 8" "8 \<le> length bs"
  shows "drop_bit (64 - p * 8) (push_bit 32 (sint (quad_at bs 0)) OR low32 (quad_at bs 4)) = tc_value (take p bs)"
proof -
  obtain b0 b1 b2 b3 b4 b5 b6 b7 cs where bs: "bs = b0 # b1 # b2 # b3 # b4 # b5 # b6 # b7 # cs"
    by (rule take_8_split [OF assms(3)])
  let ?q = "[b0, b1, b2, b3, b4, b5, b6, b7]"
  have "tc_value ?q div 256 ^ length (drop p ?q) = tc_value (take p ?q)"
    using tc_value_div [of "take p ?q" "drop p ?q"] assms by simp
  moreover have "(256 :: int) ^ length (drop p ?q) = 2 ^ (64 - p * 8)"
    using assms(2) pow_256 [of "length (drop p ?q)"] by (simp add: diff_mult_distrib)
  moreover have "take p bs = take p ?q" using assms(2) by (simp add: bs take_Cons' numeral_eq_Suc)
  moreover have "push_bit 32 (sint (quad_at bs 0)) OR low32 (quad_at bs 4) = tc_value ?q"
    using tc_value_append [of "[b0, b1, b2, b3]" "[b4, b5, b6, b7]"] uval_bounds [of "[b4, b5, b6, b7]"]
    by (simp add: quad_at_def bs sint_quad low32_quad or_add)
  ultimately show ?thesis by (simp add: drop_bit_eq_div)
qed


lemma bigintFromMtcSlow_tc_value:
  assumes "9 \<le> length bs"
  shows "bigintFromMtcSlow bs = tc_value bs"
proof -
  define p where "p = length bs mod 8"
  define M :: int where "M = 256 ^ (length bs - p)"
  define neg where "neg = ((bs ! 0) AND 0x80 \<noteq> 0)"
  define r :: int where "r = (if p = 0 then if neg then - 1 else 0
             else if p \<le> 4 then drop_bit (32 - p * 8) (sint (quad_at bs 0))
             else drop_bit (64 - p * 8) (push_bit 32 (sint (quad_at bs 0)) OR low32 (quad_at bs 4)))"
  have p: "p < 8" "p \<le> length bs" "8 dvd length bs - p"
    using assms by (simp_all add: p_def minus_mod_eq_mult_div)
  have neg: "neg \<longleftrightarrow> bit (hd bs) 7"
    using assms by (cases bs) (auto simp: neg_def and_80_zero)
  have r: "r * M + uval (drop p bs) = tc_value bs"
  proof (cases "p = 0")
    case True
    then show ?thesis using assms neg by (cases bs) (auto simp: r_def M_def tc_value_def)
  next
    case False
    then have "r = tc_value (take p bs)"
      using high_partial [of p bs] high_partial_8 [of p bs] p assms by (auto simp: r_def)
    moreover have "take p bs \<noteq> []" using False assms by auto
    ultimately show ?thesis using tc_value_append [of "take p bs" "drop p bs"] p by (simp add: M_def)
  qed
  have "direct_loop id bs r p = r * M + uval (drop p bs)"
    using direct_loop_uval [of id id bs p r] p by (simp add: M_def)
  moreover have "NOT (direct_loop NOT bs (NOT r) p) = r * M + uval (drop p bs)"
    using direct_loop_uval [of NOT NOT bs p "NOT r"] p
    by (simp add: M_def uval_map_NOT not_int_def left_diff_distrib)
  ultimately show ?thesis
    using r unfolding bigintFromMtcSlow_def Let_def p_def [symmetric] neg_def [symmetric] r_def [symmetric]
    by simp
qed

lemma direct_short:
  "push_bit 8 (sint (quad b0 b1 b2 b3)) OR uint b4 = tc_value [b0, b1, b2, b3, b4]"
  "push_bit 16 (sint (quad b0 b1 b2 b3)) OR uval [b4, b5] = tc_value [b0, b1, b2, b3, b4, b5]"
  "push_bit 24 (sint (quad b0 b1 b2 b3)) OR uval [b4, b5, b6] = tc_value [b0, b1, b2, b3, b4, b5, b6]"
  "push_bit 32 (sint (quad b0 b1 b2 b3)) OR low32 (quad b4 b5 b6 b7) = tc_value [b0, b1, b2, b3, b4, b5, b6, b7]"
  using tc_value_append [of "[b0, b1, b2, b3]" "[b4]"] tc_value_append [of "[b0, b1, b2, b3]" "[b4, b5]"]
    tc_value_append [of "[b0, b1, b2, b3]" "[b4, b5, b6]"] tc_value_append [of "[b0, b1, b2, b3]" "[b4, b5, b6, b7]"]
    uval_bounds [of "[b4]"] uval_bounds [of "[b4, b5]"] uval_bounds [of "[b4, b5, b6]"] uval_bounds [of "[b4, b5, b6, b7]"]
    uval_Cons [of b4 "[]"] uint_byte [of b4]
  by (simp_all add: sint_quad low32_quad or_add)

lemma bigintFromMtcDirect_tc_value:
  assumes "bs \<noteq> []"
  shows "bigintFromMtcDirect bs = Inr (tc_value bs)"
  using assms unfolding bigintFromMtcDirect_def shifted_quad tail_quad direct_short
  by (simp add: sint_quad bigintFromMtcSlow_tc_value split: list.split)

lemma toHex_props: "is_hex (toHex bs) \<and> length (toHex bs) = 2 * length bs \<and> bigint_of_hex (toHex bs) = uval bs"
proof (induction bs)
  case (Cons b bs)
  have u: "int (unat b) = uint b" by simp
  have d: "hex_value (hex_digit (unat b div 16)) = Some (unat b div 16)"
    "hex_value (hex_digit (unat b mod 16)) = Some (unat b mod 16)"
    using unsigned_less [of b, where 'a = nat] by (auto intro!: hex_value_digit)
  have "int (unat b div 16) * 16 + int (unat b mod 16) = uint b"
    unfolding u [symmetric] by (simp only: zdiv_int zmod_int of_nat_numeral) simp
  then have "uint b * 256 ^ length bs = (int (unat b div 16) * 16 + int (unat b mod 16)) * 256 ^ length bs"
    by simp
  moreover have "(16 :: int) ^ (2 * length bs) = 256 ^ length bs" by (simp add: power_mult)
  ultimately show ?case
    using Cons by (simp add: toHex_def is_hex_def d bigint_of_hex_Cons uval_Cons algebra_simps)
qed (simp add: toHex_def is_hex_def bigint_of_hex_def)

lemma bigintFromMtcHex_tc_value:
  assumes "bs \<noteq> []"
  shows "bigintFromMtcHex bs = Inr (tc_value bs)"
proof (cases "length bs \<le> 32")
  case True
  then show ?thesis using assms by (simp add: bigintFromMtcHex_def bigintFromMtcDirect_tc_value)
next
  case False
  have "bs ! 0 \<le> 0x7f \<longleftrightarrow> \<not> bit (hd bs) 7"
    using assms by (cases bs) (auto simp: bit7_uint word_le_def)
  moreover have "push_bit (length bs * 8) (- 1) OR uval bs = - (256 ^ length bs) + uval bs"
    using or_add [of "uval bs" "length bs * 8" "- 1"] uval_bounds [of bs] by (simp add: pow_256)
  ultimately show ?thesis
    using False assms toHex_props [of bs] by (simp add: bigintFromMtcHex_def tc_value_def Let_def or.commute)
qed

lemma bigint_exports: "bigintToMinimalTwosComplement useHex v = Inr (mtc v)"
  by (simp add: bigintToMinimalTwosComplement_def bigintToMtcHex_mtc bigintToMtcDirect_mtc)

lemma bigint_decoders:
  "bigintFromMinimalTwosComplement useHex bs = (if bs = [] then Inl EmptyInput else Inr (tc_value bs))"
  by (simp add: bigintFromMinimalTwosComplement_def bigintFromMtcHex_tc_value bigintFromMtcDirect_tc_value)
    (simp add: bigintFromMtcHex_def bigintFromMtcDirect_def)

lemma mtc_not_Nil [simp]: "mtc v \<noteq> []"
  by (subst mtc.simps) simp

section \<open>Properties\<close>

text \<open>C23. Both implementations behind \<^verbatim>\<open>bigintToMinimalTwosComplement\<close> give, for every integer, the
  same byte string; either decoder reads the integer back from it; and no non-empty byte string
  with a given two's-complement value is shorter than the one encoded for that value.\<close>

theorem bigint_minimal_round_trip:
  "bigintToMinimalTwosComplement useHex v = Inr (mtc v) \<and>
   bigintFromMinimalTwosComplement useHex' (mtc v) = Inr v \<and>
   (bs = [] \<or> length (mtc (tc_value bs)) \<le> length bs)"
  using mtc_shortest [of bs] by (auto simp: bigint_exports bigint_decoders tc_value_mtc)

text \<open>On any byte string at all, minimal or not, \<^verbatim>\<open>bigintFromMinimalTwosComplement\<close> returns its
  two's-complement value, the same from the two implementations, and throws exactly on the empty one.\<close>

theorem bigint_decoders_agree:
  "bigintFromMinimalTwosComplement useHex bs = (if bs = [] then Inl EmptyInput else Inr (tc_value bs))"
  by (rule bigint_decoders)

end
