(* ===== verification/Base64url.thy ===== *)
theory Base64url
  imports TwosComplement
begin

unbundle bit_operations_syntax

text \<open>
  Unpadded base64url (\<^verbatim>\<open>base/bytes/src/base64url.ts\<close>): the encoder and decoder this module carries
  for hosts without \<^verbatim>\<open>Uint8Array.fromBase64\<close>, and the string form of big integers built on them
  (\<^verbatim>\<open>base/bytes/src/bigint.ts\<close>). Every refusal of the decoder is one error value: a string with a
  character outside ASCII is refused whichever check meets it first.
\<close>

definition B64_CHARS :: string where
  "B64_CHARS = ''ABCDEFGHIJKLMNOPQRSTUVWXYZabcdefghijklmnopqrstuvwxyz0123456789-_''"

fun index_in :: "char \<Rightarrow> string \<Rightarrow> nat \<Rightarrow> nat option" where
  "index_in c [] i = None"
| "index_in c (d # ds) i = (if c = d then Some i else index_in c ds (Suc i))"

text \<open>The reverse lookup table, \<open>None\<close> where it holds \<^verbatim>\<open>B64_INVALID\<close> or has no entry.\<close>

definition B64_DECODE :: "char \<Rightarrow> nat option" where
  "B64_DECODE c = index_in c B64_CHARS 0"

definition b64_char :: "u32 \<Rightarrow> char" where
  "b64_char n = B64_CHARS ! unat n"

fun toBase64Polyfill :: "bytes \<Rightarrow> string" where
  "toBase64Polyfill (b0 # b1 # b2 # rest) =
     (let n = push_bit 16 (ucast b0) OR push_bit 8 (ucast b1) OR ucast b2
      in b64_char (signed_drop_bit 18 n AND 0x3f) # b64_char (signed_drop_bit 12 n AND 0x3f)
         # b64_char (signed_drop_bit 6 n AND 0x3f) # b64_char (n AND 0x3f) # toBase64Polyfill rest)"
| "toBase64Polyfill [b0, b1] =
     (let n1 = ucast b0; n2 = ucast b1
      in [b64_char (signed_drop_bit 2 n1 AND 0x3f),
          b64_char (push_bit 4 (n1 AND 0x03) OR (signed_drop_bit 4 n2 AND 0x0f)),
          b64_char (push_bit 2 (n2 AND 0x0f))])"
| "toBase64Polyfill [b0] =
     (let n1 = ucast b0
      in [b64_char (signed_drop_bit 2 n1 AND 0x3f), b64_char (push_bit 4 (n1 AND 0x03))])"
| "toBase64Polyfill [] = []"

fun strip_padding :: "string \<Rightarrow> nat \<Rightarrow> nat" where
  "strip_padding s 0 = 0"
| "strip_padding s (Suc inLen) = (if s ! inLen = CHR ''='' then strip_padding s inLen else Suc inLen)"

text \<open>One turn of the decoder's loop: the bit buffer, the bits pending in it, the bytes written.\<close>

definition b64_step :: "u32 \<times> nat \<times> bytes \<Rightarrow> char \<Rightarrow> bigint_error + (u32 \<times> nat \<times> bytes)" where
  "b64_step st c =
     (case st of (bitBuf, bitCount, out) \<Rightarrow>
        (case B64_DECODE c of
           None \<Rightarrow> Inl InvalidBase64
         | Some val \<Rightarrow>
             let bitBuf' = push_bit 6 bitBuf OR of_nat val; bitCount' = bitCount + 6 in
             if bitCount' \<ge> 8
             then Inr (bitBuf', bitCount' - 8, out @ [ucast (drop_bit (bitCount' - 8) bitBuf' AND 0xff)])
             else Inr (bitBuf', bitCount', out)))"

definition fromBase64Polyfill :: "string \<Rightarrow> bigint_error + bytes" where
  "fromBase64Polyfill s =
     (let inLen = strip_padding s (length s); padding = length s - inLen in
      if inLen mod 4 = 1 then Inl InvalidBase64
      else if padding \<noteq> 0 \<and> padding \<noteq> (4 - inLen mod 4) mod 4 then Inl InvalidBase64
      else
        bindR (foldR b64_step (0, 0, []) (take inLen s)) (\<lambda>(bitBuf, bitCount, result).
          if bitBuf AND (push_bit bitCount 1 - 1) \<noteq> 0 then Inl InvalidBase64 else Inr result))"

section \<open>Big integers as strings\<close>

definition bigintToUnpaddedBase64url :: "bool \<Rightarrow> int \<Rightarrow> bigint_error + string" where
  "bigintToUnpaddedBase64url useHex value =
     bindR (bigintToMinimalTwosComplement useHex value) (\<lambda>bytes. Inr (toBase64Polyfill bytes))"

definition bigintFromUnpaddedBase64url :: "bool \<Rightarrow> string \<Rightarrow> bigint_error + int" where
  "bigintFromUnpaddedBase64url useHex encoded =
     bindR (fromBase64Polyfill encoded) (\<lambda>bytes.
       if length bytes > 1 \<and>
          ((bytes ! 0 = 0x00 \<and> bytes ! 1 AND 0x80 = 0) \<or> (bytes ! 0 = 0xff \<and> bytes ! 1 AND 0x80 \<noteq> 0))
       then Inl NotMinimal
       else bigintFromMinimalTwosComplement useHex bytes)"

section \<open>Round trip\<close>

lemma B64_DECODE_char: "unat n < 64 \<Longrightarrow> B64_DECODE (b64_char n) = Some (unat n)"
proof -
  have "list_all (\<lambda>i. index_in (B64_CHARS ! i) B64_CHARS 0 = Some i) [0..<64]"
    by code_simp
  then show "unat n < 64 \<Longrightarrow> B64_DECODE (b64_char n) = Some (unat n)"
    by (simp add: B64_DECODE_def b64_char_def list_all_iff)
qed

lemma b64_char_neq_pad: "unat n < 64 \<Longrightarrow> b64_char n \<noteq> CHR ''=''"
proof -
  have "list_all (\<lambda>i. B64_CHARS ! i \<noteq> CHR ''='') [0..<64]" by code_simp
  then show "unat n < 64 \<Longrightarrow> b64_char n \<noteq> CHR ''=''"
    by (simp add: b64_char_def list_all_iff)
qed

lemma masks:
  "(w :: u32) AND 0x3f = take_bit 6 w" "w AND 0x03 = take_bit 2 w" "w AND 0x0f = take_bit 4 w"
  "w AND 0xff = take_bit 8 w"
  by (simp_all add: take_bit_eq_mask mask_eq_exp_minus_1)

lemma sextet_less: "unat (take_bit 6 (w :: u32)) < 64"
  by (simp only: unsigned_take_bit_eq) (simp add: take_bit_eq_mod)

lemma b64_step_char:
  assumes "v = take_bit 6 v"
  shows "b64_step (buf, k, out) (b64_char v) =
    (let buf' = push_bit 6 buf OR v
     in if k + 6 \<ge> 8 then Inr (buf', k - 2, out @ [ucast (take_bit 8 (drop_bit (k - 2) buf'))])
        else Inr (buf', k + 6, out))"
proof -
  have "unat v < 64" using assms sextet_less by metis
  then show ?thesis by (simp add: b64_step_def B64_DECODE_char Let_def masks)
qed

lemma sub_add_back: "2 \<le> n \<Longrightarrow> Suc (Suc (n - 2)) = n" "\<not> n < 2 \<Longrightarrow> Suc (Suc (n - 2)) = n"
  "4 \<le> n \<Longrightarrow> n - 4 + 4 = n" "6 \<le> n \<Longrightarrow> n - 6 + 6 = n" "4 \<le> n \<Longrightarrow> 4 + (n - 4) = n" "6 \<le> n \<Longrightarrow> 6 + (n - 6) = n"
  by arith+

text \<open>The four sextets of three bytes.\<close>

definition sx0 :: "byte \<Rightarrow> u32" where "sx0 b0 = take_bit 6 (drop_bit 2 (ucast b0))"
definition sx1 :: "byte \<Rightarrow> byte \<Rightarrow> u32" where
  "sx1 b0 b1 = push_bit 4 (take_bit 2 (ucast b0)) OR take_bit 4 (drop_bit 4 (ucast b1))"
definition sx2 :: "byte \<Rightarrow> byte \<Rightarrow> u32" where
  "sx2 b1 b2 = push_bit 2 (take_bit 4 (ucast b1)) OR take_bit 2 (drop_bit 6 (ucast b2))"
definition sx3 :: "byte \<Rightarrow> u32" where "sx3 b2 = take_bit 6 (ucast b2)"

lemmas sx_defs = sx0_def sx1_def sx2_def sx3_def

lemma sx_sextet:
  "sx0 b0 = take_bit 6 (sx0 b0)" "sx1 b0 b1 = take_bit 6 (sx1 b0 b1)"
  "sx2 b1 b2 = take_bit 6 (sx2 b1 b2)" "sx3 b2 = take_bit 6 (sx3 b2)"
  by (rule bit_word_eqI; auto simp: sx_defs bit_simps)+

lemma byte_assembly:
  "ucast (take_bit 8 (drop_bit 4 (push_bit 6 (push_bit 6 buf OR sx0 b0) OR sx1 b0 b1))) = (b0 :: byte)"
  "ucast (take_bit 8 (drop_bit 2 (push_bit 6 (push_bit 6 (push_bit 6 buf OR sx0 b0) OR sx1 b0 b1) OR sx2 b1 b2)))
    = (b1 :: byte)"
  "ucast (take_bit 8 (push_bit 6 (push_bit 6 (push_bit 6 (push_bit 6 buf OR sx0 b0) OR sx1 b0 b1) OR sx2 b1 b2)
    OR sx3 b2)) = (b2 :: byte)"
  unfolding sx_defs
  by (rule bit_word_eqI; auto simp: bit_simps sub_add_back dest: bit_imp_le_length)+

lemma group_sextets:
  fixes n :: u32
  assumes "n = push_bit 16 (ucast b0) OR push_bit 8 (ucast b1) OR ucast (b2 :: byte)"
  shows "take_bit 6 (signed_drop_bit 18 n) = sx0 b0" "take_bit 6 (signed_drop_bit 12 n) = sx1 b0 b1"
    "take_bit 6 (signed_drop_bit 6 n) = sx2 b1 b2" "take_bit 6 n = sx3 b2"
  unfolding assms sx_defs
  by (rule bit_word_eqI; auto simp: bit_simps bit_signed_drop_bit_iff sub_add_back dest: bit_imp_le_length)+

lemma tail_sextets:
  "take_bit 6 (signed_drop_bit 2 (ucast b0 :: u32)) = sx0 b0"
  "push_bit 4 (take_bit 2 (ucast b0)) OR take_bit 4 (signed_drop_bit 4 (ucast b1)) = sx1 b0 b1"
  "push_bit 4 (take_bit 2 (ucast b0)) = sx1 b0 0"
  "push_bit 2 (take_bit 4 (ucast b1)) = sx2 b1 0"
  unfolding sx_defs
  by (rule bit_word_eqI; auto simp: bit_simps bit_signed_drop_bit_iff dest: bit_imp_le_length)+

lemma toBase64Polyfill_sextets:
  "toBase64Polyfill (b0 # b1 # b2 # rest)
    = map b64_char [sx0 b0, sx1 b0 b1, sx2 b1 b2, sx3 b2] @ toBase64Polyfill rest"
  "toBase64Polyfill [b0, b1] = map b64_char [sx0 b0, sx1 b0 b1, sx2 b1 0]"
  "toBase64Polyfill [b0] = map b64_char [sx0 b0, sx1 b0 0]"
  by (simp only: toBase64Polyfill.simps Let_def masks group_sextets [OF refl] list.map append.simps)
    (simp only: toBase64Polyfill.simps Let_def masks tail_sextets(1,2) list.map tail_sextets(4),
     simp only: toBase64Polyfill.simps Let_def masks tail_sextets(1,3) list.map)

lemmas b64_steps = b64_step_char [OF sx_sextet(1)] b64_step_char [OF sx_sextet(2)]
  b64_step_char [OF sx_sextet(3)] b64_step_char [OF sx_sextet(4)]

lemma trailing_zero:
  "take_bit 4 (push_bit 6 w OR sx1 b0 0) = 0" "take_bit 2 (push_bit 6 w OR sx2 b1 0) = 0"
  unfolding sx_defs by (rule bit_word_eqI; auto simp: bit_simps dest: bit_imp_le_length)+

lemma foldR_toBase64:
  "\<exists>buf' k. foldR b64_step (buf, 0, out) (toBase64Polyfill bs) = Inr (buf', k, out @ bs) \<and> take_bit k buf' = 0"
proof (induction bs arbitrary: buf out rule: toBase64Polyfill.induct)
  case (1 b0 b1 b2 rest)
  show ?case
    unfolding toBase64Polyfill_sextets foldR_append
    using 1 [of _ "push_bit 6 (push_bit 6 (push_bit 6 (push_bit 6 buf OR sx0 b0) OR sx1 b0 b1) OR sx2 b1 b2) OR sx3 b2"
        "out @ [b0, b1, b2]"]
    by (simp add: b64_steps Let_def byte_assembly del: push_bit_or take_bit_or drop_bit_or push_bit_push_bit)
next
  case (2 b0 b1)
  show ?case unfolding toBase64Polyfill_sextets by (simp add: b64_steps Let_def byte_assembly trailing_zero del: push_bit_or take_bit_or drop_bit_or push_bit_push_bit)
next
  case (3 b0)
  show ?case unfolding toBase64Polyfill_sextets by (simp add: b64_steps Let_def byte_assembly trailing_zero del: push_bit_or take_bit_or drop_bit_or push_bit_push_bit)
qed simp

lemma toBase64_no_pad: "CHR ''='' \<notin> set (toBase64Polyfill bs)"
proof -
  have "b64_char v \<noteq> CHR ''=''" if "v = take_bit 6 v" for v
    using that sextet_less b64_char_neq_pad by metis
  note sx = sx_sextet [THEN this]
  show ?thesis
    by (induction bs rule: toBase64Polyfill.induct)
      (simp_all only: toBase64Polyfill_sextets, simp_all add: sx sx [symmetric])
qed

lemma toBase64_length: "length (toBase64Polyfill bs) mod 4 \<noteq> 1"
  by (induction bs rule: toBase64Polyfill.induct) (simp_all add: Let_def)

lemma strip_padding_none: "CHR ''='' \<notin> set s \<Longrightarrow> n \<le> length s \<Longrightarrow> strip_padding s n = n"
  by (cases n) (auto simp: in_set_conv_nth)

lemma fromBase64_toBase64: "fromBase64Polyfill (toBase64Polyfill bs) = Inr bs"
proof -
  obtain buf k where "foldR b64_step (0, 0, []) (toBase64Polyfill bs) = Inr (buf, k, bs)" "take_bit k buf = 0"
    using foldR_toBase64 [of 0 "[]" bs] by auto
  then show ?thesis
    using toBase64_length [of bs]
    by (simp add: fromBase64Polyfill_def strip_padding_none toBase64_no_pad Let_def take_bit_eq_mask mask_eq_exp_minus_1)
qed


text \<open>The decoder accepts no other unpadded string: what it reads, the encoder writes.\<close>

lemma index_in_nth: "index_in c ds i = Some k \<Longrightarrow> i \<le> k \<and> k - i < length ds \<and> ds ! (k - i) = c"
  by (induction ds arbitrary: i) (fastforce simp: Suc_diff_Suc nth_Cons' split: if_splits)+

lemma B64_DECODE_inv:
  assumes "B64_DECODE c = Some k"
  obtains v where "c = b64_char v" "v = take_bit 6 v" "k = unat v"
proof -
  have "length B64_CHARS = 64" by (simp add: B64_CHARS_def)
  then have k: "k < 64" "B64_CHARS ! k = c"
    using assms index_in_nth [of c B64_CHARS 0 k] by (simp_all add: B64_DECODE_def)
  have u: "unat (of_nat k :: u32) = k" using k(1) by (simp add: unat_of_nat)
  have "take_bit 6 (of_nat k :: u32) = of_nat k"
    using k(1) u by (intro word_unat_eq_iff [THEN iffD2]) (simp only: unsigned_take_bit_eq, simp add: take_bit_eq_mod)
  then show thesis using that [of "of_nat k"] u k by (simp add: b64_char_def)
qed

lemma b64_step_inv:
  assumes "b64_step (buf, k, out) c = Inr st"
  obtains u where "c = b64_char (take_bit 6 u)"
    "st = (let buf' = push_bit 6 buf OR take_bit 6 u
       in if k + 6 \<ge> 8 then (buf', k - 2, out @ [ucast (take_bit 8 (drop_bit (k - 2) buf'))])
          else (buf', k + 6, out))"
proof -
  obtain n where "B64_DECODE c = Some n" using assms by (auto simp: b64_step_def split: option.splits)
  then obtain v where v: "c = b64_char v" "v = take_bit 6 v" by (rule B64_DECODE_inv)
  have "take_bit 6 v = take_bit 6 (take_bit 6 v)" by simp
  from b64_step_char [OF this, of buf k out] show thesis
    using that [of v] assms v by (simp add: Let_def split: if_splits)
qed

text \<open>A byte the decoder emits, from the two sextets it straddles.\<close>

lemma byte_parts:
  fixes w u v :: u32
  defines "x \<equiv> push_bit 6 (push_bit 6 w OR take_bit 6 u) OR take_bit 6 v"
  shows "sx0 (ucast (take_bit 8 (drop_bit 4 x))) = take_bit 6 u"
    "push_bit 4 (take_bit 2 (ucast (ucast (take_bit 8 (drop_bit 4 x)) :: byte))) = push_bit 4 (drop_bit 4 (take_bit 6 v))"
    "take_bit 4 (drop_bit 4 (ucast (ucast (take_bit 8 (drop_bit 2 x)) :: byte))) = take_bit 4 u"
    "push_bit 2 (take_bit 4 (ucast (ucast (take_bit 8 (drop_bit 2 x)) :: byte))) = push_bit 2 (drop_bit 2 (take_bit 6 v))"
    "take_bit 2 (drop_bit 6 (ucast (ucast (take_bit 8 x) :: byte))) = take_bit 2 u"
    "sx3 (ucast (take_bit 8 x)) = take_bit 6 v"
    "take_bit 4 x = take_bit 4 v" "take_bit 2 x = take_bit 2 v"
  unfolding sx_defs x_def
  by (rule bit_word_eqI; auto simp: bit_simps sub_add_back)+

lemma rejoin:
  "push_bit 4 (drop_bit 4 (take_bit 6 v)) OR take_bit 4 v = take_bit 6 (v :: u32)"
  "push_bit 2 (drop_bit 2 (take_bit 6 v)) OR take_bit 2 v = take_bit 6 (v :: u32)"
  by (rule bit_word_eqI; auto simp: bit_simps sub_add_back not_le)+

lemma sextets_of_bytes:
  fixes w u0 u1 u2 u3 :: u32
  defines "w1 \<equiv> push_bit 6 (push_bit 6 w OR take_bit 6 u0) OR take_bit 6 u1"
  defines "w2 \<equiv> push_bit 6 w1 OR take_bit 6 u2"
  defines "w3 \<equiv> push_bit 6 w2 OR take_bit 6 u3"
  defines "b0 \<equiv> ucast (take_bit 8 (drop_bit 4 w1))" and "b1 \<equiv> ucast (take_bit 8 (drop_bit 2 w2))"
    and "b2 \<equiv> ucast (take_bit 8 w3)"
  shows "sx0 b0 = take_bit 6 u0" "sx1 b0 b1 = take_bit 6 u1" "sx2 b1 b2 = take_bit 6 u2" "sx3 b2 = take_bit 6 u3"
    "take_bit 4 w1 = 0 \<Longrightarrow> sx1 b0 0 = take_bit 6 u1" "take_bit 2 w2 = 0 \<Longrightarrow> sx2 b1 0 = take_bit 6 u2"
  unfolding sx1_def sx2_def b0_def b1_def b2_def w3_def w2_def w1_def
  using rejoin [of u1] rejoin [of u2] by (simp_all only: byte_parts rejoin) simp_all

lemma decode_two:
  assumes "foldR b64_step (w, 0, out) [c0, c1] = Inr st"
  obtains u0 u1 where "c0 = b64_char (take_bit 6 u0)" "c1 = b64_char (take_bit 6 u1)"
    "st = (let w1 = push_bit 6 (push_bit 6 w OR take_bit 6 u0) OR take_bit 6 u1
       in (w1, 4, out @ [ucast (take_bit 8 (drop_bit 4 w1))]))"
proof -
  obtain s1 where s: "b64_step (w, 0, out) c0 = Inr s1" "b64_step s1 c1 = Inr st"
    using assms by (auto simp: result_simps)
  obtain u0 where u0: "c0 = b64_char (take_bit 6 u0)" "s1 = (push_bit 6 w OR take_bit 6 u0, 6, out)"
    by (rule b64_step_inv [OF s(1)]) (simp add: Let_def)
  show thesis
    by (rule b64_step_inv [OF s(2) [unfolded u0(2)]], rule that [OF u0(1)])
      (simp_all add: Let_def del: push_bit_or take_bit_or drop_bit_or)
qed

lemma decode_three:
  assumes "foldR b64_step (w, 0, out) [c0, c1, c2] = Inr st"
  obtains u0 u1 u2 where "c0 = b64_char (take_bit 6 u0)" "c1 = b64_char (take_bit 6 u1)" "c2 = b64_char (take_bit 6 u2)"
    "st = (let w1 = push_bit 6 (push_bit 6 w OR take_bit 6 u0) OR take_bit 6 u1; w2 = push_bit 6 w1 OR take_bit 6 u2
       in (w2, 2, out @ [ucast (take_bit 8 (drop_bit 4 w1)), ucast (take_bit 8 (drop_bit 2 w2))]))"
proof -
  obtain s2 where s: "foldR b64_step (w, 0, out) [c0, c1] = Inr s2" "b64_step s2 c2 = Inr st"
    using assms foldR_append [of b64_step "(w, 0, out)" "[c0, c1]" "[c2]"] by (auto simp: result_simps)
  obtain u0 u1 where u: "c0 = b64_char (take_bit 6 u0)" "c1 = b64_char (take_bit 6 u1)"
    "s2 = (let w1 = push_bit 6 (push_bit 6 w OR take_bit 6 u0) OR take_bit 6 u1
       in (w1, 4, out @ [ucast (take_bit 8 (drop_bit 4 w1))]))"
    by (rule decode_two [OF s(1)])
  show thesis
    by (rule b64_step_inv [OF s(2) [unfolded u(3) Let_def]], rule that [OF u(1,2)])
      (simp_all add: Let_def del: push_bit_or take_bit_or drop_bit_or)
qed

lemma decode_group:
  assumes "foldR b64_step (w, 0, out) [c0, c1, c2, c3] = Inr st"
  obtains w' b0 b1 b2 where "[c0, c1, c2, c3] = toBase64Polyfill [b0, b1, b2]" "st = (w', 0, out @ [b0, b1, b2])"
proof -
  obtain s3 where s: "foldR b64_step (w, 0, out) [c0, c1, c2] = Inr s3" "b64_step s3 c3 = Inr st"
    using assms foldR_append [of b64_step "(w, 0, out)" "[c0, c1, c2]" "[c3]"] by (auto simp: result_simps)
  obtain u0 u1 u2 where u: "c0 = b64_char (take_bit 6 u0)" "c1 = b64_char (take_bit 6 u1)" "c2 = b64_char (take_bit 6 u2)"
    "s3 = (let w1 = push_bit 6 (push_bit 6 w OR take_bit 6 u0) OR take_bit 6 u1; w2 = push_bit 6 w1 OR take_bit 6 u2
       in (w2, 2, out @ [ucast (take_bit 8 (drop_bit 4 w1)), ucast (take_bit 8 (drop_bit 2 w2))]))"
    by (rule decode_three [OF s(1)])
  show thesis
  proof (rule b64_step_inv [OF s(2) [unfolded u(4) Let_def]], rule that)
    fix u3
    assume c3: "c3 = b64_char (take_bit 6 u3)"
    show "[c0, c1, c2, c3] = toBase64Polyfill
      [ucast (take_bit 8 (drop_bit 4 (push_bit 6 (push_bit 6 w OR take_bit 6 u0) OR take_bit 6 u1))),
       ucast (take_bit 8 (drop_bit 2 (push_bit 6 (push_bit 6 (push_bit 6 w OR take_bit 6 u0) OR take_bit 6 u1) OR take_bit 6 u2))),
       ucast (take_bit 8 (push_bit 6 (push_bit 6 (push_bit 6 (push_bit 6 w OR take_bit 6 u0) OR take_bit 6 u1) OR take_bit 6 u2) OR take_bit 6 u3))]"
      unfolding toBase64Polyfill_sextets sextets_of_bytes by (simp add: u c3)
  qed (simp_all add: Let_def del: push_bit_or take_bit_or drop_bit_or)
qed

lemma decode_tail_two:
  assumes "foldR b64_step (w, 0, out) [c0, c1] = Inr (w', k, out')" "take_bit k w' = 0"
  shows "\<exists>b0. out' = out @ [b0] \<and> [c0, c1] = toBase64Polyfill [b0]"
proof -
  obtain u0 u1 where u: "c0 = b64_char (take_bit 6 u0)" "c1 = b64_char (take_bit 6 u1)"
    "(w', k, out') = (let w1 = push_bit 6 (push_bit 6 w OR take_bit 6 u0) OR take_bit 6 u1
       in (w1, 4, out @ [ucast (take_bit 8 (drop_bit 4 w1))]))"
    by (rule decode_two [OF assms(1)])
  have z: "take_bit 4 (push_bit 6 (push_bit 6 w OR take_bit 6 u0) OR take_bit 6 u1) = 0"
    using assms(2) u(3) by (simp only: Let_def prod.inject)
  show ?thesis
    by (rule exI [of _ "ucast (take_bit 8 (drop_bit 4 (push_bit 6 (push_bit 6 w OR take_bit 6 u0) OR take_bit 6 u1)))"])
      (use u in \<open>simp only: toBase64Polyfill_sextets sextets_of_bytes(1) sextets_of_bytes(5) [OF z] Let_def prod.inject list.map\<close>)
qed

lemma decode_tail_three:
  assumes "foldR b64_step (w, 0, out) [c0, c1, c2] = Inr (w', k, out')" "take_bit k w' = 0"
  shows "\<exists>b0 b1. out' = out @ [b0, b1] \<and> [c0, c1, c2] = toBase64Polyfill [b0, b1]"
proof -
  obtain u0 u1 u2 where u: "c0 = b64_char (take_bit 6 u0)" "c1 = b64_char (take_bit 6 u1)" "c2 = b64_char (take_bit 6 u2)"
    "(w', k, out') = (let w1 = push_bit 6 (push_bit 6 w OR take_bit 6 u0) OR take_bit 6 u1; w2 = push_bit 6 w1 OR take_bit 6 u2
       in (w2, 2, out @ [ucast (take_bit 8 (drop_bit 4 w1)), ucast (take_bit 8 (drop_bit 2 w2))]))"
    by (rule decode_three [OF assms(1)])
  have z: "take_bit 2 (push_bit 6 (push_bit 6 (push_bit 6 w OR take_bit 6 u0) OR take_bit 6 u1) OR take_bit 6 u2) = 0"
    using assms(2) u(4) by (simp only: Let_def prod.inject)
  show ?thesis
    by (rule exI [of _ "ucast (take_bit 8 (drop_bit 4 (push_bit 6 (push_bit 6 w OR take_bit 6 u0) OR take_bit 6 u1)))"],
        rule exI [of _ "ucast (take_bit 8 (drop_bit 2 (push_bit 6 (push_bit 6 (push_bit 6 w OR take_bit 6 u0) OR take_bit 6 u1) OR take_bit 6 u2)))"])
      (use u in \<open>simp only: toBase64Polyfill_sextets sextets_of_bytes(1,2) sextets_of_bytes(6) [OF z] Let_def prod.inject list.map\<close>)
qed

lemma list_mod_4:
  "length s mod 4 \<noteq> 1 \<Longrightarrow> length s < 4 \<Longrightarrow> s = [] \<or> (\<exists>c0 c1. s = [c0, c1]) \<or> (\<exists>c0 c1 c2. s = [c0, c1, c2])"
  by (cases s; cases "tl s"; cases "tl (tl s)"; cases "tl (tl (tl s))") auto

lemma decode_canonical:
  assumes "foldR b64_step (w, 0, out) s = Inr (w', k, out')" "take_bit k w' = 0" "length s mod 4 \<noteq> 1"
  shows "\<exists>bs. out' = out @ bs \<and> s = toBase64Polyfill bs"
  using assms
proof (induction "length s" arbitrary: s w out rule: less_induct)
  case less
  show ?case
  proof (cases "length s < 4")
    case True
    with list_mod_4 [OF less.prems(3)] consider "s = []" | c0 c1 where "s = [c0, c1]" | c0 c1 c2 where "s = [c0, c1, c2]"
      by blast
    then show ?thesis
    proof cases
      case 1
      then show ?thesis using less.prems by (intro exI [of _ "[]"]) simp
    next
      case (2 c0 c1)
      then show ?thesis using decode_tail_two less.prems by blast
    next
      case (3 c0 c1 c2)
      then show ?thesis using decode_tail_three less.prems by blast
    qed
  next
    case False
    then obtain c0 c1 c2 c3 t where s: "s = [c0, c1, c2, c3] @ t"
      by (auto simp: numeral_eq_Suc Suc_le_length_iff not_less)
    then obtain st where st: "foldR b64_step (w, 0, out) [c0, c1, c2, c3] = Inr st" "foldR b64_step st t = Inr (w', k, out')"
      using less.prems(1) by (auto simp only: foldR_append result_simps)
    obtain w2 b0 b1 b2 where g: "[c0, c1, c2, c3] = toBase64Polyfill [b0, b1, b2]" "st = (w2, 0, out @ [b0, b1, b2])"
      by (rule decode_group [OF st(1)])
    have "\<exists>bs. out' = (out @ [b0, b1, b2]) @ bs \<and> t = toBase64Polyfill bs"
      using less.hyps [of t w2 "out @ [b0, b1, b2]"] st(2) g(2) less.prems(2,3) s by simp
    then obtain bs where "out' = out @ b0 # b1 # b2 # bs" "t = toBase64Polyfill bs" by auto
    then show ?thesis using s g(1) by (intro exI [of _ "b0 # b1 # b2 # bs"]) (simp add: Let_def)
  qed
qed


lemma fromBase64_canonical:
  assumes "fromBase64Polyfill s = Inr bs" "CHR ''='' \<notin> set s"
  shows "s = toBase64Polyfill bs"
proof -
  have len: "length s mod 4 \<noteq> 1" and
    *: "bindR (foldR b64_step (0, 0, []) s) (\<lambda>(bitBuf, bitCount, result).
          if bitBuf AND (push_bit bitCount 1 - 1) \<noteq> 0 then Inl InvalidBase64 else Inr result) = Inr bs"
    using assms by (auto simp: fromBase64Polyfill_def strip_padding_none Let_def split: if_splits)
  then obtain w k where "foldR b64_step (0, 0, []) s = Inr (w, k, bs)" "take_bit k w = 0"
    by (auto simp: result_simps take_bit_eq_mask mask_eq_exp_minus_1 split: if_splits)
  then show ?thesis using decode_canonical [of 0 "[]" s w k bs] len by auto
qed

text \<open>The bytes that pass the minimality check are the ones the encoder writes.\<close>

lemma redundant_lead:
  assumes "tc_value (a # b # cs) = tc_value (b # cs)"
  shows "(a = 0 \<and> \<not> bit b 7) \<or> (a = 0xff \<and> bit b 7)"
proof -
  define P :: int where "P = 256 ^ Suc (length cs)"
  define x where "x = uval (b # cs)"
  have P: "P \<noteq> 0" by (simp add: P_def)
  have "uint a * P + x - (if bit a 7 then 256 * P else 0) = x - (if bit b 7 then P else 0)"
    using assms unfolding tc_value_def uval_Cons [of a] P_def x_def
    by (simp only: list.sel list.size power_Suc list.distinct simp_thms if_True add_0_right add_Suc_right)
  then have "(uint a - (if bit a 7 then 256 else 0) + (if bit b 7 then 1 else 0)) * P = 0"
    by (cases "bit a 7"; cases "bit b 7") (simp_all add: left_diff_distrib distrib_right)
  then have "uint a - (if bit a 7 then 256 else 0) + (if bit b 7 then 1 else 0) = 0"
    using P by (metis mult_eq_0_iff)
  then have "(uint a = 0 \<and> \<not> bit b 7) \<or> (uint a = 255 \<and> bit b 7)"
    using uint_byte [of a] by (cases "bit a 7"; cases "bit b 7") simp_all
  moreover have "a = 0xff \<longleftrightarrow> uint a = 255" "a = 0 \<longleftrightarrow> uint a = 0"
    using word_uint_eq_iff [of a "0xff"] word_uint_eq_iff [of a 0] by simp_all
  ultimately show ?thesis by (simp only:)
qed

lemma minimal_check:
  assumes "bs \<noteq> []" and ok: "\<not> (length bs > 1 \<and>
     ((bs ! 0 = 0x00 \<and> bs ! 1 AND 0x80 = 0) \<or> (bs ! 0 = 0xff \<and> bs ! 1 AND 0x80 \<noteq> 0)))"
  shows "mtc (tc_value bs) = bs"
proof -
  have b: "be_bytes (length bs) (tc_value bs) = bs" and f: "fits (length bs) (tc_value bs)"
    using assms(1) by (rule be_bytes_tc_value, rule fits_tc_value)
  have "length bs = 1 \<or> \<not> fits (length bs - 1) (tc_value bs)"
  proof (rule ccontr)
    assume "\<not> ?thesis"
    then have n1: "length bs \<noteq> 1" and short: "fits (length bs - 1) (tc_value bs)" by auto
    obtain a c cs where bs: "bs = a # c # cs"
      using assms(1) n1 by (cases bs; cases "tl bs") auto
    have "be_bytes (length bs - 1) (tc_value bs) = drop 1 bs"
      using drop_be_bytes [of 1 "length bs" "tc_value bs"] assms(1) unfolding b by (simp add: Suc_le_eq)
    moreover have "1 \<le> length bs - 1" using bs by simp
    ultimately have "tc_value (drop 1 bs) = tc_value bs"
      using tc_value_be_bytes [OF _ short] by (simp only:)
    then have "tc_value (a # c # cs) = tc_value (c # cs)" by (simp add: bs)
    from redundant_lead [OF this] show False using ok by (auto simp: bs and_80_zero)
  qed
  then have "mtc (tc_value bs) = be_bytes (length bs) (tc_value bs)"
    using assms(1) by (intro mtc_eqI [OF _ f]) (auto simp: Suc_le_eq)
  then show ?thesis by (simp only: b)
qed

lemma minimal_bytes_of_mtc:
  "\<not> (length (mtc v) > 1 \<and> ((mtc v ! 0 = 0x00 \<and> mtc v ! 1 AND 0x80 = 0) \<or> (mtc v ! 0 = 0xff \<and> mtc v ! 1 AND 0x80 \<noteq> 0)))"
proof
  assume h: "length (mtc v) > 1 \<and> ((mtc v ! 0 = 0x00 \<and> mtc v ! 1 AND 0x80 = 0) \<or> (mtc v ! 0 = 0xff \<and> mtc v ! 1 AND 0x80 \<noteq> 0))"
  then obtain a b cs where m: "mtc v = a # b # cs" by (cases "mtc v"; cases "tl (mtc v)") auto
  from h consider "a = 0" "\<not> bit b 7" | "a = 0xff" "bit b 7" by (auto simp: m and_80_zero)
  then have "tc_value (a # b # cs) = tc_value (b # cs)"
    by cases (simp_all add: tc_value_def uval_Cons [of 0] uval_Cons [of "0xff"] bit7_uint [of "0xff"])
  then have "length (mtc v) \<le> length (b # cs)"
    using mtc_shortest [of "b # cs"] tc_value_mtc [of v] by (simp add: m)
  then show False by (simp add: m)
qed

section \<open>Properties\<close>

text \<open>C24. The decoder inverts the encoder on every byte string, and among the strings without padding
  it accepts exactly the encoder's outputs, so that each byte sequence has one unpadded form.\<close>

theorem base64url_canonical_round_trip:
  "fromBase64Polyfill (toBase64Polyfill bs) = Inr bs \<and>
   (fromBase64Polyfill s = Inr bs \<longrightarrow> CHR ''='' \<notin> set s \<longrightarrow> s = toBase64Polyfill bs)"
  using fromBase64_toBase64 fromBase64_canonical by blast

theorem base64url_canonical_round_trip_witness:
  "fromBase64Polyfill ''AQ'' = Inr [1] \<and> ''AQ'' = toBase64Polyfill [1] \<and> fromBase64Polyfill ''AR'' = Inl InvalidBase64"
proof -
  have 1: "fromBase64Polyfill ''AQ'' = Inr [1]" by code_simp
  have 2: "fromBase64Polyfill ''AR'' = Inl InvalidBase64" by code_simp
  from 1 2 base64url_canonical_round_trip [of "[1]" "''AQ''"] show ?thesis by simp
qed

text \<open>The string form of big integers: every integer has one, which reads back as that integer,
  and the reader accepts no other string without padding for it.\<close>

theorem bigint_string_canonical_round_trip:
  "(\<exists>s. bigintToUnpaddedBase64url useHex v = Inr s \<and> bigintFromUnpaddedBase64url useHex' s = Inr v) \<and>
   (bigintFromUnpaddedBase64url useHex' t = Inr v \<longrightarrow> CHR ''='' \<notin> set t \<longrightarrow>
     bigintToUnpaddedBase64url useHex v = Inr t)"
proof (intro conjI impI)
  have ne: "mtc v \<noteq> []" by (subst mtc.simps) simp
  have "\<not> (length (mtc v) > 1 \<and> ((mtc v ! 0 = 0x00 \<and> mtc v ! 1 AND 0x80 = 0) \<or> (mtc v ! 0 = 0xff \<and> mtc v ! 1 AND 0x80 \<noteq> 0)))"
    by (rule minimal_bytes_of_mtc)
  then show "\<exists>s. bigintToUnpaddedBase64url useHex v = Inr s \<and> bigintFromUnpaddedBase64url useHex' s = Inr v"
    using ne bigint_exports [of _ v] bigint_decoders [of useHex' "mtc v"]
    by (simp add: bigintToUnpaddedBase64url_def bigintFromUnpaddedBase64url_def fromBase64_toBase64 tc_value_mtc)
next
  assume h: "bigintFromUnpaddedBase64url useHex' t = Inr v" and pad: "CHR ''='' \<notin> set t"
  then obtain bs where bs: "fromBase64Polyfill t = Inr bs" and v: "bigintFromMinimalTwosComplement useHex' bs = Inr v"
    and ok: "\<not> (length bs > 1 \<and> ((bs ! 0 = 0x00 \<and> bs ! 1 AND 0x80 = 0) \<or> (bs ! 0 = 0xff \<and> bs ! 1 AND 0x80 \<noteq> 0)))"
    by (auto simp: bigintFromUnpaddedBase64url_def result_simps split: if_splits)
  then have "bs \<noteq> []" "v = tc_value bs" by (auto simp: bigint_decoders split: if_splits)
  then show "bigintToUnpaddedBase64url useHex v = Inr t"
    using minimal_check [OF _ ok] fromBase64_canonical [OF bs pad] by (simp add: bigintToUnpaddedBase64url_def bigint_exports)
qed

theorem bigint_string_canonical_round_trip_witness:
  "bigintFromUnpaddedBase64url False ''AIA'' = Inr 128 \<and> bigintToUnpaddedBase64url True 128 = Inr ''AIA''"
proof -
  have 1: "bigintFromUnpaddedBase64url False ''AIA'' = Inr 128" by code_simp
  with bigint_string_canonical_round_trip [of True 128 False "''AIA''"] show ?thesis by simp
qed

end
