(* ===== verification/ValueHash.thy ===== *)
theory ValueHash
  imports FabricValue Base64url
begin

text \<open>
  The canonical content hash of a value (\<^verbatim>\<open>base/data-model/src/value-hash\<close>) and the equality of
  values built on it (\<^verbatim>\<open>base/data-model/src/comparison\<close>). \<open>feedValue\<close> is the byte string a
  \<^verbatim>\<open>ValueHasher\<close> hands its SHA-256 context; SHA-256 itself is code outside the repository and is the
  field \<open>sha256\<close> of a host. The other fields are facts of a run that a value of the model does not
  carry: \<open>useHex\<close>, the host has \<^verbatim>\<open>Uint8Array.fromHex\<close>; \<open>identical\<close>, two equal operands are one
  object; \<open>deepFrozen\<close>, an operand is deep-frozen. No result below depends on the last three.
  The caches hold what the functions return, and the model has none of them.
\<close>

record host =
  sha256 :: "bytes \<Rightarrow> bytes"
  useHex :: bool
  identical :: "fval \<Rightarrow> fval \<Rightarrow> bool"
  deepFrozen :: "fval \<Rightarrow> bool"

datatype hash_error = UniqueSymbol | OpaqueHandles | StubCodec | LengthOutOfRange | BigintFailure

section \<open>Feeding\<close>

definition MAX_DIRECT_STRING_LENGTH :: nat where "MAX_DIRECT_STRING_LENGTH = 64"

definition str_bytes :: "string \<Rightarrow> bytes" where
  "str_bytes s = map (\<lambda>c. of_nat (of_char c)) s"

definition getStringRep :: "host \<Rightarrow> string \<Rightarrow> bytes" where
  "getStringRep h value =
     (let wtf8Buf = str_bytes value; wtf8Length = length wtf8Buf in
      if wtf8Length \<le> MAX_DIRECT_STRING_LENGTH then 0x24 # of_nat wtf8Length # wtf8Buf
      else 0xf0 # sha256 h wtf8Buf)"

definition feedLength :: "nat \<Rightarrow> hash_error + bytes" where
  "feedLength value =
     (case encodeULEB128 (Whole (int value)) of Inl _ \<Rightarrow> Inl LengthOutOfRange | Inr bs \<Rightarrow> Inr bs)"

definition float64BytesOf :: "f64 \<Rightarrow> bytes" where
  "float64BytesOf value =
     (if f64_nan value then [0x7f, 0xf8, 0x00, 0x00, 0x00, 0x00, 0x00, 0x00]
      else be_bytes 8 (uint value))"

definition feedCounted :: "bytes \<Rightarrow> hash_error + bytes" where
  "feedCounted bytes = bindR (feedLength (length bytes)) (\<lambda>len. Inr (len @ bytes))"

definition feedBigint :: "host \<Rightarrow> int \<Rightarrow> hash_error + bytes" where
  "feedBigint h value =
     (case bigintToMinimalTwosComplement (useHex h) value of
        Inl _ \<Rightarrow> Inl BigintFailure
      | Inr bytes \<Rightarrow> feedCounted bytes)"

definition feedStringOrNull :: "host \<Rightarrow> string option \<Rightarrow> bytes" where
  "feedStringOrNull h v = (case v of None \<Rightarrow> [0x20] | Some s \<Rightarrow> getStringRep h s)"

definition tagged :: "byte \<Rightarrow> hash_error + bytes \<Rightarrow> hash_error + bytes" where
  "tagged tag r = bindR r (\<lambda>bytes. Inr (tag # bytes))"

fun feedPrimitive :: "host \<Rightarrow> fprim \<Rightarrow> hash_error + bytes" where
  "feedPrimitive h (EpochNsec v) = tagged 0x27 (feedBigint h v)"
| "feedPrimitive h (EpochDay v) = tagged 0x28 (feedBigint h v)"
| "feedPrimitive h (DurationNsec v) = tagged 0x2e (feedBigint h v)"
| "feedPrimitive h (DurationDay v) = tagged 0x2f (feedBigint h v)"
| "feedPrimitive h (HashPrim tag bytes) =
     tagged 0x29 (bindR (feedCounted bytes) (\<lambda>b. Inr (getStringRep h tag @ b)))"
| "feedPrimitive h (BytesPrim bytes) = tagged 0x25 (feedCounted bytes)"
| "feedPrimitive h (OpaqueKeyPair _ _) = Inl OpaqueHandles"
| "feedPrimitive h (KeyPairPrim algorithm pub priv) =
     tagged 0x2c (bindR (tagged 0x25 (feedCounted pub)) (\<lambda>p. bindR (tagged 0x25 (feedCounted priv))
       (\<lambda>q. Inr (getStringRep h algorithm @ p @ q))))"
| "feedPrimitive h (RegExpPrim source flags flavor) =
     Inr (0x2b # getStringRep h source @ getStringRep h flags @ getStringRep h flavor)"
| "feedPrimitive h (UnavailablePrim reason errorKind message) =
     Inr (0x2d # getStringRep h reason @ feedStringOrNull h errorKind @ feedStringOrNull h message)"

text \<open>The positions of an array as \<^verbatim>\<open>#feedArray\<close> meets them: runs of consecutive holes, by their
  length, and elements.\<close>

fun hole_runs :: "nat \<Rightarrow> 'a option list \<Rightarrow> (nat + 'a) list" where
  "hole_runs runLen [] = (if runLen = 0 then [] else [Inl runLen])"
| "hole_runs runLen (None # xs) = hole_runs (Suc runLen) xs"
| "hole_runs runLen (Some v # xs) = (if runLen = 0 then [] else [Inl runLen]) @ Inr v # hole_runs 0 xs"

lemma Inr_in_hole_runs [termination_simp]: "Inr v \<in> set (hole_runs n xs) \<Longrightarrow> Some v \<in> set xs"
  by (induction n xs rule: hole_runs.induct) (auto split: if_splits)

definition feedRun :: "nat \<Rightarrow> hash_error + bytes" where
  "feedRun runLen = tagged 0x01 (feedLength runLen)"

function (sequential) feedValue :: "host \<Rightarrow> fval \<Rightarrow> hash_error + bytes" where
  "feedValue h (FBool b) = Inr [0x22, if b then 0x01 else 0x00]"
| "feedValue h (FNum x) = Inr (0x23 # float64BytesOf x)"
| "feedValue h (FStr s) = Inr (getStringRep h s)"
| "feedValue h (FBigInt i) = tagged 0x26 (feedBigint h i)"
| "feedValue h (FSym key) = Inr (0x2a # getStringRep h key)"
| "feedValue h (FUniqueSym _) = Inl UniqueSymbol"
| "feedValue h FUndefined = Inr [0x21]"
| "feedValue h FNull = Inr [0x20]"
| "feedValue h (FPrim p) = feedPrimitive h p"
| "feedValue h (FArr xs) =
     tagged 0x10 (bindR (mapR (\<lambda>seg. case seg of Inl runLen \<Rightarrow> feedRun runLen | Inr v \<Rightarrow> feedValue h v)
       (hole_runs 0 xs)) (\<lambda>bs. Inr (concat bs @ [0x00])))"
| "feedValue h (FObj ps) =
     tagged 0x11 (bindR (mapR (\<lambda>(key, v). bindR (feedValue h v) (\<lambda>b. Inr (getStringRep h key @ b)))
       (sort_key fst ps)) (\<lambda>bs. Inr (concat bs @ [0x00])))"
| "feedValue h (FInst _ tag state) =
     tagged 0x12 (case state of None \<Rightarrow> Inl StubCodec
       | Some st \<Rightarrow> bindR (feedValue h st) (\<lambda>b. Inr (getStringRep h tag @ b)))"
  by pat_completeness auto
termination
  by (relation "measure (size \<circ> snd)") (auto simp: termination_simp dest: Inr_in_hole_runs)

section \<open>Hash strings\<close>

definition computeHash :: "host \<Rightarrow> fval \<Rightarrow> hash_error + bytes" where
  "computeHash h value = bindR (feedValue h value) (\<lambda>bytes. Inr (sha256 h bytes))"

definition hashStringOf :: "host \<Rightarrow> fval \<Rightarrow> hash_error + string" where
  "hashStringOf h value = bindR (computeHash h value) (\<lambda>digest. Inr (toBase64Polyfill digest))"

section \<open>Content equality\<close>

definition objectIs :: "host \<Rightarrow> fval \<Rightarrow> fval \<Rightarrow> bool" where
  "objectIs h a b =
     (case (a, b) of
        (FNum x, FNum y) \<Rightarrow> f64_is x y
      | _ \<Rightarrow> a = b \<and> (isObjectOrArray a \<longrightarrow> identical h a b))"

definition hashesEqual :: "host \<Rightarrow> fval \<Rightarrow> fval \<Rightarrow> hash_error + bool" where
  "hashesEqual h a b =
     bindR (hashStringOf h a) (\<lambda>x. bindR (hashStringOf h b) (\<lambda>y. Inr (x = y)))"

datatype object_subtype = SubArray | SubPlain | SubSpecial

fun objectSubtypeOf :: "fval \<Rightarrow> object_subtype" where
  "objectSubtypeOf (FArr _) = SubArray"
| "objectSubtypeOf (FObj _) = SubPlain"
| "objectSubtypeOf _ = SubSpecial"

definition valueEqual :: "host \<Rightarrow> fval \<Rightarrow> fval \<Rightarrow> hash_error + bool" where
  "valueEqual h a b =
     (if objectIs h a b then Inr True
      else if \<not> isObjectOrArray a then Inr False
      else if \<not> isObjectOrArray b then Inr False
      else if deepFrozen h a \<and> deepFrozen h b then hashesEqual h a b
      else if objectSubtypeOf a \<noteq> objectSubtypeOf b then Inr False
      else
        (case (a, b) of
           (FArr xs, FArr ys) \<Rightarrow> if length xs \<noteq> length ys then Inr False else hashesEqual h a b
         | (FObj ps, FObj qs) \<Rightarrow> if length ps \<noteq> length qs then Inr False else hashesEqual h a b
         | (FInst _ s _, FInst _ t _) \<Rightarrow> if s \<noteq> t then Inr False else hashesEqual h a b
         | (FPrim p, FPrim q) \<Rightarrow>
             if fprim_class p \<noteq> fprim_class q then Inr False else hashesEqual h a b
         | _ \<Rightarrow> Inr False))"

definition MAX_WALK_DEPTH :: nat where "MAX_WALK_DEPTH = 256"

text \<open>The walk: \<open>Inr None\<close> is the \<^verbatim>\<open>undefined\<close> that abandons it.\<close>

fun walkEqual :: "host \<Rightarrow> nat \<Rightarrow> fval \<Rightarrow> fval \<Rightarrow> hash_error + bool option"
and walkArrays :: "host \<Rightarrow> nat \<Rightarrow> fval option list \<Rightarrow> fval option list \<Rightarrow> hash_error + bool option"
and walkRecords :: "host \<Rightarrow> nat \<Rightarrow> props \<Rightarrow> props \<Rightarrow> hash_error + bool option" where
  "walkEqual h depth a b =
     (if objectIs h a b then Inr (Some True)
      else if \<not> isFabricPlainContainer a \<or> \<not> isFabricPlainContainer b
      then bindR (valueEqual h a b) (\<lambda>r. Inr (Some r))
      else if depth \<ge> MAX_WALK_DEPTH then Inr None
      else
        (case a of
           FArr xs \<Rightarrow>
             (case b of
                FArr ys \<Rightarrow> if length xs \<noteq> length ys then Inr (Some False) else walkArrays h (Suc depth) xs ys
              | _ \<Rightarrow> Inr (Some False))
         | FObj ps \<Rightarrow>
             (case b of
                FObj qs \<Rightarrow> if length ps \<noteq> length qs then Inr (Some False) else walkRecords h (Suc depth) ps qs
              | _ \<Rightarrow> Inr (Some False))
         | _ \<Rightarrow> Inr (Some False)))"
| "walkArrays h depth [] ys = Inr (Some True)"
| "walkArrays h depth (None # xs) ys =
     (case ys of None # ys' \<Rightarrow> walkArrays h depth xs ys' | _ \<Rightarrow> Inr (Some False))"
| "walkArrays h depth (Some x # xs) ys =
     (case ys of
        Some y # ys' \<Rightarrow>
          bindR (walkEqual h depth x y) (\<lambda>r. if r = Some True then walkArrays h depth xs ys' else Inr r)
      | _ \<Rightarrow> Inr (Some False))"
| "walkRecords h depth [] qs = Inr (Some True)"
| "walkRecords h depth ((k, v) # ps) qs =
     (case map_of qs k of
        None \<Rightarrow> Inr (Some False)
      | Some w \<Rightarrow>
          bindR (walkEqual h depth v w) (\<lambda>r. if r = Some True then walkRecords h depth ps qs else Inr r))"

declare walkEqual.simps [simp del]

definition valueEqualByWalk :: "host \<Rightarrow> fval \<Rightarrow> fval \<Rightarrow> hash_error + bool" where
  "valueEqualByWalk h a b =
     bindR (walkEqual h 0 a b) (\<lambda>r. case r of None \<Rightarrow> valueEqual h a b | Some v \<Rightarrow> Inr v)"

section \<open>Reading the feed back\<close>

lemma str_bytes_inj: "str_bytes s = str_bytes t \<longleftrightarrow> s = t"
proof -
  have u: "unat (of_nat (of_char c) :: byte) = of_char c" for c
    by (simp add: unat_of_nat)
  have "inj (\<lambda>c. of_nat (of_char c) :: byte)"
    by (rule injI) (metis u of_char_eq_iff)
  then show ?thesis by (auto simp: str_bytes_def inj_map_eq_map)
qed

text \<open>What a host's SHA-256 must do for a hash to tell two values apart: digests of 32 bytes, and no
  two different strings among the long ones at hand with one digest.\<close>

definition sha_ok :: "host \<Rightarrow> bytes set \<Rightarrow> bool" where
  "sha_ok h S \<longleftrightarrow> (\<forall>x. length (sha256 h x) = 32) \<and> inj_on (sha256 h) S"

definition long_bytes :: "string \<Rightarrow> bytes list" where
  "long_bytes s = (if length s \<le> MAX_DIRECT_STRING_LENGTH then [] else [str_bytes s])"

lemma getStringRep_short:
  "length s \<le> MAX_DIRECT_STRING_LENGTH \<Longrightarrow> getStringRep h s = 0x24 # of_nat (length s) # str_bytes s"
  "\<not> length s \<le> MAX_DIRECT_STRING_LENGTH \<Longrightarrow> getStringRep h s = 0xf0 # sha256 h (str_bytes s)"
  by (simp_all add: getStringRep_def str_bytes_def)

lemma getStringRep_read:
  assumes "sha_ok h S" "set (long_bytes s) \<subseteq> S" "set (long_bytes t) \<subseteq> S"
    and eq: "getStringRep h s @ r = getStringRep h t @ r'"
  shows "s = t \<and> r = r'"
proof (cases "length s \<le> MAX_DIRECT_STRING_LENGTH"; cases "length t \<le> MAX_DIRECT_STRING_LENGTH")
  assume l: "length s \<le> MAX_DIRECT_STRING_LENGTH" "length t \<le> MAX_DIRECT_STRING_LENGTH"
  then have e: "(of_nat (length s) :: byte) = of_nat (length t)" "str_bytes s @ r = str_bytes t @ r'"
    using eq by (simp_all add: getStringRep_short)
  have u: "unat (of_nat (length s) :: byte) = length s" "unat (of_nat (length t) :: byte) = length t"
    using l by (simp_all add: unat_of_nat MAX_DIRECT_STRING_LENGTH_def)
  have "length s = length t" using arg_cong [OF e(1), of unat] by (simp only: u)
  then have "length (str_bytes s) = length (str_bytes t)" by (simp add: str_bytes_def)
  then show ?thesis using e(2) by (simp add: str_bytes_inj)
next
  assume l: "\<not> length s \<le> MAX_DIRECT_STRING_LENGTH" "\<not> length t \<le> MAX_DIRECT_STRING_LENGTH"
  then have "sha256 h (str_bytes s) @ r = sha256 h (str_bytes t) @ r'"
    using eq by (simp add: getStringRep_short)
  moreover have "length (sha256 h (str_bytes s)) = length (sha256 h (str_bytes t))"
    using assms(1) by (simp add: sha_ok_def)
  ultimately have "sha256 h (str_bytes s) = sha256 h (str_bytes t)" "r = r'" by simp_all
  moreover have "str_bytes s \<in> S" "str_bytes t \<in> S"
    using l assms(2,3) by (simp_all add: long_bytes_def)
  ultimately show ?thesis
    using assms(1) inj_onD [of "sha256 h" S "str_bytes s" "str_bytes t"]
    by (simp add: sha_ok_def str_bytes_inj)
qed (use eq in \<open>simp_all add: getStringRep_short\<close>)

lemma feedLength_read:
  "feedLength m = Inr x \<Longrightarrow> feedLength n = Inr y \<Longrightarrow> x @ r = y @ s \<Longrightarrow> m = n \<and> r = s"
  by (rule uleb.read [of m x n y]) (auto simp: feedLength_def uleb_enc_def split: sum.splits)

lemma feedCounted_read:
  assumes "feedCounted a = Inr x" "feedCounted b = Inr y" "x @ r = y @ s"
  shows "a = b \<and> r = s"
proof -
  obtain m n where "feedLength (length a) = Inr m" "feedLength (length b) = Inr n" "x = m @ a" "y = n @ b"
    using assms(1,2) by (auto simp: feedCounted_def result_simps)
  with feedLength_read [of "length a" m "length b" n "a @ r" "b @ s"] assms(3) show ?thesis by auto
qed

lemma feedBigint_read:
  assumes "feedBigint h a = Inr x" "feedBigint h b = Inr y" "x @ r = y @ s"
  shows "a = b \<and> r = s"
  using assms feedCounted_read [of "mtc a" x "mtc b" y r s] mtc_inj [of a b]
  by (simp add: feedBigint_def bigint_exports)

lemma float64BytesOf_canon: "float64BytesOf x = be_bytes 8 (uint (canon_num x))"
proof -
  have "be_bytes 8 (uint f64_NaN) = [0x7f, 0xf8, 0x00, 0x00, 0x00, 0x00, 0x00, 0x00]"
    by code_simp
  then show ?thesis by (simp add: float64BytesOf_def canon_num_def)
qed

lemma float64BytesOf_read:
  assumes "float64BytesOf x @ r = float64BytesOf y @ s"
  shows "canon_num x = canon_num y \<and> r = s"
proof -
  have e: "be_bytes 8 (uint (canon_num x)) = be_bytes 8 (uint (canon_num y))" "r = s"
    using assms by (simp_all add: float64BytesOf_canon)
  have "uint (w :: f64) mod 256 ^ 8 = uint w" for w
    using uint_lt2p [of w] by (simp add: mod_pos_pos_trivial)
  then have "uint (canon_num x) = uint (canon_num y)"
    using arg_cong [OF e(1), of uval] by (simp add: uval_be_bytes)
  then show ?thesis using e(2) by (simp add: word_uint_eq_iff)
qed

lemma feedStringOrNull_read:
  assumes "sha_ok h S" "\<And>u. s = Some u \<Longrightarrow> set (long_bytes u) \<subseteq> S" "\<And>u. t = Some u \<Longrightarrow> set (long_bytes u) \<subseteq> S"
    and "feedStringOrNull h s @ r = feedStringOrNull h t @ r'"
  shows "s = t \<and> r = r'"
proof (cases s)
  case None
  then show ?thesis using assms(4) by (cases t) (auto simp: feedStringOrNull_def getStringRep_def Let_def split: if_splits)
next
  case (Some u)
  show ?thesis
  proof (cases t)
    case None
    then show ?thesis using assms(4) Some by (auto simp: feedStringOrNull_def getStringRep_def Let_def split: if_splits)
  next
    case t: (Some u')
    then show ?thesis using assms Some getStringRep_read [of h S u u' r r'] by (simp add: feedStringOrNull_def)
  qed
qed

text \<open>The runs determine the array: expanding them gives it back.\<close>

primrec unrun :: "(nat + 'a) list \<Rightarrow> 'a option list" where
  "unrun [] = []"
| "unrun (seg # segs) = (case seg of Inl n \<Rightarrow> replicate n None | Inr v \<Rightarrow> [Some v]) @ unrun segs"

lemma unrun_hole_runs: "unrun (hole_runs n xs) = replicate n None @ xs"
  by (induction n xs rule: hole_runs.induct) (auto simp: replicate_app_Cons_same)

lemma hole_runs_map: "hole_runs n (map (map_option f) xs) = map (map_sum id f) (hole_runs n xs)"
  by (induction n xs rule: hole_runs.induct) auto

lemma terminated_read:
  assumes "\<And>a b x y r s. a \<in> set as \<Longrightarrow> b \<in> set bs \<Longrightarrow> f a = Inr x \<Longrightarrow> f b = Inr y \<Longrightarrow> x @ r = y @ s \<Longrightarrow> g a = g b \<and> r = s"
    and "\<And>a x. a \<in> set as \<union> set bs \<Longrightarrow> f a = Inr x \<Longrightarrow> x \<noteq> [] \<and> hd x \<noteq> stop"
    and "mapR f as = Inr xs" "mapR f bs = Inr ys" "concat xs @ stop # r = concat ys @ stop # s"
  shows "map g as = map g bs \<and> r = s"
  using assms
proof (induction as arbitrary: bs xs ys)
  case Nil
  show ?case
  proof (cases bs)
    case (Cons b bs')
    then obtain y ys' where "f b = Inr y" "ys = y # ys'" using Nil(4) by (auto simp: result_simps)
    then have "y \<noteq> []" "hd y \<noteq> stop" using Nil(2) [of b y] Cons by auto
    then show ?thesis using Nil \<open>ys = y # ys'\<close> by (cases y) auto
  qed (use Nil in auto)
next
  case (Cons a as)
  obtain x xs' where x: "f a = Inr x" "xs = x # xs'" "mapR f as = Inr xs'" using Cons.prems(3) by (auto simp: result_simps)
  have x': "x \<noteq> []" "hd x \<noteq> stop" using Cons.prems(2) [of a x] x by auto
  show ?case
  proof (cases bs)
    case Nil
    then show ?thesis using Cons.prems x x' by (cases x) auto
  next
    case b: (Cons b bs')
    then obtain y ys' where y: "f b = Inr y" "ys = y # ys'" "mapR f bs' = Inr ys'" using Cons.prems(4) by (auto simp: result_simps)
    have h: "g a = g b" "concat xs' @ stop # r = concat ys' @ stop # s"
      using Cons.prems(1) [of a b x y "concat xs' @ stop # r" "concat ys' @ stop # s"] Cons.prems(5) x y b by auto
    have "map g as = map g bs' \<and> r = s"
    proof (rule Cons.IH [OF _ _ x(3) y(3) h(2)])
      fix a' b' x y r s
      assume "a' \<in> set as" "b' \<in> set bs'" "f a' = Inr x" "f b' = Inr y" "x @ r = y @ s"
      then show "g a' = g b' \<and> r = s" using Cons.prems(1) [of a' b' x y r s] b by simp
    next
      fix a' x
      assume "a' \<in> set as \<union> set bs'" "f a' = Inr x"
      then show "x \<noteq> [] \<and> hd x \<noteq> stop" using Cons.prems(2) [of a' x] b by auto
    qed
    then show ?thesis using h(1) b by simp
  qed
qed

section \<open>The feed determines the canonical form\<close>

lemma insort_key_map: "(\<And>x. fst (f x) = fst x) \<Longrightarrow> insort_key fst (f x) (map f xs) = map f (insort_key fst x xs)"
  by (induction xs) auto

lemma sort_key_map: "(\<And>x. fst (f x) = fst x) \<Longrightarrow> sort_key fst (map f xs) = map f (sort_key fst xs)"
  by (induction xs) (simp_all add: insort_key_map)

lemma mapR_map: "mapR f (map g xs) = mapR (\<lambda>x. f (g x)) xs"
  by (induction xs) auto

lemma feedValue_canon: "feedValue h (canon v) = feedValue h v"
proof (induction v)
  case (FArr xs)
  have "mapR (\<lambda>seg. case seg of Inl n \<Rightarrow> feedRun n | Inr v \<Rightarrow> feedValue h v) (hole_runs 0 (map (map_option canon) xs))
    = mapR (\<lambda>seg. case seg of Inl n \<Rightarrow> feedRun n | Inr v \<Rightarrow> feedValue h v) (hole_runs 0 xs)"
    unfolding hole_runs_map mapR_map
    by (rule mapR_cong) (auto simp: FArr dest!: Inr_in_hole_runs split: sum.splits)
  then show ?case by simp
next
  case (FObj ps)
  let ?f = "\<lambda>(key, v). bindR (feedValue h v) (\<lambda>b. Inr (getStringRep h key @ b))"
  have "mapR ?f (map (map_prod id canon) (sort_key fst ps)) = mapR ?f (sort_key fst ps)"
    unfolding mapR_map by (rule mapR_cong) (auto simp: FObj)
  then show ?case
    using sort_key_map [of "map_prod id canon" ps]
    by (simp add: sort_key_id_if_sorted)
next
  case (FInst c tag st)
  then show ?case by (cases st) auto
next
  case (FNum x)
  then show ?case by (simp add: float64BytesOf_canon canon_num_def f64_nan_def)
qed simp_all

fun prim_long :: "fprim \<Rightarrow> bytes list" where
  "prim_long (HashPrim tag _) = long_bytes tag"
| "prim_long (RegExpPrim a b c) = long_bytes a @ long_bytes b @ long_bytes c"
| "prim_long (KeyPairPrim a _ _) = long_bytes a"
| "prim_long (UnavailablePrim a b c) = long_bytes a @ (case b of None \<Rightarrow> [] | Some s \<Rightarrow> long_bytes s) @ (case c of None \<Rightarrow> [] | Some s \<Rightarrow> long_bytes s)"
| "prim_long _ = []"


text \<open>The byte strings that SHA-256 is applied to inside the feed of a value: its long strings.\<close>

fun long_strings :: "fval \<Rightarrow> bytes list" where
  "long_strings (FStr s) = long_bytes s"
| "long_strings (FSym s) = long_bytes s"
| "long_strings (FPrim p) = prim_long p"
| "long_strings (FArr xs) = concat (map (\<lambda>x. case x of None \<Rightarrow> [] | Some v \<Rightarrow> long_strings v) xs)"
| "long_strings (FObj ps) = concat (map (\<lambda>(k, v). long_bytes k @ long_strings v) ps)"
| "long_strings (FInst _ tag st) = long_bytes tag @ (case st of None \<Rightarrow> [] | Some v \<Rightarrow> long_strings v)"
| "long_strings _ = []"

fun prim_tag :: "fprim \<Rightarrow> byte" where
  "prim_tag (EpochNsec _) = 0x27"
| "prim_tag (EpochDay _) = 0x28"
| "prim_tag (DurationNsec _) = 0x2e"
| "prim_tag (DurationDay _) = 0x2f"
| "prim_tag (HashPrim _ _) = 0x29"
| "prim_tag (BytesPrim _) = 0x25"
| "prim_tag (RegExpPrim _ _ _) = 0x2b"
| "prim_tag (KeyPairPrim _ _ _) = 0x2c"
| "prim_tag (OpaqueKeyPair _ _) = 0x2c"
| "prim_tag (UnavailablePrim _ _ _) = 0x2d"

fun value_tag :: "fval \<Rightarrow> byte" where
  "value_tag (FBool _) = 0x22"
| "value_tag (FNum _) = 0x23"
| "value_tag (FStr s) = (if length s \<le> MAX_DIRECT_STRING_LENGTH then 0x24 else 0xf0)"
| "value_tag (FBigInt _) = 0x26"
| "value_tag (FSym _) = 0x2a"
| "value_tag (FUniqueSym _) = 0x2a"
| "value_tag FUndefined = 0x21"
| "value_tag FNull = 0x20"
| "value_tag (FPrim p) = prim_tag p"
| "value_tag (FArr _) = 0x10"
| "value_tag (FObj _) = 0x11"
| "value_tag (FInst _ _ _) = 0x12"

lemma tagged_eq_Inr: "tagged t r = Inr x \<longleftrightarrow> (\<exists>y. r = Inr y \<and> x = t # y)"
  by (auto simp: tagged_def result_simps)

lemma prim_tag_feed: "feedPrimitive h p = Inr x \<Longrightarrow> x \<noteq> [] \<and> hd x = prim_tag p"
  by (cases p) (auto simp: tagged_eq_Inr)

lemma feed_tag: "feedValue h v = Inr x \<Longrightarrow> x \<noteq> [] \<and> hd x = value_tag v"
  by (cases v) (auto simp: tagged_eq_Inr getStringRep_short prim_tag_feed)

lemma bigint_prims_read:
  assumes "tagged t (feedBigint h a) = Inr x" "tagged t (feedBigint h b) = Inr y" "x @ r = y @ s"
  shows "a = b \<and> r = s"
  using assms feedBigint_read [of h a _ b _ r s] by (auto simp: tagged_eq_Inr)

lemma counted_read:
  assumes "tagged t (feedCounted a) = Inr x" "tagged t (feedCounted b) = Inr y" "x @ r = y @ s"
  shows "a = b \<and> r = s"
  using assms feedCounted_read [of a _ b _ r s] by (auto simp: tagged_eq_Inr)

lemma feedPrimitive_read:
  assumes ok: "sha_ok h S" and pS: "set (prim_long p) \<subseteq> S" and qS: "set (prim_long q) \<subseteq> S"
    and p: "feedPrimitive h p = Inr x" and q: "feedPrimitive h q = Inr y" and eq: "x @ r = y @ s"
  shows "p = q \<and> r = s"
proof -
  note rep = getStringRep_read [OF ok] and opt = feedStringOrNull_read [OF ok]
  have tag: "prim_tag p = prim_tag q"
    using prim_tag_feed [OF p] prim_tag_feed [OF q] eq by (metis hd_append2)
  show ?thesis
  proof (cases p)
    case (EpochNsec a)
    with tag obtain b where "q = EpochNsec b" by (cases q) auto
    with EpochNsec p q eq show ?thesis using bigint_prims_read [of "0x27" h a x b y r s] by simp
  next
    case (EpochDay a)
    with tag obtain b where "q = EpochDay b" by (cases q) auto
    with EpochDay p q eq show ?thesis using bigint_prims_read [of "0x28" h a x b y r s] by simp
  next
    case (DurationNsec a)
    with tag obtain b where "q = DurationNsec b" by (cases q) auto
    with DurationNsec p q eq show ?thesis using bigint_prims_read [of "0x2e" h a x b y r s] by simp
  next
    case (DurationDay a)
    with tag obtain b where "q = DurationDay b" by (cases q) auto
    with DurationDay p q eq show ?thesis using bigint_prims_read [of "0x2f" h a x b y r s] by simp
  next
    case (HashPrim a b)
    with tag obtain c d where Q: "q = HashPrim c d" by (cases q) auto
    obtain u v where uv: "feedCounted b = Inr u" "feedCounted d = Inr v"
        "getStringRep h a @ u @ r = getStringRep h c @ v @ s"
      using p q eq by (auto simp: HashPrim Q tagged_eq_Inr result_simps)
    then show ?thesis
      using rep [OF _ _ uv(3)] feedCounted_read [OF uv(1,2), of r s] pS qS by (simp add: HashPrim Q)
  next
    case (BytesPrim a)
    with tag obtain b where "q = BytesPrim b" by (cases q) auto
    with BytesPrim p q eq show ?thesis using counted_read [of "0x25" a x b y r s] by simp
  next
    case (RegExpPrim a b c)
    with tag obtain d e f where Q: "q = RegExpPrim d e f" by (cases q) auto
    have e: "getStringRep h a @ getStringRep h b @ getStringRep h c @ r = getStringRep h d @ getStringRep h e @ getStringRep h f @ s"
      using p q eq by (auto simp: RegExpPrim Q)
    show ?thesis
      using rep [OF _ _ e] rep [of b e "getStringRep h c @ r" "getStringRep h f @ s"] rep [of c f r s] pS qS
      by (simp add: RegExpPrim Q)
  next
    case (KeyPairPrim a b c)
    with tag q obtain d e f where Q: "q = KeyPairPrim d e f" by (cases q) auto
    obtain u v u' v' where uv: "tagged 0x25 (feedCounted b) = Inr u" "tagged 0x25 (feedCounted c) = Inr v"
        "tagged 0x25 (feedCounted e) = Inr u'" "tagged 0x25 (feedCounted f) = Inr v'"
        "getStringRep h a @ u @ v @ r = getStringRep h d @ u' @ v' @ s"
      using p q eq by (auto simp: KeyPairPrim Q tagged_eq_Inr [of "0x2c"] result_simps)
    then show ?thesis
      using rep [OF _ _ uv(5)] counted_read [OF uv(1,3), of "v @ r" "v' @ s"] counted_read [OF uv(2,4), of r s] pS qS
      by (simp add: KeyPairPrim Q)
  next
    case (OpaqueKeyPair a n)
    then show ?thesis using p by simp
  next
    case (UnavailablePrim a b c)
    with tag obtain d e f where Q: "q = UnavailablePrim d e f" by (cases q) auto
    have e: "getStringRep h a @ feedStringOrNull h b @ feedStringOrNull h c @ r = getStringRep h d @ feedStringOrNull h e @ feedStringOrNull h f @ s"
      using p q eq by (auto simp: UnavailablePrim Q)
    show ?thesis
      using rep [OF _ _ e] opt [of b e "feedStringOrNull h c @ r" "feedStringOrNull h f @ s"] opt [of c f r s] pS qS
      by (auto simp: UnavailablePrim Q)
  qed
qed


definition seg_canon :: "nat + fval \<Rightarrow> nat + fval" where
  "seg_canon = map_sum id canon"

lemma value_tag_range: "value_tag v \<noteq> 0 \<and> value_tag v \<noteq> 1"
proof -
  have "prim_tag p \<noteq> 0 \<and> prim_tag p \<noteq> 1" for p by (cases p) simp_all
  then show ?thesis by (cases v) simp_all
qed

lemma segment_hd:
  assumes "(case a of Inl n \<Rightarrow> feedRun n | Inr v \<Rightarrow> feedValue h v) = Inr u"
  shows "u \<noteq> [] \<and> hd u = (case a of Inl _ \<Rightarrow> 1 | Inr v \<Rightarrow> value_tag v)"
proof (cases a)
  case (Inl n)
  then show ?thesis using assms by (auto simp: feedRun_def tagged_eq_Inr)
next
  case (Inr v)
  then show ?thesis using assms feed_tag [of h v u] by simp
qed

lemma feedArray_read:
  assumes IH: "\<And>v w x y r s. Some v \<in> set xs \<Longrightarrow> Some w \<in> set ys \<Longrightarrow> feedValue h v = Inr x \<Longrightarrow> feedValue h w = Inr y
      \<Longrightarrow> x @ r = y @ s \<Longrightarrow> canon v = canon w \<and> r = s"
    and feeds: "feedValue h (FArr xs) = Inr x" "feedValue h (FArr ys) = Inr y" "x @ r = y @ s"
  shows "canon (FArr xs) = canon (FArr ys) \<and> r = s"
proof -
  let ?f = "\<lambda>seg. case seg of Inl runLen \<Rightarrow> feedRun runLen | Inr v \<Rightarrow> feedValue h v"
  obtain bs cs where m: "mapR ?f (hole_runs 0 xs) = Inr bs" "mapR ?f (hole_runs 0 ys) = Inr cs"
      "concat bs @ 0 # r = concat cs @ 0 # s"
    using feeds by (auto simp: tagged_eq_Inr result_simps)
  have "map seg_canon (hole_runs 0 xs) = map seg_canon (hole_runs 0 ys) \<and> r = s"
  proof (rule terminated_read [OF _ _ m])
    fix a b u v r s
    assume ab: "a \<in> set (hole_runs 0 xs)" "b \<in> set (hole_runs 0 ys)" and f: "?f a = Inr u" "?f b = Inr v" "u @ r = v @ s"
    note hu = segment_hd [OF f(1)] and hv = segment_hd [OF f(2)]
    have hd: "hd u = hd v" using f(3) hu hv by (metis hd_append2)
    show "seg_canon a = seg_canon b \<and> r = s"
    proof (cases a; cases b)
      fix m n assume A: "a = Inl m" and B: "b = Inl n"
      obtain u' where u: "feedLength m = Inr u'" "u = 1 # u'"
        using f(1) by (auto simp: A feedRun_def tagged_eq_Inr)
      obtain v' where v: "feedLength n = Inr v'" "v = 1 # v'"
        using f(2) by (auto simp: B feedRun_def tagged_eq_Inr)
      show ?thesis using feedLength_read [OF u(1) v(1), of r s] f(3) u(2) v(2) A B by simp
    next
      fix v' w' assume A: "a = Inr v'" and B: "b = Inr w'"
      have "Some v' \<in> set xs" "Some w' \<in> set ys"
        using ab A B Inr_in_hole_runs [of v' 0 xs] Inr_in_hole_runs [of w' 0 ys] by simp_all
      then show ?thesis using f IH [of v' w' u v r s] by (simp add: A B seg_canon_def)
    next
      fix m w' assume "a = Inl m" "b = Inr w'"
      then show ?thesis using hd hu hv value_tag_range [of w'] by simp
    next
      fix v' n assume "a = Inr v'" "b = Inl n"
      then show ?thesis using hd hu hv value_tag_range [of v'] by simp
    qed
  next
    fix a u
    assume "?f a = Inr u"
    from segment_hd [OF this] show "u \<noteq> [] \<and> hd u \<noteq> 0"
      using value_tag_range [of "projr a"] by (cases a) simp_all
  qed
  then have "hole_runs 0 (map (map_option canon) xs) = hole_runs 0 (map (map_option canon) ys)" and rs: "r = s"
    by (simp_all only: hole_runs_map seg_canon_def)
  from arg_cong [OF this(1), of unrun] have "map (map_option canon) xs = map (map_option canon) ys"
    by (simp only: unrun_hole_runs replicate_0 append_Nil)
  then show ?thesis using rs by (simp only: canon.simps)
qed

lemma feedObject_read:
  assumes IH: "\<And>k v k' w x y r s. (k, v) \<in> set ps \<Longrightarrow> (k', w) \<in> set qs \<Longrightarrow> feedValue h v = Inr x \<Longrightarrow> feedValue h w = Inr y
      \<Longrightarrow> x @ r = y @ s \<Longrightarrow> canon v = canon w \<and> r = s"
    and rep: "\<And>k v k' w r s. (k, v) \<in> set ps \<Longrightarrow> (k', w) \<in> set qs \<Longrightarrow>
      getStringRep h k @ r = getStringRep h k' @ s \<Longrightarrow> k = k' \<and> r = s"
    and feeds: "feedValue h (FObj ps) = Inr x" "feedValue h (FObj qs) = Inr y" "x @ r = y @ s"
  shows "canon (FObj ps) = canon (FObj qs) \<and> r = s"
proof -
  let ?f = "\<lambda>(key, v). bindR (feedValue h v) (\<lambda>b. Inr (getStringRep h key @ b))"
  let ?c = "map_prod id canon :: string \<times> fval \<Rightarrow> string \<times> fval"
  obtain bs cs where m: "mapR ?f (sort_key fst ps) = Inr bs" "mapR ?f (sort_key fst qs) = Inr cs"
      "concat bs @ 0 # r = concat cs @ 0 # s"
    using feeds by (auto simp: tagged_eq_Inr result_simps)
  have "map ?c (sort_key fst ps) = map ?c (sort_key fst qs) \<and> r = s"
  proof (rule terminated_read [OF _ _ m])
    fix a b u v r s
    assume in_sets: "a \<in> set (sort_key fst ps)" "b \<in> set (sort_key fst qs)"
      and f: "?f a = Inr u" "?f b = Inr v" "u @ r = v @ s"
    obtain k va k' vb where a: "a = (k, va)" and b: "b = (k', vb)" by (cases a, cases b)
    obtain xa xb where x: "feedValue h va = Inr xa" "feedValue h vb = Inr xb"
        "getStringRep h k @ xa @ r = getStringRep h k' @ xb @ s"
      using f by (auto simp: a b result_simps)
    have ab: "(k, va) \<in> set ps" "(k', vb) \<in> set qs" using in_sets by (simp_all add: a b)
    show "?c a = ?c b \<and> r = s"
      using rep [OF ab x(3)] IH [OF ab x(1,2), of r s] by (auto simp: a b)
  next
    fix a u
    assume "?f a = Inr u"
    then show "u \<noteq> [] \<and> hd u \<noteq> 0"
      by (cases a) (auto simp: result_simps getStringRep_def Let_def split: if_splits)
  qed
  then show ?thesis using sort_key_map [of ?c ps] sort_key_map [of ?c qs] by simp
qed


lemma feedValue_read:
  assumes "sha_ok h S" "set (long_strings v) \<subseteq> S" "set (long_strings w) \<subseteq> S"
    "feedValue h v = Inr x" "feedValue h w = Inr y" "x @ r = y @ s"
  shows "canon v = canon w \<and> r = s"
  using assms(2-)
proof (induction v arbitrary: w x y r s)
  note rep = getStringRep_read [OF assms(1)]
  have tag: "value_tag v = value_tag w"
    if "feedValue h v = Inr x" "feedValue h w = Inr y" "x @ r = y @ s" for v w x y r s
    using feed_tag [OF that(1)] feed_tag [OF that(2)] that(3) by (metis hd_append2)
  have prim: "prim_tag p \<notin> {0x22, 0x23, 0x24, 0xf0, 0x26, 0x2a, 0x21, 0x20, 0x10, 0x11, 0x12}" for p
    by (cases p) simp_all
  {
    case FUndefined
    then show ?case using tag [OF FUndefined(3-5)] prim by (cases w) (auto split: if_splits)
  next
    case FNull
    then show ?case using tag [OF FNull(3-5)] prim by (cases w) (auto split: if_splits)
  next
    case (FBool b)
    then show ?case using tag [OF FBool(3-5)] prim by (cases w) (auto split: if_splits)
  next
    case (FNum n)
    then obtain m where "w = FNum m" using tag [OF FNum(3-5)] prim by (cases w) (auto split: if_splits)
    then show ?case using FNum float64BytesOf_read [of n r m s] by auto
  next
    case (FBigInt i)
    then obtain j where "w = FBigInt j" using tag [OF FBigInt(3-5)] prim by (cases w) (auto split: if_splits)
    then show ?case using FBigInt bigint_prims_read [of "0x26" h i x j y r s] by auto
  next
    case (FStr a)
    then obtain b where "w = FStr b" using tag [OF FStr(3-5)] prim by (cases w) (auto split: if_splits)
    then show ?case using FStr rep [of a b r s] by auto
  next
    case (FSym a)
    then obtain b where "w = FSym b" using tag [OF FSym(3-5)] prim by (cases w) (auto split: if_splits)
    then show ?case using FSym rep [of a b r s] by auto
  next
    case (FUniqueSym n)
    then show ?case by simp
  next
    case (FArr xs)
    then obtain ys where w: "w = FArr ys" using tag [OF FArr.prems(3-5)] prim by (cases w) (auto split: if_splits)
    show ?case unfolding w
    proof (rule feedArray_read)
      fix v' w' x y r s
      assume "Some v' \<in> set xs" "Some w' \<in> set ys" "feedValue h v' = Inr x" "feedValue h w' = Inr y" "x @ r = y @ s"
      then show "canon v' = canon w' \<and> r = s"
        using FArr.IH [of "Some v'" v' w' x y r s] FArr.prems(1,2) w by fastforce
    qed (use FArr.prems w in auto)
  next
    case (FObj ps)
    then obtain qs where w: "w = FObj qs" using tag [OF FObj.prems(3-5)] prim by (cases w) (auto split: if_splits)
    show ?case unfolding w
    proof (rule feedObject_read)
      fix k v' k' w' x y r s
      assume "(k, v') \<in> set ps" "(k', w') \<in> set qs" "feedValue h v' = Inr x" "feedValue h w' = Inr y" "x @ r = y @ s"
      then show "canon v' = canon w' \<and> r = s"
        using FObj.IH [of "(k, v')" v' w' x y r s] FObj.prems(1,2) w by fastforce
    next
      fix k v' k' w' r s
      assume "(k, v') \<in> set ps" "(k', w') \<in> set qs" "getStringRep h k @ r = getStringRep h k' @ s"
      then show "k = k' \<and> r = s" using rep [of k k' r s] FObj.prems(1,2) w by fastforce
    qed (use FObj.prems w in auto)
  next
    case (FPrim p)
    then obtain q where "w = FPrim q" using tag [OF FPrim(3-5)] prim [of p] by (cases w) (auto split: if_splits)
    then show ?case using FPrim feedPrimitive_read [OF assms(1), of p q x y r s] by auto
  next
    case (FInst c t st)
    then obtain d u su where w: "w = FInst d u su" using tag [OF FInst.prems(3-5)] prim by (cases w) (auto split: if_splits)
    then obtain a b xa xb where ab: "st = Some a" "su = Some b" "feedValue h a = Inr xa" "feedValue h b = Inr xb"
        "getStringRep h t @ xa @ r = getStringRep h u @ xb @ s"
      using FInst.prems by (auto simp: tagged_eq_Inr result_simps split: option.splits)
    then show ?case
      using rep [OF _ _ ab(5)] FInst.IH [of a b xa xb r s] FInst.prems(1,2) w by auto
  }
qed

section \<open>Hash equality is content equality\<close>

definition hashable :: "host \<Rightarrow> fval \<Rightarrow> bool" where
  "hashable h v = (case feedValue h v of Inl _ \<Rightarrow> False | Inr _ \<Rightarrow> True)"

text \<open>Every byte string SHA-256 is applied to when a value is hashed.\<close>

definition hashed_bytes :: "host \<Rightarrow> fval \<Rightarrow> bytes list" where
  "hashed_bytes h v = long_strings v @ (case feedValue h v of Inl _ \<Rightarrow> [] | Inr x \<Rightarrow> [x])"

lemma hashesEqual_iff:
  assumes "sha_ok h S" "set (hashed_bytes h v) \<subseteq> S" "set (hashed_bytes h w) \<subseteq> S" "hashable h v" "hashable h w"
  shows "hashesEqual h v w = Inr (canon v = canon w)"
proof -
  obtain x y where f: "feedValue h v = Inr x" "feedValue h w = Inr y"
    using assms(4,5) by (auto simp: hashable_def split: sum.splits)
  then have S: "set (long_strings v) \<subseteq> S" "set (long_strings w) \<subseteq> S" "x \<in> S" "y \<in> S"
    using assms(2,3) by (auto simp: hashed_bytes_def)
  have b64: "toBase64Polyfill a = toBase64Polyfill b \<longleftrightarrow> a = b" for a b
    by (metis fromBase64_toBase64 sum.inject(2))
  have "sha256 h x = sha256 h y \<longleftrightarrow> x = y"
    using assms(1) S(3,4) by (auto simp: sha_ok_def inj_on_def)
  also have "\<dots> \<longleftrightarrow> canon v = canon w"
    using feedValue_read [OF assms(1) S(1,2) f, of "[]" "[]"] feedValue_canon [of h v] feedValue_canon [of h w] f by auto
  finally show ?thesis using f b64 by (simp add: hashesEqual_def hashStringOf_def computeHash_def)
qed

lemma objectIs_canon: "objectIs h a b \<Longrightarrow> canon a = canon b"
  by (auto simp: objectIs_def canon_num_eq split: fval.splits prod.splits)

lemma not_objectIs_canon:
  "\<not> isObjectOrArray a \<or> \<not> isObjectOrArray b \<Longrightarrow> \<not> objectIs h a b \<Longrightarrow> canon a \<noteq> canon b"
  by (cases a; cases b) (auto simp: objectIs_def canon_num_eq)

lemma sort_key_map_length: "sort_key f (map g ps) = sort_key f (map g qs) \<Longrightarrow> length ps = length qs"
  by (drule arg_cong [where f = length]) simp

lemma valueEqual_quick:
  "objectIs h a b \<Longrightarrow> valueEqual h a b = Inr True"
  "\<not> objectIs h a b \<Longrightarrow> \<not> isObjectOrArray a \<or> \<not> isObjectOrArray b \<Longrightarrow> valueEqual h a b = Inr False"
  unfolding valueEqual_def by (simp_all only: if_True if_False simp_thms) auto

lemma subtype_canon: "canon a = canon b \<Longrightarrow> isObjectOrArray a \<Longrightarrow> objectSubtypeOf a = objectSubtypeOf b"
  by (cases a; cases b; simp)

text \<open>Every quick refusal is right: past them, the answer is the hashes'.\<close>

lemma valueEqual_hash:
  assumes "\<not> objectIs h a b" "isObjectOrArray a" "isObjectOrArray b"
  shows "valueEqual h a b = hashesEqual h a b \<or> valueEqual h a b = Inr False \<and> canon a \<noteq> canon b"
proof (cases "deepFrozen h a \<and> deepFrozen h b")
  case True
  then show ?thesis using assms by (simp add: valueEqual_def)
next
  case False
  then have u: "valueEqual h a b = (if objectSubtypeOf a \<noteq> objectSubtypeOf b then Inr False
      else (case (a, b) of
           (FArr xs, FArr ys) \<Rightarrow> if length xs \<noteq> length ys then Inr False else hashesEqual h a b
         | (FObj ps, FObj qs) \<Rightarrow> if length ps \<noteq> length qs then Inr False else hashesEqual h a b
         | (FInst _ s _, FInst _ t _) \<Rightarrow> if s \<noteq> t then Inr False else hashesEqual h a b
         | (FPrim p, FPrim q) \<Rightarrow>
             if fprim_class p \<noteq> fprim_class q then Inr False else hashesEqual h a b
         | _ \<Rightarrow> Inr False))"
    using assms unfolding valueEqual_def by (simp only: if_False simp_thms)
  show ?thesis
    using assms(2,3) unfolding u
    by (cases a; cases b) (auto dest: map_eq_imp_length_eq sort_key_map_length)
qed

lemma valueEqual_iff:
  assumes "sha_ok h S" "set (hashed_bytes h a) \<subseteq> S" "set (hashed_bytes h b) \<subseteq> S" "hashable h a" "hashable h b"
  shows "valueEqual h a b = Inr (canon a = canon b)"
proof (cases "objectIs h a b \<or> \<not> isObjectOrArray a \<or> \<not> isObjectOrArray b")
  case True
  then show ?thesis
    using objectIs_canon [of h a b] not_objectIs_canon [of a b h] valueEqual_quick [of h a b]
    by (cases "objectIs h a b") auto
next
  case False
  then show ?thesis using valueEqual_hash [of h a b] hashesEqual_iff [OF assms] by auto
qed

section \<open>The walk agrees\<close>

fun subvalues :: "fval \<Rightarrow> fval list" where
  "subvalues (FArr xs) = FArr xs # concat (map (\<lambda>x. case x of None \<Rightarrow> [] | Some v \<Rightarrow> subvalues v) xs)"
| "subvalues (FObj ps) = FObj ps # concat (map (\<lambda>(k, v). subvalues v) ps)"
| "subvalues v = [v]"

text \<open>Every byte string SHA-256 is applied to when a value or any part of it is hashed.\<close>

definition walked_bytes :: "host \<Rightarrow> fval \<Rightarrow> bytes list" where
  "walked_bytes h v = concat (map (hashed_bytes h) (subvalues v))"

lemma subvalues_self: "v \<in> set (subvalues v)"
  by (cases v) auto

lemma hashed_walked: "set (hashed_bytes h v) \<subseteq> set (walked_bytes h v)"
  using subvalues_self [of v] by (auto simp: walked_bytes_def)

lemma walked_elem: "Some v \<in> set xs \<Longrightarrow> set (walked_bytes h v) \<subseteq> set (walked_bytes h (FArr xs))"
  by (force simp: walked_bytes_def)

lemma walked_prop: "(k, v) \<in> set ps \<Longrightarrow> set (walked_bytes h v) \<subseteq> set (walked_bytes h (FObj ps))"
  by (force simp: walked_bytes_def)

lemma Inr_elem_hole_runs: "Some v \<in> set xs \<Longrightarrow> Inr v \<in> set (hole_runs n xs)"
  by (induction n xs rule: hole_runs.induct) auto

lemma mapR_Inr_all: "mapR f xs = Inr ys \<Longrightarrow> x \<in> set xs \<Longrightarrow> \<exists>y. f x = Inr y"
  by (induction xs arbitrary: ys) (auto simp: result_simps)

lemma hashable_elem: "hashable h (FArr xs) \<Longrightarrow> Some v \<in> set xs \<Longrightarrow> hashable h v"
proof -
  assume "hashable h (FArr xs)" and v: "Some v \<in> set xs"
  then obtain bs where "mapR (\<lambda>seg. case seg of Inl n \<Rightarrow> feedRun n | Inr v \<Rightarrow> feedValue h v) (hole_runs 0 xs) = Inr bs"
    by (auto simp: hashable_def tagged_eq_Inr result_simps split: sum.splits)
  from mapR_Inr_all [OF this Inr_elem_hole_runs [OF v]] show "hashable h v"
    by (auto simp: hashable_def)
qed

lemma hashable_prop: "hashable h (FObj ps) \<Longrightarrow> (k, v) \<in> set ps \<Longrightarrow> hashable h v"
proof -
  assume "hashable h (FObj ps)" and kv: "(k, v) \<in> set ps"
  then obtain bs where "mapR (\<lambda>(key, v). bindR (feedValue h v) (\<lambda>b. Inr (getStringRep h key @ b))) (sort_key fst ps) = Inr bs"
    by (auto simp: hashable_def tagged_eq_Inr result_simps split: sum.splits)
  from mapR_Inr_all [OF this, of "(k, v)"] kv show "hashable h v"
    by (auto simp: hashable_def result_simps)
qed

lemma walkArrays_canon:
  assumes "\<And>v w. Some v \<in> set xs \<Longrightarrow> Some w \<in> set ys \<Longrightarrow> walkEqual h d v w \<in> {Inr None, Inr (Some (canon v = canon w))}"
    and "length xs = length ys"
  shows "walkArrays h d xs ys \<in> {Inr None, Inr (Some (map (map_option canon) xs = map (map_option canon) ys))}"
  using assms(2,1)
proof (induction xs ys rule: list_induct2)
  case (Cons x xs y ys)
  have IH: "walkArrays h d xs ys \<in> {Inr None, Inr (Some (map (map_option canon) xs = map (map_option canon) ys))}"
    using Cons by simp
  show ?case
  proof (cases x)
    case None
    then show ?thesis using IH by (cases y) auto
  next
    case (Some v)
    show ?thesis
    proof (cases y)
      case None
      then show ?thesis using Some by simp
    next
      case y: (Some w)
      then have "walkEqual h d v w \<in> {Inr None, Inr (Some (canon v = canon w))}" using Cons.prems Some by simp
      then show ?thesis using IH Some y by (cases "canon v = canon w") auto
    qed
  qed
qed simp

lemma walkRecords_canon:
  assumes "\<And>k v w. (k, v) \<in> set ps \<Longrightarrow> map_of qs k = Some w \<Longrightarrow> walkEqual h d v w \<in> {Inr None, Inr (Some (canon v = canon w))}"
  shows "walkRecords h d ps qs
    \<in> {Inr None, Inr (Some (\<forall>(k, v)\<in>set ps. \<exists>w. map_of qs k = Some w \<and> canon v = canon w))}"
  using assms
proof (induction ps)
  case (Cons p ps)
  obtain k v where p: "p = (k, v)" by (cases p)
  have IH: "walkRecords h d ps qs
    \<in> {Inr None, Inr (Some (\<forall>(k, v)\<in>set ps. \<exists>w. map_of qs k = Some w \<and> canon v = canon w))}"
    using Cons.prems by (intro Cons.IH) auto
  show ?case
  proof (cases "map_of qs k")
    case None
    then show ?thesis by (simp add: p)
  next
    case (Some w)
    have "walkEqual h d v w \<in> {Inr None, Inr (Some (canon v = canon w))}" using Cons.prems [of k v w] Some p by simp
    then show ?thesis using IH Some by (cases "canon v = canon w") (auto simp: p)
  qed
qed simp


lemma walkEqual_step:
  "objectIs h a b \<Longrightarrow> walkEqual h d a b = Inr (Some True)"
  "\<not> objectIs h a b \<Longrightarrow> \<not> isFabricPlainContainer a \<or> \<not> isFabricPlainContainer b \<Longrightarrow>
     walkEqual h d a b = bindR (valueEqual h a b) (\<lambda>r. Inr (Some r))"
  "\<not> objectIs h (FArr xs) (FArr ys) \<Longrightarrow> walkEqual h d (FArr xs) (FArr ys) =
     (if d \<ge> MAX_WALK_DEPTH then Inr None
      else if length xs \<noteq> length ys then Inr (Some False) else walkArrays h (Suc d) xs ys)"
  "\<not> objectIs h (FObj ps) (FObj qs) \<Longrightarrow> walkEqual h d (FObj ps) (FObj qs) =
     (if d \<ge> MAX_WALK_DEPTH then Inr None
      else if length ps \<noteq> length qs then Inr (Some False) else walkRecords h (Suc d) ps qs)"
  "walkEqual h d (FArr xs) (FObj ps) \<in> {Inr None, Inr (Some False)}"
  "walkEqual h d (FObj ps) (FArr xs) \<in> {Inr None, Inr (Some False)}"
  by (auto simp: walkEqual.simps [of h d] isFabricPlainContainer_def objectIs_def)

definition walk_agrees :: "host \<Rightarrow> nat \<Rightarrow> fval \<Rightarrow> fval \<Rightarrow> bool" where
  "walk_agrees h d a b \<longleftrightarrow> walkEqual h d a b = Inr None \<or> walkEqual h d a b = Inr (Some (canon a = canon b))"

text \<open>What the walk needs of an operand: a well-formed, hashable value all of whose hashed bytes SHA-256 tells apart.\<close>

definition walk_ok :: "host \<Rightarrow> bytes set \<Rightarrow> fval \<Rightarrow> bool" where
  "walk_ok h S v \<longleftrightarrow> wf_fval v \<and> hashable h v \<and> set (walked_bytes h v) \<subseteq> S"

lemma walk_ok_elem: "walk_ok h S (FArr xs) \<Longrightarrow> Some v \<in> set xs \<Longrightarrow> walk_ok h S v"
  using hashable_elem [of h xs v] walked_elem [of v xs h] by (auto simp: walk_ok_def)

lemma walk_ok_prop: "walk_ok h S (FObj ps) \<Longrightarrow> (k, v) \<in> set ps \<Longrightarrow> walk_ok h S v"
  using hashable_prop [of h ps k v] walked_prop [of k v ps h] by (auto simp: walk_ok_def)

lemma walk_leaf:
  assumes "sha_ok h S" "walk_ok h S a" "walk_ok h S b" "\<not> isFabricPlainContainer a \<or> \<not> isFabricPlainContainer b"
  shows "walk_agrees h d a b"
proof (cases "objectIs h a b")
  case True
  then show ?thesis using objectIs_canon [OF True] by (simp add: walk_agrees_def walkEqual_step(1))
next
  case False
  have "set (hashed_bytes h a) \<subseteq> S" "set (hashed_bytes h b) \<subseteq> S"
    using assms(2,3) hashed_walked [of h a] hashed_walked [of h b] by (auto simp: walk_ok_def)
  then have "valueEqual h a b = Inr (canon a = canon b)"
    using assms(2,3) by (intro valueEqual_iff [OF assms(1)]) (simp_all add: walk_ok_def)
  then show ?thesis using walkEqual_step(2) [OF False assms(4), of d] by (simp add: walk_agrees_def)
qed

lemma walk_arrays:
  assumes "\<And>v w. Some v \<in> set xs \<Longrightarrow> Some w \<in> set ys \<Longrightarrow> walk_agrees h (Suc d) v w"
  shows "walk_agrees h d (FArr xs) (FArr ys)"
proof (cases "objectIs h (FArr xs) (FArr ys)")
  case True
  then show ?thesis using objectIs_canon [OF True] by (simp add: walk_agrees_def walkEqual_step(1))
next
  case False
  have "walkArrays h (Suc d) xs ys = Inr None \<or>
      walkArrays h (Suc d) xs ys = Inr (Some (canon (FArr xs) = canon (FArr ys)))" if "length xs = length ys"
    using walkArrays_canon [of xs ys h "Suc d"] assms that by (simp add: walk_agrees_def)
  moreover have "canon (FArr xs) \<noteq> canon (FArr ys)" if "length xs \<noteq> length ys"
    using that by (auto dest: map_eq_imp_length_eq)
  ultimately show ?thesis unfolding walk_agrees_def walkEqual_step(3) [OF False] by presburger
qed

lemma walk_records:
  assumes "\<And>k v w. (k, v) \<in> set ps \<Longrightarrow> (k, w) \<in> set qs \<Longrightarrow> walk_agrees h (Suc d) v w"
    and "distinct (map fst ps)" "distinct (map fst qs)"
  shows "walk_agrees h d (FObj ps) (FObj qs)"
proof (cases "objectIs h (FObj ps) (FObj qs)")
  case True
  then show ?thesis using objectIs_canon [OF True] by (simp add: walk_agrees_def walkEqual_step(1))
next
  case False
  let ?same = "\<forall>(k, v)\<in>set ps. \<exists>w. map_of qs k = Some w \<and> canon v = canon w"
  have "walkRecords h (Suc d) ps qs \<in> {Inr None, Inr (Some ?same)}"
  proof (rule walkRecords_canon)
    fix k v w
    assume "(k, v) \<in> set ps" "map_of qs k = Some w"
    then have "walk_agrees h (Suc d) v w" using assms(1) map_of_SomeD [of qs k w] by blast
    then show "walkEqual h (Suc d) v w \<in> {Inr None, Inr (Some (canon v = canon w))}" by (simp add: walk_agrees_def)
  qed
  then have "walkRecords h (Suc d) ps qs = Inr None \<or> walkRecords h (Suc d) ps qs = Inr (Some ?same)" by simp
  then show ?thesis
    unfolding walk_agrees_def walkEqual_step(4) [OF False] props_canon [OF assms(2,3), symmetric] by presburger
qed

lemma walkEqual_canon:
  assumes "sha_ok h S"
  shows "walk_ok h S a \<Longrightarrow> walk_ok h S b \<Longrightarrow> walk_agrees h d a b"
proof (induction a arbitrary: b d)
  case (FArr xs)
  show ?case
  proof (cases b)
    case b: (FArr ys)
    show ?thesis unfolding b
    proof (rule walk_arrays)
      fix v w
      assume "Some v \<in> set xs" "Some w \<in> set ys"
      then show "walk_agrees h (Suc d) v w"
        using FArr.IH [of "Some v" v w "Suc d"] walk_ok_elem FArr.prems b by auto
    qed
  next
    case (FObj qs)
    then show ?thesis using walkEqual_step(5) [of h d xs qs] by (auto simp: walk_agrees_def)
  qed (rule walk_leaf [OF assms FArr.prems], simp add: isFabricPlainContainer_def)+
next
  case (FObj ps)
  show ?case
  proof (cases b)
    case b: (FObj qs)
    show ?thesis unfolding b
    proof (rule walk_records)
      fix k v w
      assume "(k, v) \<in> set ps" "(k, w) \<in> set qs"
      then show "walk_agrees h (Suc d) v w"
        using FObj.IH [of "(k, v)" v w "Suc d"] walk_ok_prop FObj.prems b by auto
    qed (use FObj.prems b in \<open>auto simp: walk_ok_def\<close>)
  next
    case (FArr ys)
    then show ?thesis using walkEqual_step(6) [of h d ps ys] by (auto simp: walk_agrees_def)
  qed (rule walk_leaf [OF assms FObj.prems], simp add: isFabricPlainContainer_def)+
qed (rule walk_leaf [OF assms], assumption+, simp add: isFabricPlainContainer_def)+

section \<open>Properties\<close>

text \<open>A host to instantiate the properties with: a digest function that keeps the first 32 bytes of a
  string, padded, which tells short strings apart.\<close>

definition padding_host :: host where
  "padding_host = \<lparr>sha256 = \<lambda>x. take 32 (x @ replicate 32 0), useHex = False,
     identical = \<lambda>_ _. False, deepFrozen = \<lambda>_. False\<rparr>"

lemma padding_host_ok: "inj_on (sha256 padding_host) S \<Longrightarrow> sha_ok padding_host S"
  by (auto simp: sha_ok_def padding_host_def min_def)

text \<open>C22. The byte stream a hash is computed over can be read back: whatever follows the feed of a
  value, the stream determines the value up to its canonical form and where its feed ends, as long
  as SHA-256 tells the long strings inside the two values apart.\<close>

theorem feed_readable:
  assumes "sha_ok h (set (long_strings v) \<union> set (long_strings w))"
    and "feedValue h v = Inr x" and "feedValue h w = Inr y" and "x @ r = y @ s"
  shows "canon v = canon w \<and> x = y \<and> r = s"
  using feedValue_read [OF assms(1) _ _ assms(2-4)] assms(4) by auto

theorem feed_readable_witness:
  "canon (FArr [None, None, Some (FBool True)]) = canon (FArr [None, None, Some (FBool True)]) \<and>
   [0x10, 0x01, 2, 0x22, 1, 0x00] = [0x10, 0x01, 2, 0x22, 1, 0x00 :: byte] \<and> [7] = [7 :: byte]"
proof (rule feed_readable [of padding_host])
  show "sha_ok padding_host (set (long_strings (FArr [None, None, Some (FBool True)])) \<union>
      set (long_strings (FArr [None, None, Some (FBool True)])))"
    by (rule padding_host_ok) simp
  show "feedValue padding_host (FArr [None, None, Some (FBool True)]) = Inr [0x10, 0x01, 2, 0x22, 1, 0x00]"
    "feedValue padding_host (FArr [None, None, Some (FBool True)]) = Inr [0x10, 0x01, 2, 0x22, 1, 0x00]"
    by code_simp+
qed simp

text \<open>C19. Two values have one hash string exactly when their canonical forms agree (the key order of
  an object, the bits of a \<^verbatim>\<open>NaN\<close> and the class of an instance do not count; holes, stored
  \<^verbatim>\<open>undefined\<close>, absent keys, the sign of zero and the type of a number do), as long as SHA-256 tells
  apart the byte strings it is applied to for the two.\<close>

theorem hash_identifies_content:
  assumes "sha_ok h (set (hashed_bytes h v) \<union> set (hashed_bytes h w))"
    and "hashStringOf h v = Inr a" and "hashStringOf h w = Inr b"
  shows "a = b \<longleftrightarrow> canon v = canon w"
proof -
  have "hashable h v" "hashable h w"
    using assms(2,3) by (auto simp: hashStringOf_def computeHash_def result_simps hashable_def)
  then have "hashesEqual h v w = Inr (canon v = canon w)"
    by (intro hashesEqual_iff [OF assms(1)]) auto
  then show ?thesis using assms(2,3) by (simp add: hashesEqual_def)
qed

theorem hash_identifies_content_witness:
  "hashStringOf padding_host (FObj [(''b'', FNull), (''a'', FUndefined)])
     = hashStringOf padding_host (FObj [(''a'', FUndefined), (''b'', FNull)])"
proof -
  let ?v = "FObj [(''b'', FNull), (''a'', FUndefined)]" and ?w = "FObj [(''a'', FUndefined), (''b'', FNull)]"
  have f: "feedValue padding_host ?v = Inr [0x11, 0x24, 1, 0x61, 0x21, 0x24, 1, 0x62, 0x20, 0]"
    "feedValue padding_host ?w = Inr [0x11, 0x24, 1, 0x61, 0x21, 0x24, 1, 0x62, 0x20, 0]"
    by code_simp+
  have l: "long_strings ?v = []" "long_strings ?w = []" by code_simp+
  have c: "canon ?v = canon ?w" by code_simp
  have ok: "sha_ok padding_host (set (hashed_bytes padding_host ?v) \<union> set (hashed_bytes padding_host ?w))"
    unfolding hashed_bytes_def f l by (rule padding_host_ok) simp
  obtain a b where ab: "hashStringOf padding_host ?v = Inr a" "hashStringOf padding_host ?w = Inr b"
    unfolding hashStringOf_def computeHash_def f by simp
  show ?thesis using hash_identifies_content [OF ok ab] c ab by simp
qed

text \<open>C20. \<^verbatim>\<open>valueEqual\<close> decides equality of canonical forms for hashable values, whichever of its
  shortcuts it takes: identity, the quick refusals, and frozen or not.\<close>

theorem valueEqual_decides_content:
  assumes "sha_ok h (set (hashed_bytes h a) \<union> set (hashed_bytes h b))" and "hashable h a" and "hashable h b"
  shows "valueEqual h a b = Inr (canon a = canon b)"
  by (rule valueEqual_iff [OF assms(1) _ _ assms(2,3)]) auto

theorem valueEqual_decides_content_witness:
  "valueEqual padding_host (FArr [None]) (FArr [Some FUndefined])
     = Inr (canon (FArr [None]) = canon (FArr [Some FUndefined]))"
proof (rule valueEqual_decides_content)
  have f: "feedValue padding_host (FArr [None]) = Inr [0x10, 0x01, 1, 0x00]"
    "feedValue padding_host (FArr [Some FUndefined]) = Inr [0x10, 0x21, 0x00]"
    by code_simp+
  then show "hashable padding_host (FArr [None])" "hashable padding_host (FArr [Some FUndefined])"
    by (simp_all add: hashable_def)
  show "sha_ok padding_host (set (hashed_bytes padding_host (FArr [None])) \<union>
      set (hashed_bytes padding_host (FArr [Some FUndefined])))"
    unfolding hashed_bytes_def f by (rule padding_host_ok) (simp add: padding_host_def)
qed

text \<open>C21. \<^verbatim>\<open>valueEqualByWalk\<close> returns what \<^verbatim>\<open>valueEqual\<close> does, however deep the operands are: the walk
  either settles the comparison the same way or gives up and asks.\<close>

theorem walk_agrees_with_valueEqual:
  assumes "sha_ok h (set (walked_bytes h a) \<union> set (walked_bytes h b))"
    and "wf_fval a" and "wf_fval b" and "hashable h a" and "hashable h b"
  shows "valueEqualByWalk h a b = valueEqual h a b"
proof -
  let ?S = "set (walked_bytes h a) \<union> set (walked_bytes h b)"
  have ok: "walk_ok h ?S a" "walk_ok h ?S b" using assms by (simp_all add: walk_ok_def)
  have S: "set (hashed_bytes h a) \<subseteq> ?S" "set (hashed_bytes h b) \<subseteq> ?S"
    using hashed_walked [of h a] hashed_walked [of h b] by auto
  have "valueEqual h a b = Inr (canon a = canon b)"
    by (rule valueEqual_iff [OF assms(1) S assms(4,5)])
  then show ?thesis
    using walkEqual_canon [OF assms(1) ok, of 0] by (auto simp: valueEqualByWalk_def walk_agrees_def)
qed

theorem walk_agrees_with_valueEqual_witness:
  "valueEqualByWalk padding_host (FArr [Some FNull]) (FArr [Some FUndefined])
     = valueEqual padding_host (FArr [Some FNull]) (FArr [Some FUndefined])"
proof (rule walk_agrees_with_valueEqual)
  have f: "feedValue padding_host (FArr [Some FNull]) = Inr [0x10, 0x20, 0x00]"
    "feedValue padding_host (FArr [Some FUndefined]) = Inr [0x10, 0x21, 0x00]"
    by code_simp+
  then show "hashable padding_host (FArr [Some FNull])" "hashable padding_host (FArr [Some FUndefined])"
    by (simp_all add: hashable_def)
  have w: "walked_bytes padding_host (FArr [Some FNull]) = [[0x10, 0x20, 0x00], [0x20]]"
    "walked_bytes padding_host (FArr [Some FUndefined]) = [[0x10, 0x21, 0x00], [0x21]]"
    by code_simp+
  show "sha_ok padding_host (set (walked_bytes padding_host (FArr [Some FNull])) \<union>
      set (walked_bytes padding_host (FArr [Some FUndefined])))"
    unfolding w by (rule padding_host_ok) (simp add: padding_host_def)
qed simp_all

end
