(* ===== verification/ValueSet.thy ===== *)
theory ValueSet
  imports ValueHash
begin

text \<open>
  The set of values under content equality that \<^verbatim>\<open>add-unique\<close> looks values up in (class
  \<^verbatim>\<open>ValueSet\<close> of \<^verbatim>\<open>runtime/memory/v2/patch.ts\<close>), and what it is a set of: canonical forms. The
  \<^verbatim>\<open>Map\<close> of buckets is the list of its entries in insertion order; its keys are compared as a
  JavaScript \<^verbatim>\<open>Map\<close> compares them, so that the two zeros share a bucket.
\<close>

section \<open>Searches that can fail\<close>

fun someR :: "('a \<Rightarrow> 'e + bool) \<Rightarrow> 'a list \<Rightarrow> 'e + bool" where
  "someR f [] = Inr False"
| "someR f (x # xs) = bindR (f x) (\<lambda>b. if b then Inr True else someR f xs)"

fun filterR :: "('a \<Rightarrow> 'e + bool) \<Rightarrow> 'a list \<Rightarrow> 'e + 'a list" where
  "filterR f [] = Inr []"
| "filterR f (x # xs) = bindR (f x) (\<lambda>b. bindR (filterR f xs) (\<lambda>ys. Inr (if b then x # ys else ys)))"

fun findIndexR :: "('a \<Rightarrow> 'e + bool) \<Rightarrow> 'a list \<Rightarrow> 'e + nat option" where
  "findIndexR f [] = Inr None"
| "findIndexR f (x # xs) =
     bindR (f x) (\<lambda>b. if b then Inr (Some 0) else bindR (findIndexR f xs) (\<lambda>i. Inr (map_option Suc i)))"

lemma someR_total: "(\<And>x. x \<in> set xs \<Longrightarrow> f x = Inr (P x)) \<Longrightarrow> someR f xs = Inr (\<exists>x\<in>set xs. P x)"
  by (induction xs) auto

lemma filterR_total: "(\<And>x. x \<in> set xs \<Longrightarrow> f x = Inr (P x)) \<Longrightarrow> filterR f xs = Inr (filter P xs)"
  by (induction xs) auto

lemma findIndexR_total:
  "(\<And>x. x \<in> set xs \<Longrightarrow> f x = Inr (P x)) \<Longrightarrow>
     \<exists>r. findIndexR f xs = Inr r \<and> (case r of None \<Rightarrow> \<forall>x\<in>set xs. \<not> P x | Some i \<Rightarrow> i < length xs \<and> P (xs ! i))"
proof (induction xs)
  case (Cons x xs)
  from Cons.IH Cons.prems obtain r where r: "findIndexR f xs = Inr r"
    "case r of None \<Rightarrow> \<forall>x\<in>set xs. \<not> P x | Some i \<Rightarrow> i < length xs \<and> P (xs ! i)" by auto
  have "f x = Inr (P x)" using Cons.prems by simp
  with r show ?case by (cases "P x"; cases r) auto
qed simp

section \<open>The class\<close>

record value_set =
  buckets :: "(fval \<times> fval list) list"
  holdsObjects :: bool

definition empty_set :: value_set where
  "empty_set = \<lparr>buckets = [], holdsObjects = False\<rparr>"

definition sameValueZero :: "fval \<Rightarrow> fval \<Rightarrow> bool" where
  "sameValueZero a b =
     (case (a, b) of
        (FNum x, FNum y) \<Rightarrow> f64_is x y \<or> (f64_is_zero x \<and> f64_is_zero y)
      | _ \<Rightarrow> a = b)"

fun map_get :: "(fval \<times> 'b) list \<Rightarrow> fval \<Rightarrow> 'b option" where
  "map_get [] k = None"
| "map_get ((k', b) # m) k = (if sameValueZero k' k then Some b else map_get m k)"

fun map_set :: "(fval \<times> 'b) list \<Rightarrow> fval \<Rightarrow> 'b \<Rightarrow> (fval \<times> 'b) list" where
  "map_set [] k b = [(k, b)]"
| "map_set ((k', b') # m) k b = (if sameValueZero k' k then (k', b) # m else (k', b') # map_set m k b)"

definition isObject :: "fval \<Rightarrow> bool" where
  "isObject value \<longleftrightarrow> isObjectOrArray value"

definition keyOf :: "host \<Rightarrow> fval \<Rightarrow> hash_error + fval" where
  "keyOf h value =
     (if isObject value then bindR (hashStringOf h value) (\<lambda>s. Inr (FStr s)) else Inr value)"

definition vs_find :: "host \<Rightarrow> value_set \<Rightarrow> fval \<Rightarrow> hash_error + (fval \<times> fval list \<times> nat) option" where
  "vs_find h s value =
     (if \<not> holdsObjects s \<and> isObject value then Inr None
      else
        bindR (keyOf h value) (\<lambda>key.
          case map_get (buckets s) key of
            None \<Rightarrow> Inr None
          | Some bucket \<Rightarrow>
              bindR (findIndexR (\<lambda>member. valueEqual h member value) bucket) (\<lambda>index.
                Inr (map_option (\<lambda>i. (key, bucket, i)) index))))"

definition vs_has :: "host \<Rightarrow> value_set \<Rightarrow> fval \<Rightarrow> hash_error + bool" where
  "vs_has h s value = bindR (vs_find h s value) (\<lambda>r. Inr (r \<noteq> None))"

definition vs_add :: "host \<Rightarrow> value_set \<Rightarrow> fval \<Rightarrow> hash_error + (value_set \<times> bool)" where
  "vs_add h s value =
     bindR (vs_has h s value) (\<lambda>present.
       if present then Inr (s, False)
       else
         bindR (keyOf h value) (\<lambda>key.
           let bucket = (case map_get (buckets s) key of None \<Rightarrow> [value] | Some bucket \<Rightarrow> bucket @ [value])
           in Inr (s\<lparr>buckets := map_set (buckets s) key bucket,
                     holdsObjects := holdsObjects s \<or> isObject value\<rparr>, True)))"

definition vs_delete :: "host \<Rightarrow> value_set \<Rightarrow> fval \<Rightarrow> hash_error + value_set" where
  "vs_delete h s value =
     bindR (vs_find h s value) (\<lambda>r.
       case r of
         None \<Rightarrow> Inr s
       | Some (key, bucket, index) \<Rightarrow>
           Inr (s\<lparr>buckets := map_set (buckets s) key (take index bucket @ drop (Suc index) bucket)\<rparr>))"

section \<open>Buckets\<close>

lemma sameValueZero_refl [simp]: "sameValueZero a a"
  by (cases a) (auto simp: sameValueZero_def f64_is_def)

lemma sameValueZero_sym: "sameValueZero a b \<Longrightarrow> sameValueZero b a"
  by (cases a; cases b) (auto simp: sameValueZero_def f64_is_def)

lemma nan_not_zero: "f64_nan x \<Longrightarrow> \<not> f64_is_zero x"
  by (simp add: f64_nan_def f64_is_zero_def f64_mag_def)

lemma sameValueZero_trans: "sameValueZero a b \<Longrightarrow> sameValueZero b c \<Longrightarrow> sameValueZero a c"
  by (cases a; cases b; cases c) (auto simp: sameValueZero_def f64_is_def dest: nan_not_zero)

lemma map_get_cong: "sameValueZero k k' \<Longrightarrow> map_get m k = map_get m k'"
  by (induction m k rule: map_get.induct) (auto dest: sameValueZero_trans sameValueZero_sym)

lemma map_get_set: "map_get (map_set m k b) k' = (if sameValueZero k k' then Some b else map_get m k')"
  by (induction m k b rule: map_set.induct) (auto dest: sameValueZero_trans sameValueZero_sym)

definition bucket_of :: "value_set \<Rightarrow> fval \<Rightarrow> fval list" where
  "bucket_of s k = (case map_get (buckets s) k of None \<Rightarrow> [] | Some b \<Rightarrow> b)"

text \<open>What a set is a set of.\<close>

definition contents :: "value_set \<Rightarrow> fval set" where
  "contents s = {canon m | m k. m \<in> set (bucket_of s k)}"

text \<open>Values of one comparison: hashable, their hashed bytes told apart by the host's SHA-256.\<close>

definition comparable :: "host \<Rightarrow> fval set \<Rightarrow> bool" where
  "comparable h G \<longleftrightarrow> sha_ok h (\<Union>v\<in>G. set (hashed_bytes h v)) \<and> (\<forall>v\<in>G. hashable h v)"

lemma comparable_subset: "comparable h G \<Longrightarrow> H \<subseteq> G \<Longrightarrow> comparable h H"
proof -
  assume "comparable h G" "H \<subseteq> G"
  moreover from this have "(\<Union>v\<in>H. set (hashed_bytes h v)) \<subseteq> (\<Union>v\<in>G. set (hashed_bytes h v))" by blast
  ultimately show "comparable h H"
    unfolding comparable_def sha_ok_def by (meson inj_on_subset subsetD)
qed

lemma comparable_equal:
  "comparable h G \<Longrightarrow> a \<in> G \<Longrightarrow> b \<in> G \<Longrightarrow> valueEqual h a b = Inr (canon a = canon b)"
  unfolding comparable_def
  by (rule valueEqual_iff [of h "\<Union>v\<in>G. set (hashed_bytes h v)"]) blast+

lemma isObject_canon: "canon a = canon b \<Longrightarrow> isObject a = isObject b"
  by (cases a; cases b) (simp_all add: isObject_def)

lemma comparable_key:
  assumes "comparable h G" "a \<in> G"
  obtains k where "keyOf h a = Inr k"
proof -
  have "hashable h a" using assms by (simp add: comparable_def)
  then obtain x where "feedValue h a = Inr x" by (auto simp: hashable_def split: sum.splits)
  then have "\<exists>k. keyOf h a = Inr k" by (simp add: keyOf_def hashStringOf_def computeHash_def)
  then show thesis using that by blast
qed

lemma key_canon:
  assumes "canon a = canon b" "keyOf h a = Inr k" "keyOf h b = Inr l"
  shows "sameValueZero k l"
proof (cases "isObject a")
  case True
  have "hashStringOf h a = hashStringOf h b"
    using feedValue_canon [of h a] feedValue_canon [of h b] assms(1) by (simp add: hashStringOf_def computeHash_def)
  then show ?thesis using True isObject_canon [OF assms(1)] assms(2,3) by (simp add: keyOf_def)
next
  case False
  then have k: "k = a" "l = b" using isObject_canon [OF assms(1)] assms(2,3) by (simp_all add: keyOf_def)
  show ?thesis using assms(1) False unfolding k
    by (cases a; cases b) (auto simp: sameValueZero_def isObject_def canon_num_eq)
qed

definition vs_inv :: "host \<Rightarrow> fval set \<Rightarrow> value_set \<Rightarrow> bool" where
  "vs_inv h G s \<longleftrightarrow>
     (\<forall>k m. m \<in> set (bucket_of s k) \<longrightarrow> m \<in> G \<and> (\<exists>l. keyOf h m = Inr l \<and> sameValueZero l k)
        \<and> (isObject m \<longrightarrow> holdsObjects s))
     \<and> (\<forall>k. distinct (map canon (bucket_of s k)))"

lemma vs_inv_member:
  "vs_inv h G s \<Longrightarrow> m \<in> set (bucket_of s k) \<Longrightarrow> m \<in> G \<and> (\<exists>l. keyOf h m = Inr l \<and> sameValueZero l k) \<and> (isObject m \<longrightarrow> holdsObjects s)"
  by (simp add: vs_inv_def)

lemma contents_bucket:
  assumes "vs_inv h G s" "keyOf h v = Inr k"
  shows "canon v \<in> contents s \<longleftrightarrow> (\<exists>m\<in>set (bucket_of s k). canon m = canon v)"
proof
  assume "canon v \<in> contents s"
  then obtain m l where m: "canon m = canon v" "m \<in> set (bucket_of s l)" by (auto simp: contents_def)
  then obtain j where j: "keyOf h m = Inr j" "sameValueZero j l" using vs_inv_member [OF assms(1)] by blast
  have "sameValueZero j k" by (rule key_canon [OF m(1) j(1) assms(2)])
  then have "sameValueZero l k" using j(2) sameValueZero_trans sameValueZero_sym by blast
  then have "bucket_of s l = bucket_of s k" by (simp add: bucket_of_def map_get_cong)
  then show "\<exists>m\<in>set (bucket_of s k). canon m = canon v" using m by auto
next
  assume "\<exists>m\<in>set (bucket_of s k). canon m = canon v"
  then obtain m where "m \<in> set (bucket_of s k)" "canon m = canon v" by blast
  then show "canon v \<in> contents s" unfolding contents_def by (metis (mono_tags, lifting) mem_Collect_eq)
qed

lemma vs_find_spec:
  assumes "comparable h G" "vs_inv h G s" "v \<in> G"
  shows "\<exists>r. vs_find h s v = Inr r \<and>
    (case r of
       None \<Rightarrow> canon v \<notin> contents s
     | Some (key, bucket, i) \<Rightarrow> canon v \<in> contents s \<and> keyOf h v = Inr key \<and> bucket = bucket_of s key
         \<and> map_get (buckets s) key = Some bucket \<and> i < length bucket \<and> canon (bucket ! i) = canon v)"
proof (cases "\<not> holdsObjects s \<and> isObject v")
  case True
  have "canon v \<notin> contents s"
  proof
    assume "canon v \<in> contents s"
    then obtain m k where "canon v = canon m" "m \<in> set (bucket_of s k)" by (auto simp: contents_def)
    then show False using True isObject_canon vs_inv_member [OF assms(2)] by blast
  qed
  then show ?thesis using True by (simp add: vs_find_def)
next
  case False
  obtain key where key: "keyOf h v = Inr key" using comparable_key [OF assms(1,3)] .
  note c = contents_bucket [OF assms(2) key]
  show ?thesis
  proof (cases "map_get (buckets s) key")
    case None
    then have "canon v \<notin> contents s" using c by (simp add: bucket_of_def)
    then show ?thesis using None key False by (auto simp: vs_find_def)
  next
    case (Some b)
    then have b: "bucket_of s key = b" by (simp add: bucket_of_def)
    have "valueEqual h m v = Inr (canon m = canon v)" if "m \<in> set b" for m
      using comparable_equal [OF assms(1) _ assms(3), of m] vs_inv_member [OF assms(2), of m key] b that by simp
    then have "\<exists>r. findIndexR (\<lambda>m. valueEqual h m v) b = Inr r
        \<and> (case r of None \<Rightarrow> \<forall>m\<in>set b. canon m \<noteq> canon v | Some i \<Rightarrow> i < length b \<and> canon (b ! i) = canon v)"
      by (rule findIndexR_total)
    then obtain r where r: "findIndexR (\<lambda>m. valueEqual h m v) b = Inr r"
      "case r of None \<Rightarrow> \<forall>m\<in>set b. canon m \<noteq> canon v | Some i \<Rightarrow> i < length b \<and> canon (b ! i) = canon v" by blast
    have "vs_find h s v = Inr (map_option (\<lambda>i. (key, b, i)) r)"
      using False key Some r(1) by (auto simp: vs_find_def)
    then show ?thesis
    proof (intro exI conjI)
      show "case map_option (\<lambda>i. (key, b, i)) r of
          None \<Rightarrow> canon v \<notin> contents s
        | Some (key, bucket, i) \<Rightarrow> canon v \<in> contents s \<and> keyOf h v = Inr key \<and> bucket = bucket_of s key
            \<and> map_get (buckets s) key = Some bucket \<and> i < length bucket \<and> canon (bucket ! i) = canon v"
        using r(2) c b key Some by (cases r) (auto intro: bexI [OF _ nth_mem])
    qed
  qed
qed

lemma vs_has_spec:
  "comparable h G \<Longrightarrow> vs_inv h G s \<Longrightarrow> v \<in> G \<Longrightarrow> vs_has h s v = Inr (canon v \<in> contents s)"
  using vs_find_spec [of h G s v] by (auto simp: vs_has_def split: option.splits)

lemma bucket_of_set: "bucket_of (s\<lparr>buckets := map_set (buckets s) key b, holdsObjects := o'\<rparr>) k =
    (if sameValueZero key k then b else bucket_of s k)"
  by (simp add: bucket_of_def map_get_set)

lemma vs_add_spec:
  assumes "comparable h G" "vs_inv h G s" "v \<in> G"
  shows "\<exists>s'. vs_add h s v = Inr (s', canon v \<notin> contents s) \<and> vs_inv h G s' \<and> contents s' = insert (canon v) (contents s)"
proof (cases "canon v \<in> contents s")
  case True
  then show ?thesis using vs_has_spec [OF assms] assms(2) by (auto simp: vs_add_def)
next
  case False
  obtain key where key: "keyOf h v = Inr key" using comparable_key [OF assms(1,3)] .
  define s' where "s' = s\<lparr>buckets := map_set (buckets s) key (bucket_of s key @ [v]), holdsObjects := holdsObjects s \<or> isObject v\<rparr>"
  have "(case map_get (buckets s) key of None \<Rightarrow> [v] | Some bucket \<Rightarrow> bucket @ [v]) = bucket_of s key @ [v]"
    by (simp add: bucket_of_def split: option.splits)
  then have add: "vs_add h s v = Inr (s', True)"
    using False key vs_has_spec [OF assms] by (simp add: vs_add_def s'_def Let_def)
  have b: "bucket_of s' k = (if sameValueZero key k then bucket_of s k @ [v] else bucket_of s k)" for k
  proof -
    have "sameValueZero key k \<Longrightarrow> bucket_of s key = bucket_of s k" by (simp add: bucket_of_def map_get_cong)
    then show ?thesis unfolding s'_def bucket_of_set by simp
  qed
  have "vs_inv h G s'"
    unfolding vs_inv_def
  proof (intro conjI allI impI)
    fix k m assume "m \<in> set (bucket_of s' k)"
    then have "m \<in> set (bucket_of s k) \<or> m = v \<and> sameValueZero key k" by (auto simp: b split: if_splits)
    then show "m \<in> G" "\<exists>l. keyOf h m = Inr l \<and> sameValueZero l k" "isObject m \<Longrightarrow> holdsObjects s'"
      using vs_inv_member [OF assms(2)] assms(3) key by (auto simp: s'_def)
  next
    fix k
    have "distinct (map canon (bucket_of s k))" using assms(2) by (simp add: vs_inv_def)
    moreover have "canon v \<notin> canon ` set (bucket_of s k)"
      using False by (auto simp: contents_def)
    ultimately show "distinct (map canon (bucket_of s' k))" by (simp add: b)
  qed
  moreover have "contents s' = insert (canon v) (contents s)"
  proof -
    have "c \<in> contents s' \<longleftrightarrow> c = canon v \<or> c \<in> contents s" for c
    proof
      assume "c \<in> contents s'"
      then show "c = canon v \<or> c \<in> contents s" unfolding contents_def by (auto simp: b split: if_splits)
    next
      assume "c = canon v \<or> c \<in> contents s"
      moreover have "v \<in> set (bucket_of s' key)" by (simp add: b)
      moreover have "set (bucket_of s k) \<subseteq> set (bucket_of s' k)" for k by (auto simp: b)
      ultimately show "c \<in> contents s'" unfolding contents_def by blast
    qed
    then show ?thesis by blast
  qed
  ultimately show ?thesis using add False by auto
qed

lemma distinct_drop_nth:
  "distinct (map f xs) \<Longrightarrow> i < length xs \<Longrightarrow>
     f ` set (take i xs @ drop (Suc i) xs) = f ` set xs - {f (xs ! i)}"
proof -
  assume d: "distinct (map f xs)" and i: "i < length xs"
  have "map f xs = map f (take i xs) @ f (xs ! i) # map f (drop (Suc i) xs)"
    using id_take_nth_drop [OF i] by (metis list.simps(9) map_append)
  then have "distinct (map f (take i xs) @ f (xs ! i) # map f (drop (Suc i) xs))" "f ` set xs = set (map f (take i xs) @ f (xs ! i) # map f (drop (Suc i) xs))"
    using d by (metis, metis list.set_map)
  then show ?thesis by (auto simp: image_Un)
qed

lemma vs_delete_spec:
  assumes "comparable h G" "vs_inv h G s" "v \<in> G"
  shows "\<exists>s'. vs_delete h s v = Inr s' \<and> vs_inv h G s' \<and> contents s' = contents s - {canon v}"
proof -
  obtain r where r: "vs_find h s v = Inr r" "case r of
       None \<Rightarrow> canon v \<notin> contents s
     | Some (key, bucket, i) \<Rightarrow> canon v \<in> contents s \<and> keyOf h v = Inr key \<and> bucket = bucket_of s key
         \<and> map_get (buckets s) key = Some bucket \<and> i < length bucket \<and> canon (bucket ! i) = canon v"
    using vs_find_spec [OF assms] by blast
  show ?thesis
  proof (cases r)
    case None
    then show ?thesis using r assms(2) by (auto simp: vs_delete_def)
  next
    case (Some t)
    obtain key bucket i where t: "t = (key, bucket, i)" by (cases t)
    let ?b = "take i bucket @ drop (Suc i) bucket"
    have f: "keyOf h v = Inr key" "bucket = bucket_of s key" "i < length bucket" "canon (bucket ! i) = canon v"
      using r(2) Some t by auto
    define s' where "s' = s\<lparr>buckets := map_set (buckets s) key ?b\<rparr>"
    have del: "vs_delete h s v = Inr s'" using r(1) Some t by (simp add: vs_delete_def s'_def)
    have b: "bucket_of s' k = (if sameValueZero key k then ?b else bucket_of s k)" for k
      by (simp add: s'_def bucket_of_def map_get_set)
    have same: "sameValueZero key k \<Longrightarrow> bucket_of s k = bucket" for k
      by (simp add: f(2) bucket_of_def map_get_cong)
    have sub: "set (bucket_of s' k) \<subseteq> set (bucket_of s k)" for k
      using same [of k] by (auto simp: b dest: in_set_takeD in_set_dropD)
    have d: "distinct (map canon (bucket_of s k))" for k using assms(2) by (simp add: vs_inv_def)
    have "vs_inv h G s'"
      unfolding vs_inv_def
    proof (intro conjI allI impI)
      fix k m assume "m \<in> set (bucket_of s' k)"
      then have "m \<in> set (bucket_of s k)" using sub by blast
      from vs_inv_member [OF assms(2) this]
      show "m \<in> G" "\<exists>l. keyOf h m = Inr l \<and> sameValueZero l k" "isObject m \<Longrightarrow> holdsObjects s'"
        by (auto simp: s'_def)
    next
      fix k
      have "distinct (map canon ?b)"
      proof -
        have "map canon ?b = take i (map canon bucket) @ drop (Suc i) (map canon bucket)"
          by (simp add: take_map drop_map)
        then show ?thesis
          using d [of key] f(2) set_take_disj_set_drop_if_distinct [of "map canon bucket" i "Suc i"]
          by (simp add: distinct_append)
      qed
      then show "distinct (map canon (bucket_of s' k))" using d [of k] by (simp add: b)
    qed
    moreover have "contents s' = contents s - {canon v}"
    proof -
      have img: "canon ` set ?b = canon ` set bucket - {canon v}"
        using distinct_drop_nth [of canon bucket i] d [of key] f by simp
      have "c \<in> contents s' \<longleftrightarrow> c \<in> contents s \<and> c \<noteq> canon v" for c
      proof
        assume "c \<in> contents s'"
        then obtain m k where m: "c = canon m" "m \<in> set (bucket_of s' k)" by (auto simp: contents_def)
        then have "c \<in> contents s" using sub by (auto simp: contents_def)
        moreover have "c \<noteq> canon v"
        proof
          assume c: "c = canon v"
          from m sub have mk: "m \<in> set (bucket_of s k)" by blast
          then obtain j where "keyOf h m = Inr j" "sameValueZero j k" using vs_inv_member [OF assms(2)] by blast
          moreover have "sameValueZero j key" using key_canon [of m v h j key] m c f(1) calculation by simp
          ultimately have "sameValueZero key k" using sameValueZero_trans sameValueZero_sym by blast
          then have "canon m \<in> canon ` set ?b" using m(2) by (simp only: b if_True image_eqI)
          then show False using img m c by simp
        qed
        ultimately show "c \<in> contents s \<and> c \<noteq> canon v" ..
      next
        assume c: "c \<in> contents s \<and> c \<noteq> canon v"
        then obtain m k where m: "c = canon m" "m \<in> set (bucket_of s k)" by (auto simp: contents_def)
        have "\<exists>m'\<in>set (bucket_of s' k). canon m' = c"
        proof (cases "sameValueZero key k")
          case True
          then have "c \<in> canon ` set bucket" using m same [OF True] by simp
          then have "c \<in> canon ` set ?b" using img c by simp
          then show ?thesis using True by (auto simp only: b if_True)
        next
          case False
          then show ?thesis using m by (auto simp: b)
        qed
        then show "c \<in> contents s'" unfolding contents_def by blast
      qed
      then show ?thesis by blast
    qed
    ultimately show ?thesis using del by blast
  qed
qed

lemma empty_set_spec: "vs_inv h G empty_set" "contents empty_set = {}"
  by (simp_all add: vs_inv_def contents_def bucket_of_def empty_set_def)

section \<open>Properties\<close>

text \<open>The sets the class can hold, each with the canonical forms put in and not taken out again.\<close>

inductive vs_steps :: "host \<Rightarrow> fval set \<Rightarrow> value_set \<Rightarrow> fval set \<Rightarrow> bool" for h G where
  vs_empty: "vs_steps h G empty_set {}"
| vs_adds: "vs_steps h G s A \<Longrightarrow> v \<in> G \<Longrightarrow> vs_add h s v = Inr (s', added) \<Longrightarrow> vs_steps h G s' (insert (canon v) A)"
| vs_deletes: "vs_steps h G s A \<Longrightarrow> v \<in> G \<Longrightarrow> vs_delete h s v = Inr s' \<Longrightarrow> vs_steps h G s' (A - {canon v})"

lemma vs_steps_inv: "vs_steps h G s A \<Longrightarrow> comparable h G \<Longrightarrow> vs_inv h G s \<and> contents s = A"
proof (induction rule: vs_steps.induct)
  case vs_empty
  then show ?case by (simp add: empty_set_spec)
next
  case (vs_adds s A v s' added)
  then show ?case using vs_add_spec [of h G s v] by auto
next
  case (vs_deletes s A v s')
  then show ?case using vs_delete_spec [of h G s v] by auto
qed

text \<open>C34. However a \<^verbatim>\<open>ValueSet\<close> was filled and emptied, it behaves as the set of the canonical forms
  of its values, over values SHA-256 tells apart: membership decides it, an addition reports whether
  the form was new, and neither fails; buckets, hash keys and the shortcut for sets without objects
  make no difference.\<close>

theorem value_set_refinement:
  assumes "comparable h G" and "vs_steps h G s A" and "v \<in> G"
  shows "vs_has h s v = Inr (canon v \<in> A) \<and> (\<exists>s'. vs_add h s v = Inr (s', canon v \<notin> A))
    \<and> (\<exists>s'. vs_delete h s v = Inr s')"
proof -
  have s: "vs_inv h G s" "contents s = A" using vs_steps_inv [OF assms(2,1)] by simp_all
  then show ?thesis
    using vs_has_spec [OF assms(1) s(1) assms(3)] vs_add_spec [OF assms(1) s(1) assms(3)]
      vs_delete_spec [OF assms(1) s(1) assms(3)] by blast
qed

theorem value_set_refinement_witness:
  "\<exists>s. vs_add padding_host empty_set (FArr [None]) = Inr (s, True) \<and> vs_has padding_host s (FArr [Some FUndefined]) = Inr False"
proof -
  let ?G = "{(FArr [None]), (FArr [Some FUndefined])}"
  have f: "feedValue padding_host (FArr [None]) = Inr [0x10, 0x01, 1, 0x00]"
    "feedValue padding_host (FArr [Some FUndefined]) = Inr [0x10, 0x21, 0x00]"
    by code_simp+
  have "sha_ok padding_host (\<Union>v\<in>?G. set (hashed_bytes padding_host v))"
    unfolding hashed_bytes_def f UN_insert UN_empty by (rule padding_host_ok) (simp add: padding_host_def)
  moreover have "hashable padding_host (FArr [None])" "hashable padding_host (FArr [Some FUndefined])"
    unfolding hashable_def f by simp_all
  ultimately have G: "comparable padding_host ?G" unfolding comparable_def by blast
  have "(FArr [None]) \<in> ?G" by simp
  note zero = this
  obtain s where s: "vs_add padding_host empty_set (FArr [None]) = Inr (s, canon (FArr [None]) \<notin> {})"
    using value_set_refinement [OF G vs_empty zero] by (elim conjE exE)
  have neg: "(FArr [Some FUndefined]) \<in> ?G" by (rule insertI2) (rule singletonI)
  have c: "canon (FArr [Some FUndefined]) \<notin> insert (canon (FArr [None])) {}" by simp
  have "vs_has padding_host s (FArr [Some FUndefined])
      = Inr (canon (FArr [Some FUndefined]) \<in> insert (canon (FArr [None])) {})"
    by (rule value_set_refinement [OF G vs_adds [OF vs_empty zero s] neg, THEN conjunct1])
  then have "vs_has padding_host s (FArr [Some FUndefined]) = Inr False" using c by (simp only: simp_thms)
  then show ?thesis using s by (simp only: empty_iff simp_thms not_False_eq_True) blast
qed

end
