(* ===== verification/Patch.thy ===== *)
theory Patch
  imports PathEdit ValueSet
begin

text \<open>
  Patches of an entity document (\<^verbatim>\<open>runtime/memory/v2/patch.ts\<close>, the \<^verbatim>\<open>PatchOp\<close> union of
  \<^verbatim>\<open>runtime/memory/v2.ts\<close>, and \<^verbatim>\<open>spliceAll\<close> of \<^verbatim>\<open>base/collections/src/splice.ts\<close>). Each
  operation returns the new root or the error the code throws. The lists an operation carries may
  have holes, which the code reads as \<^verbatim>\<open>undefined\<close>. An operation that gives an array a property
  that is not an index leaves the model with the error \<open>OutsideModel\<close>.
\<close>

datatype patch_op =
    Replace string fval
  | Add string fval
  | Remove string
  | Move string string \<comment> \<open>from, path\<close>
  | Splice string int int "fval option list" \<comment> \<open>path, index, remove, add\<close>
  | Append string "fval option list" bool \<comment> \<open>path, values, createsKey\<close>
  | AddUnique string "fval option list" bool
  | RemoveByValue string fval
  | Increment string f64 bool \<comment> \<open>path, by, createsKey\<close>

datatype patch_error =
    BadPointer string
  | NotTraversable path
  | MissingPath path
  | RootRemove
  | MissingKey path
  | MoveRoot
  | MoveIntoDescendant
  | SpliceTarget path
  | InvalidSplice path
  | TailTarget string path
  | IncrementRoot
  | IncrementAmount path
  | IncrementTarget path
  | InvalidIndex string
  | IndexOutOfBounds string
  | NotEntityDocument
  | HashError hash_error
  | OutsideModel

section \<open>Shapes and indices\<close>

definition isInstance :: "fval \<Rightarrow> bool" where
  "isInstance value \<longleftrightarrow> isObjectNotArray value \<and> \<not> isFabricPlainObject value"

definition isPatchObject :: "fval \<Rightarrow> bool" where
  "isPatchObject value \<longleftrightarrow> isObjectNotArray value \<and> \<not> isInstance value"

definition isContainer :: "fval \<Rightarrow> bool" where
  "isContainer value \<longleftrightarrow> isArray value \<or> isPatchObject value"

definition isEntityDocument :: "fval \<Rightarrow> bool" where
  "isEntityDocument value \<longleftrightarrow> isFabricPlainObject value"

definition MAX_ARRAY_INDEX :: nat where "MAX_ARRAY_INDEX = 2 ^ 32 - 2"

definition isArraySegment :: "string \<Rightarrow> bool" where
  "isArraySegment segment =
     (case segment of
        [] \<Rightarrow> False
      | c # cs \<Rightarrow>
          if c = CHR ''0'' then cs = []
          else digit_of c \<noteq> None \<and> list_all (\<lambda>d. digit_of d \<noteq> None) cs)"

definition parseArrayIndex :: "string \<Rightarrow> patch_error + nat" where
  "parseArrayIndex segment =
     (if \<not> isArraySegment segment then Inl (InvalidIndex segment)
      else
        let index = index_of segment in
        if index > MAX_ARRAY_INDEX then Inl (IndexOutOfBounds segment) else Inr index)"

definition parseArrayInsertIndex :: "string \<Rightarrow> nat \<Rightarrow> patch_error + nat" where
  "parseArrayInsertIndex segment len =
     bindR (parseArrayIndex segment) (\<lambda>index.
       if index > len then Inl (IndexOutOfBounds segment) else Inr index)"

definition requireExistingArrayIndex :: "fval option list \<Rightarrow> string \<Rightarrow> path \<Rightarrow> patch_error + nat" where
  "requireExistingArrayIndex array segment path =
     bindR (parseArrayIndex segment) (\<lambda>index.
       if arr_at array index = None then Inl (MissingPath path) else Inr index)"

definition isStrictPrefixPath :: "path \<Rightarrow> path \<Rightarrow> bool" where
  "isStrictPrefixPath pre path \<longleftrightarrow>
     length pre < length path \<and> list_all (\<lambda>index. path ! index = pre ! index) [0..<length pre]"

section \<open>Splicing\<close>

text \<open>\<^verbatim>\<open>tail.forEach((item, index) => array[tailStart + index] = item)\<close>, which skips holes.\<close>

fun place_tail :: "nat \<Rightarrow> 'a option list \<Rightarrow> 'a option list \<Rightarrow> 'a option list" where
  "place_tail at [] array = array"
| "place_tail at (None # tail) array = place_tail (Suc at) tail array"
| "place_tail at (Some item # tail) array = place_tail (Suc at) tail (set_elem at item array)"

definition spliceAll :: "'a option list \<Rightarrow> nat \<Rightarrow> nat \<Rightarrow> 'a list \<Rightarrow> 'a option list \<times> 'a option list" where
  "spliceAll array start deleteCount inserted =
     (let tail = drop start array; array1 = take start array;
          removed = take deleteCount tail; tail1 = drop deleteCount tail;
          array2 = array1 @ map Some inserted;
          tailStart = length array2;
          array3 = array2 @ replicate (length tail1) None
      in (place_tail tailStart tail1 array3, removed))"

text \<open>Iterating a list reads a hole as \<^verbatim>\<open>undefined\<close>.\<close>

definition iterate :: "fval option list \<Rightarrow> fval list" where
  "iterate xs = map (\<lambda>x. case x of None \<Rightarrow> FUndefined | Some v \<Rightarrow> v) xs"

section \<open>The spine of an operation\<close>

fun spine_error :: "path \<Rightarrow> clone_error \<Rightarrow> patch_error" where
  "spine_error fullPath (MissingSegment _) = MissingPath fullPath"
| "spine_error fullPath NamedArrayProperty = OutsideModel"
| "spine_error fullPath _ = NotTraversable fullPath"

definition thawSpine :: "fval \<Rightarrow> path \<Rightarrow> path \<Rightarrow> string option \<Rightarrow> patch_error + (fval \<times> fval)" where
  "thawSpine root thawPath fullPath createMissingFor =
     (case (case createMissingFor of
              None \<Rightarrow> cloneForMutation root thawPath False ''''
            | Some nextKey \<Rightarrow> cloneForMutation root thawPath True nextKey) of
        Inl e \<Rightarrow> Inl (spine_error fullPath e)
      | Inr (value, pathValue) \<Rightarrow>
          if \<not> isContainer pathValue then Inl (NotTraversable fullPath) else Inr (value, pathValue))"

text \<open>The tree once the container handed out has been mutated.\<close>

definition mutated :: "fval \<Rightarrow> path \<Rightarrow> fval \<Rightarrow> patch_error + fval" where
  "mutated root path container =
     (case writeBack root path container of Inl _ \<Rightarrow> Inl OutsideModel | Inr r \<Rightarrow> Inr r)"

fun trace_containers :: "path_trace \<Rightarrow> fval list" where
  "trace_containers (Complete containers _) = containers"
| "trace_containers (Missing containers _) = containers"
| "trace_containers (Blocked containers _ _) = containers"

fun trace_missing_at :: "path_trace \<Rightarrow> nat \<Rightarrow> bool" where
  "trace_missing_at (Missing _ at) i = (i = at)"
| "trace_missing_at _ i = False"

fun trace_blocked :: "path_trace \<Rightarrow> bool" where
  "trace_blocked (Blocked _ _ _) = True"
| "trace_blocked _ = False"

fun trace_value :: "path_trace \<Rightarrow> fval option" where
  "trace_value (Complete _ value) = Some value"
| "trace_value _ = None"

fun validate_loop :: "path \<Rightarrow> path_trace \<Rightarrow> nat \<Rightarrow> path \<Rightarrow> patch_error + unit" where
  "validate_loop path trace i [] = Inr ()"
| "validate_loop path trace i (segment # spine) =
     (if i < length (trace_containers trace) then
        if isArray (trace_containers trace ! i) then
          bindR (parseArrayIndex segment) (\<lambda>_.
            if trace_missing_at trace i then Inl (MissingPath path)
            else validate_loop path trace (Suc i) spine)
        else validate_loop path trace (Suc i) spine
      else if trace_blocked trace then Inl (NotTraversable path)
      else if missingContainerIsArray segment then Inl (MissingPath path)
      else validate_loop path trace (Suc i) spine)"

definition validateAddSpine :: "fval \<Rightarrow> path \<Rightarrow> patch_error + unit" where
  "validateAddSpine root path =
     (let spine = butlast path in validate_loop path (tracePath root spine) 0 spine)"

section \<open>The operations\<close>

definition replaceAtPath :: "fval \<Rightarrow> path \<Rightarrow> fval \<Rightarrow> patch_error + fval" where
  "replaceAtPath root path value =
     (if length path = 0 then Inr value
      else
        bindR (thawSpine root (butlast path) path None) (\<lambda>(newRoot, container).
          let key = last path in
          bindR (case container of
                   FArr xs \<Rightarrow>
                     bindR (requireExistingArrayIndex xs key path) (\<lambda>i. Inr (FArr (set_elem i value xs)))
                 | FObj ps \<Rightarrow> Inr (FObj (set_prop key value ps))
                 | _ \<Rightarrow> Inl OutsideModel)
            (mutated newRoot (butlast path))))"

definition addAtPath :: "fval \<Rightarrow> path \<Rightarrow> fval \<Rightarrow> patch_error + fval" where
  "addAtPath root path value =
     (if length path = 0 then Inr value
      else
        bindR (validateAddSpine root path) (\<lambda>_.
          let key = last path in
          bindR (thawSpine root (butlast path) path (Some key)) (\<lambda>(newRoot, container).
            bindR (case container of
                     FArr xs \<Rightarrow>
                       if key = ''-'' then Inr (FArr (xs @ [Some value]))
                       else bindR (parseArrayInsertIndex key (length xs)) (\<lambda>i.
                              Inr (FArr (take i xs @ Some value # drop i xs)))
                   | FObj ps \<Rightarrow> Inr (FObj (set_prop key value ps))
                   | _ \<Rightarrow> Inl OutsideModel)
              (mutated newRoot (butlast path)))))"

definition removeAtPath :: "fval \<Rightarrow> path \<Rightarrow> patch_error + fval" where
  "removeAtPath root path =
     (if length path = 0 then Inl RootRemove
      else
        bindR (thawSpine root (butlast path) path None) (\<lambda>(newRoot, container).
          let key = last path in
          bindR (case container of
                   FArr xs \<Rightarrow>
                     bindR (requireExistingArrayIndex xs key path) (\<lambda>i.
                       Inr (FArr (take i xs @ drop (Suc i) xs)))
                 | FObj ps \<Rightarrow>
                     if map_of ps key = None then Inl (MissingKey path)
                     else Inr (FObj (delete_prop key ps))
                 | _ \<Rightarrow> Inl OutsideModel)
            (mutated newRoot (butlast path))))"

fun getAtPath_loop :: "path \<Rightarrow> fval \<Rightarrow> path \<Rightarrow> patch_error + fval" where
  "getAtPath_loop path current [] = Inr current"
| "getAtPath_loop path current (segment # rest) =
     (case current of
        FArr xs \<Rightarrow>
          bindR (requireExistingArrayIndex xs segment path) (\<lambda>i.
            case arr_at xs i of None \<Rightarrow> Inl (MissingPath path) | Some v \<Rightarrow> getAtPath_loop path v rest)
      | FObj ps \<Rightarrow>
          (case map_of ps segment of
             None \<Rightarrow> Inl (MissingPath path) | Some v \<Rightarrow> getAtPath_loop path v rest)
      | _ \<Rightarrow> Inl (MissingPath path))"

definition getAtPath :: "fval \<Rightarrow> path \<Rightarrow> patch_error + fval" where
  "getAtPath root path = getAtPath_loop path root path"

definition moveValue :: "fval \<Rightarrow> path \<Rightarrow> path \<Rightarrow> patch_error + fval" where
  "moveValue root src path =
     (if length src = 0 then Inl MoveRoot
      else if isStrictPrefixPath src path then Inl MoveIntoDescendant
      else
        bindR (getAtPath root src) (\<lambda>extracted.
          bindR (removeAtPath root src) (\<lambda>removed. addAtPath removed path extracted)))"

definition spliceAtPath ::
    "fval \<Rightarrow> path \<Rightarrow> int \<Rightarrow> int \<Rightarrow> fval option list \<Rightarrow> patch_error + fval" where
  "spliceAtPath root path index remove add =
     bindR (thawSpine root path path None) (\<lambda>(newRoot, container).
       case container of
         FArr xs \<Rightarrow>
           if index < 0 \<or> remove < 0 \<or> index > int (length xs) then Inl (InvalidSplice path)
           else mutated newRoot path (FArr (fst (spliceAll xs (nat index) (nat remove) (iterate add))))
       | _ \<Rightarrow> Inl (SpliceTarget path))"

definition thawTailArray :: "fval \<Rightarrow> path \<Rightarrow> string \<Rightarrow> patch_error + (fval \<times> fval option list)" where
  "thawTailArray root path op =
     bindR (validateAddSpine root path) (\<lambda>_.
       if length path > 0 \<and> trace_value (tracePath root path) = Some FUndefined then
         bindR (thawSpine root (butlast path) path None) (\<lambda>(newRoot, container).
           let key = last path; array = [] in
           bindR (case container of
                    FArr xs \<Rightarrow>
                      bindR (requireExistingArrayIndex xs key path) (\<lambda>i. Inr (FArr (set_elem i (FArr array) xs)))
                  | FObj ps \<Rightarrow> Inr (FObj (set_prop key (FArr array) ps))
                  | _ \<Rightarrow> Inl OutsideModel)
             (\<lambda>c. bindR (mutated newRoot (butlast path) c) (\<lambda>r. Inr (r, array))))
       else
         bindR (thawSpine root path path (Some ''0'')) (\<lambda>(newRoot, container).
           case container of
             FArr xs \<Rightarrow> Inr (newRoot, xs)
           | _ \<Rightarrow> Inl (TailTarget op path)))"

definition appendAtPath :: "fval \<Rightarrow> path \<Rightarrow> fval option list \<Rightarrow> patch_error + fval" where
  "appendAtPath root path values =
     bindR (thawTailArray root path ''append'') (\<lambda>(newRoot, array).
       mutated newRoot path (FArr (array @ map Some (iterate values))))"

definition ADD_UNIQUE_SCAN_LIMIT :: nat where "ADD_UNIQUE_SCAN_LIMIT = 16"

definition lift_hash :: "hash_error + 'a \<Rightarrow> patch_error + 'a" where
  "lift_hash r = (case r of Inl e \<Rightarrow> Inl (HashError e) | Inr x \<Rightarrow> Inr x)"

text \<open>The elements a list holds, holes skipped (as \<^verbatim>\<open>some\<close> and \<^verbatim>\<open>forEach\<close> do).\<close>

fun elements :: "'a option list \<Rightarrow> 'a list" where
  "elements [] = []"
| "elements (None # xs) = elements xs"
| "elements (Some x # xs) = x # elements xs"

text \<open>\<^verbatim>\<open>filter((value) => adding.add(value))\<close>, with the set it fills.\<close>

fun filter_add :: "host \<Rightarrow> value_set \<Rightarrow> fval list \<Rightarrow> hash_error + (value_set \<times> fval list)" where
  "filter_add h adding [] = Inr (adding, [])"
| "filter_add h adding (value # values) =
     bindR (vs_add h adding value) (\<lambda>(adding', added).
       bindR (filter_add h adding' values) (\<lambda>(adding'', distinct).
         Inr (adding'', if added then value # distinct else distinct)))"

definition absent_values :: "host \<Rightarrow> fval option list \<Rightarrow> fval option list \<Rightarrow> hash_error + fval list" where
  "absent_values h container values =
     bindR (filter_add h empty_set (iterate values)) (\<lambda>(adding, distinct).
       if length distinct \<le> ADD_UNIQUE_SCAN_LIMIT then
         filterR (\<lambda>value. bindR (someR (\<lambda>existing. valueEqual h existing value) (elements container))
           (\<lambda>found. Inr (\<not> found))) distinct
       else
         bindR (foldR (vs_delete h) adding (elements container)) (\<lambda>left.
           filterR (vs_has h left) distinct))"

definition addUniqueAtPath :: "host \<Rightarrow> fval \<Rightarrow> path \<Rightarrow> fval option list \<Rightarrow> patch_error + fval" where
  "addUniqueAtPath h root path values =
     bindR (thawTailArray root path ''add-unique'') (\<lambda>(newRoot, container).
       bindR (lift_hash (absent_values h container values)) (\<lambda>absent.
         mutated newRoot path (FArr (container @ map Some absent))))"

fun readNumberOrAbsent :: "fval \<Rightarrow> path \<Rightarrow> fval" where
  "readNumberOrAbsent current [] = current"
| "readNumberOrAbsent current (segment # path) =
     (case current of
        FArr xs \<Rightarrow>
          if \<not> isArraySegment segment then FUndefined
          else (case arr_at xs (index_of segment) of
                  None \<Rightarrow> FUndefined | Some v \<Rightarrow> readNumberOrAbsent v path)
      | FObj ps \<Rightarrow>
          (case map_of ps segment of None \<Rightarrow> FUndefined | Some v \<Rightarrow> readNumberOrAbsent v path)
      | _ \<Rightarrow> FUndefined)"

text \<open>The compaction pass, in place; \<open>kept\<close> never passes \<open>index\<close>.\<close>

function compact :: "host \<Rightarrow> fval \<Rightarrow> nat \<Rightarrow> nat \<Rightarrow> fval option list \<Rightarrow> hash_error + fval option list" where
  "compact h value index kept array =
     (if index < length array then
        bindR (valueEqual h (case array ! index of None \<Rightarrow> FUndefined | Some v \<Rightarrow> v) value) (\<lambda>equal.
          if equal then compact h value (Suc index) kept array
          else compact h value (Suc index) (Suc kept) (array[kept := array ! index]))
      else Inr (take kept array))"
  by pat_completeness auto
termination
  by (relation "measure (\<lambda>(_, _, index, _, array). length array - index)") auto

declare compact.simps [simp del]

definition removeByValueAtPath :: "host \<Rightarrow> fval \<Rightarrow> path \<Rightarrow> fval \<Rightarrow> patch_error + fval" where
  "removeByValueAtPath h root path value =
     (case readNumberOrAbsent root path of
        FArr existing \<Rightarrow>
          bindR (lift_hash (someR (\<lambda>element. valueEqual h element value) (elements existing))) (\<lambda>found.
            if \<not> found then Inr root
            else
              bindR (thawSpine root path path None) (\<lambda>(newRoot, container).
                case container of
                  FArr array \<Rightarrow>
                    bindR (lift_hash (compact h value 0 0 array)) (\<lambda>array'. mutated newRoot path (FArr array'))
                | _ \<Rightarrow> Inl OutsideModel))
      | _ \<Rightarrow> Inr root)"

definition incrementAtPath :: "fval \<Rightarrow> path \<Rightarrow> f64 \<Rightarrow> patch_error + fval" where
  "incrementAtPath root path by' =
     (if length path = 0 then Inl IncrementRoot
      else if \<not> f64_finite by' \<or> f64_is_zero by' then Inl (IncrementAmount path)
      else
        let current = readNumberOrAbsent root path in
        if current \<noteq> FUndefined \<and> \<not> (case current of FNum _ \<Rightarrow> True | _ \<Rightarrow> False)
        then Inl (IncrementTarget path)
        else
          let next = FNum (f64_add (case current of FNum x \<Rightarrow> x | _ \<Rightarrow> 0) by') in
          bindR (validateAddSpine root path) (\<lambda>_.
            bindR (thawSpine root (butlast path) path (Some (last path))) (\<lambda>(newRoot, container).
              let key = last path in
              bindR (case container of
                       FArr xs \<Rightarrow>
                         bindR (parseArrayInsertIndex key (length xs)) (\<lambda>i. Inr (FArr (set_elem i next xs)))
                     | FObj ps \<Rightarrow> Inr (FObj (set_prop key next ps))
                     | _ \<Rightarrow> Inl OutsideModel)
                (mutated newRoot (butlast path)))))"

section \<open>Operation descriptors\<close>

definition pointer :: "string \<Rightarrow> patch_error + path" where
  "pointer p = (case parsePointer p of Inl _ \<Rightarrow> Inl (BadPointer p) | Inr path \<Rightarrow> Inr path)"

fun applyOp :: "host \<Rightarrow> fval \<Rightarrow> patch_op \<Rightarrow> patch_error + fval" where
  "applyOp h state (Replace p value) = bindR (pointer p) (\<lambda>path. replaceAtPath state path value)"
| "applyOp h state (Add p value) = bindR (pointer p) (\<lambda>path. addAtPath state path value)"
| "applyOp h state (Remove p) = bindR (pointer p) (removeAtPath state)"
| "applyOp h state (Move src p) = bindR (pointer src) (\<lambda>from'. bindR (pointer p) (moveValue state from'))"
| "applyOp h state (Splice p index remove add) =
     bindR (pointer p) (\<lambda>path. spliceAtPath state path index remove add)"
| "applyOp h state (Append p values _) = bindR (pointer p) (\<lambda>path. appendAtPath state path values)"
| "applyOp h state (AddUnique p values _) = bindR (pointer p) (\<lambda>path. addUniqueAtPath h state path values)"
| "applyOp h state (RemoveByValue p value) = bindR (pointer p) (\<lambda>path. removeByValueAtPath h state path value)"
| "applyOp h state (Increment p by' _) = bindR (pointer p) (\<lambda>path. incrementAtPath state path by')"

definition applyPatch :: "host \<Rightarrow> fval \<Rightarrow> patch_op list \<Rightarrow> patch_error + fval" where
  "applyPatch h state ops = foldR (applyOp h) state ops"

definition emptyEntityDocument :: fval where
  "emptyEntityDocument = FObj []"

definition applyPatchToDocument :: "host \<Rightarrow> fval option \<Rightarrow> patch_op list \<Rightarrow> patch_error + fval" where
  "applyPatchToDocument h base ops =
     bindR (applyPatch h (case base of None \<Rightarrow> emptyEntityDocument | Some b \<Rightarrow> b) ops) (\<lambda>patched.
       if \<not> isEntityDocument patched then Inl NotEntityDocument else Inr patched)"

fun pointerFields :: "patch_op \<Rightarrow> string list" where
  "pointerFields (Replace p _) = [p]"
| "pointerFields (Add p _) = [p]"
| "pointerFields (Remove p) = [p]"
| "pointerFields (Move src p) = [src, p]"
| "pointerFields (Splice p _ _ _) = [p]"
| "pointerFields (Append p _ _) = [p]"
| "pointerFields (AddUnique p _ _) = [p]"
| "pointerFields (RemoveByValue p _) = [p]"
| "pointerFields (Increment p _ _) = [p]"

definition touchedPointerPaths :: "patch_op \<Rightarrow> patch_error + path list" where
  "touchedPointerPaths op = mapR pointer (pointerFields op)"

fun patchOpIsStructural :: "patch_op \<Rightarrow> bool" where
  "patchOpIsStructural (Add _ _) = True"
| "patchOpIsStructural (Remove _) = True"
| "patchOpIsStructural (Move _ _) = True"
| "patchOpIsStructural _ = False"

fun createsKey :: "patch_op \<Rightarrow> bool" where
  "createsKey (Append _ _ c) = c"
| "createsKey (AddUnique _ _ c) = c"
| "createsKey (Increment _ _ c) = c"
| "createsKey _ = False"

definition patchOpChangesParentKeySet :: "patch_op \<Rightarrow> bool" where
  "patchOpChangesParentKeySet op \<longleftrightarrow> patchOpIsStructural op \<or> createsKey op"

end
