(* ===== verification/PatchFacts.thy ===== *)
theory PatchFacts
  imports Patch
begin

text \<open>
  What each patch operation does to the document, by paths: where it writes, what it leaves alone,
  and that it keeps documents well-formed; then the operations that resolve against the live
  document (append, add-unique, remove-by-value, increment) against their specifications.
\<close>

section \<open>Indices\<close>

lemma digits_all: "digits_value n s \<noteq> None \<longleftrightarrow> list_all (\<lambda>d. digit_of d \<noteq> None) s"
  by (induction s arbitrary: n) (auto split: option.splits)

lemma segment_canonical: "isArraySegment s \<Longrightarrow> s = ''0'' \<or> canonical_digits s \<and> s \<noteq> [] \<and> digits_value 0 s = Some (index_of s)"
proof (cases s)
  case (Cons c cs)
  assume a: "isArraySegment s"
  show ?thesis
  proof (cases "c = CHR ''0''")
    case False
    then have "list_all (\<lambda>d. digit_of d \<noteq> None) s" using a Cons by (simp add: isArraySegment_def)
    then obtain n where "digits_value 0 s = Some n" using digits_all [of 0 s] by auto
    then show ?thesis using False Cons digit_of_zero [of c]
      by (auto simp: canonical_digits_def index_of_def simp del: digits_value.simps)
  qed (use a Cons in \<open>simp add: isArraySegment_def\<close>)
qed (simp add: isArraySegment_def)

lemma index_name_iff: "isArrayIndexPropertyName s \<longleftrightarrow> isArraySegment s \<and> index_of s \<le> MAX_ARRAY_INDEX"
proof (cases s)
  case Nil
  then show ?thesis by (simp add: isArrayIndexPropertyName_def isArraySegment_def)
next
  case (Cons c cs)
  show ?thesis
  proof (cases "c = CHR ''0''")
    case True
    have "index_of ''0'' = 0" by code_simp
    then show ?thesis using True Cons by (auto simp: isArrayIndexPropertyName_def isArraySegment_def)
  next
    case False
    show ?thesis
    proof
      assume i: "isArrayIndexPropertyName s"
      then obtain n where n: "digits_value 0 s = Some n" "n \<le> 0xFFFFFFFE" "digit_of c \<noteq> None"
        using False Cons by (auto simp: isArrayIndexPropertyName_def simp del: digits_value.simps split: if_splits option.splits)
      then have "list_all (\<lambda>d. digit_of d \<noteq> None) s" using digits_all [of 0 s] by auto
      then show "isArraySegment s \<and> index_of s \<le> MAX_ARRAY_INDEX"
        using False Cons n by (simp add: isArraySegment_def index_of_def MAX_ARRAY_INDEX_def del: digits_value.simps)
    next
      assume i: "isArraySegment s \<and> index_of s \<le> MAX_ARRAY_INDEX"
      then have c: "canonical_digits s" "digits_value 0 s = Some (index_of s)"
        using segment_canonical [of s] False Cons by auto
      have "10 ^ (length s - 1) \<le> index_of s" using canonical_pos [OF c(1) _ c(2)] Cons by simp
      then have le: "(10::nat) ^ (length s - 1) \<le> 4294967294" using i by (simp add: MAX_ARRAY_INDEX_def)
      have "length s - 1 < 10"
      proof (rule ccontr)
        assume "\<not> length s - 1 < 10"
        then have "(10::nat) ^ 10 \<le> 10 ^ (length s - 1)" by (intro power_increasing) simp_all
        then show False using le by simp
      qed
      then have "\<not> length s > 10" by simp
      then show "isArrayIndexPropertyName s"
        using i False Cons c by (auto simp: isArrayIndexPropertyName_def isArraySegment_def MAX_ARRAY_INDEX_def simp del: digits_value.simps)
    qed
  qed
qed

lemma parseArrayIndex_Inr [simp]: "parseArrayIndex s = Inr i \<longleftrightarrow> isArrayIndexPropertyName s \<and> i = index_of s"
  by (auto simp: parseArrayIndex_def index_name_iff Let_def)

lemma parseArrayInsertIndex_Inr [simp]:
  "parseArrayInsertIndex s n = Inr i \<longleftrightarrow> isArrayIndexPropertyName s \<and> i = index_of s \<and> i \<le> n"
  by (auto simp: parseArrayInsertIndex_def result_simps)

lemma requireExistingArrayIndex_Inr [simp]:
  "requireExistingArrayIndex xs s p = Inr i \<longleftrightarrow> isArrayIndexPropertyName s \<and> i = index_of s \<and> arr_at xs i \<noteq> None"
  by (auto simp: requireExistingArrayIndex_def result_simps)

lemma isStrictPrefixPath_iff [simp]: "isStrictPrefixPath p q \<longleftrightarrow> strict_prefix p q"
proof -
  have "isStrictPrefixPath p q \<longleftrightarrow> length p < length q \<and> isPrefixPath p q"
    by (auto simp: isStrictPrefixPath_def isPrefixPath_def simp del: isPrefixPath_iff)
  then show ?thesis by (auto simp: strict_prefix_def prefix_def)
qed

section \<open>The spine\<close>

lemma isContainer_plain: "isContainer v \<longleftrightarrow> isFabricPlainContainer v"
  by (cases v) (auto simp: isContainer_def isPatchObject_def isInstance_def isObjectNotArray_def isFabricPlainContainer_def)

lemma thaw_cloned:
  assumes "thawSpine root p full cm = Inr (r, c)"
  shows "cloned root p (cm \<noteq> None) (case cm of None \<Rightarrow> [] | Some k \<Rightarrow> k) r c \<and> isFabricPlainContainer c
    \<and> (wf_fval root \<longrightarrow> wf_fval r \<and> wf_fval c)"
proof -
  have "cloneForMutation root p (cm \<noteq> None) (case cm of None \<Rightarrow> [] | Some k \<Rightarrow> k) = Inr (r, c)" "isContainer c"
    using assms by (auto simp: thawSpine_def split: sum.splits option.splits prod.splits if_splits)
  then show ?thesis using clone_cases wf_clone isContainer_plain by metis
qed

lemma thaw_at: "thawSpine root p full cm = Inr (r, c) \<Longrightarrow> readAt r p = Some c"
  using thaw_cloned by (auto simp: cloned_def)

lemma thaw_frame: "thawSpine root p full cm = Inr (r, c) \<Longrightarrow> \<not> prefix q p \<Longrightarrow> readAt r q = readAt root q"
  using thaw_cloned by (auto simp: cloned_def)

lemma thaw_present:
  "thawSpine root p full cm = Inr (r, c) \<Longrightarrow> readAt root p = Some w \<Longrightarrow> r = root \<and> c = w"
  using thaw_cloned [of root p full cm r c] by (auto simp: cloned_def)

lemma thaw_None: "thawSpine root p full None = Inr (r, c) \<longleftrightarrow> r = root \<and> readAt root p = Some c \<and> isFabricPlainContainer c"
proof
  assume "thawSpine root p full None = Inr (r, c)"
  from thaw_cloned [OF this] show "r = root \<and> readAt root p = Some c \<and> isFabricPlainContainer c"
    by (auto simp: cloned_def)
next
  assume a: "r = root \<and> readAt root p = Some c \<and> isFabricPlainContainer c"
  then have "cloneForMutation root p False [] = Inr (root, c)" using clone_present plain_is_value by blast
  then show "thawSpine root p full None = Inr (r, c)" using a by (simp add: thawSpine_def isContainer_plain)
qed

lemma mutated_writes: "mutated r p c = Inr s \<longleftrightarrow> writeBack r p c = Inr s"
  by (auto simp: mutated_def split: sum.splits)

lemma mutated_total: "readAt r p = Some w \<Longrightarrow> \<exists>s. mutated r p c = Inr s"
  using tree.put_path_total [of r p w c] by (auto simp: mutated_writes)

lemma split_last: "p \<noteq> [] \<Longrightarrow> butlast p @ [last p] = p" by simp

text \<open>An edit of one slot of the container a path ends in.\<close>

lemma slot_edit:
  assumes t: "thawSpine root (butlast p) full cm = Inr (r, c)" and m: "mutated r (butlast p) c' = Inr s" and p: "p \<noteq> []"
  shows "readAt s p = child c' (last p)"
    and "(\<And>k. k \<noteq> last p \<Longrightarrow> child c' k = child c k) \<Longrightarrow> \<not> pathsOverlap p q \<Longrightarrow> readAt s q = readAt root q"
    and "wf_fval root \<Longrightarrow> wf_fval c' \<Longrightarrow> wf_fval s"
proof -
  have w: "writeBack r (butlast p) c' = Inr s" using m by (simp add: mutated_writes)
  show "readAt s p = child c' (last p)"
    using tree.get_put_below [OF w, of "[last p]"] p by (simp split: option.splits)
  show "wf_fval root \<Longrightarrow> wf_fval c' \<Longrightarrow> wf_fval s" using wf_writeBack w thaw_cloned [OF t] by blast
  assume agree: "\<And>k. k \<noteq> last p \<Longrightarrow> child c' k = child c k" and o: "\<not> pathsOverlap p q"
  then have o: "\<not> prefix (butlast p @ [last p]) q" "\<not> prefix q (butlast p @ [last p])"
    unfolding split_last [OF p] pathsOverlap_iff by auto
  have "readAt s q = readAt r q"
    by (rule tree.get_put_slot [OF thaw_at [OF t] w _ o]) (rule agree)
  also have "\<dots> = readAt root q" using o(2) by (intro thaw_frame [OF t]) (metis prefix_prefix)
  finally show "readAt s q = readAt root q" .
qed

text \<open>An edit of the whole container at a path.\<close>

lemma whole_edit:
  assumes t: "thawSpine root p full cm = Inr (r, c)" and m: "mutated r p c' = Inr s"
  shows "readAt s p = Some c'"
    and "\<not> pathsOverlap p q \<Longrightarrow> readAt s q = readAt root q"
    and "wf_fval root \<Longrightarrow> wf_fval c' \<Longrightarrow> wf_fval s"
proof -
  have w: "writeBack r p c' = Inr s" using m by (simp add: mutated_writes)
  show "readAt s p = Some c'" by (rule tree.get_put_self [OF w])
  show "wf_fval root \<Longrightarrow> wf_fval c' \<Longrightarrow> wf_fval s" using wf_writeBack w thaw_cloned [OF t] by blast
  assume "\<not> pathsOverlap p q"
  then show "readAt s q = readAt root q"
    using tree.get_put_beside [OF w, of q] thaw_frame [OF t, of q] by (auto simp: pathsOverlap_iff)
qed

section \<open>Where each operation writes\<close>

definition array_parent :: "fval \<Rightarrow> path \<Rightarrow> bool" where
  "array_parent state p = (case readAt state (butlast p) of Some v \<Rightarrow> isArray v | None \<Rightarrow> False)"

definition edits :: "path \<Rightarrow> fval \<Rightarrow> fval \<Rightarrow> bool" where
  "edits p root s \<longleftrightarrow> (\<forall>q. \<not> pathsOverlap p q \<longrightarrow> readAt s q = readAt root q)"

lemma edits_root [simp]: "edits [] root s"
  by (simp add: edits_def pathsOverlap_iff)

lemma edits_refl [simp]: "edits p root root"
  by (simp add: edits_def)

lemma edits_trans: "edits p a b \<Longrightarrow> edits p b c \<Longrightarrow> edits p a c"
  by (simp add: edits_def)

lemma edits_parent: "edits p root s \<Longrightarrow> p \<noteq> [] \<Longrightarrow> edits (butlast p) root s"
  unfolding edits_def pathsOverlap_iff
  by (metis append_butlast_last_id prefix_append prefix_order.dual_order.refl prefix_order.order_trans prefix_snoc)

lemma edits_slot:
  "thawSpine root (butlast p) full cm = Inr (r, c) \<Longrightarrow> mutated r (butlast p) c' = Inr s \<Longrightarrow> p \<noteq> [] \<Longrightarrow>
     (\<And>k. k \<noteq> last p \<Longrightarrow> child c' k = child c k) \<Longrightarrow> edits p root s"
  unfolding edits_def using slot_edit(2) by blast

lemma edits_whole:
  "thawSpine root p full cm = Inr (r, c) \<Longrightarrow> mutated r p c' = Inr s \<Longrightarrow> edits p root s"
  unfolding edits_def using whole_edit(2) by blast

lemma thaw_shape: "thawSpine root p full cm = Inr (r, c) \<Longrightarrow> (\<exists>xs. c = FArr xs) \<or> (\<exists>ps. c = FObj ps)"
  using thaw_cloned [of root p full cm r c] by (simp add: plain_container)

text \<open>Setting the slot a path names, as \<^verbatim>\<open>replace\<close> and \<^verbatim>\<open>increment\<close> do.\<close>

lemma child_set_elem:
  "isArrayIndexPropertyName k \<Longrightarrow> child (FArr (set_elem (index_of k) v xs)) j = (if j = k then Some v else child (FArr xs) j)"
  by (auto dest: index_of_inj)

lemma child_insert_self:
  "isArrayIndexPropertyName k \<Longrightarrow> index_of k \<le> length xs \<Longrightarrow>
     child (FArr (take (index_of k) xs @ Some v # drop (index_of k) xs)) k = Some v"
  by (simp add: arr_at_def nth_append)

definition slot_set :: "fval \<Rightarrow> string \<Rightarrow> fval \<Rightarrow> fval \<Rightarrow> bool" where
  "slot_set c k v c' \<longleftrightarrow>
     (\<forall>j. child c' j = (if j = k then Some v else child c j)) \<and> isArray c' = isArray c
     \<and> (wf_fval c \<longrightarrow> wf_fval v \<longrightarrow> wf_fval c')"

lemma slot_set_obj: "slot_set (FObj ps) k v (FObj (set_prop k v ps))"
  unfolding slot_set_def by (simp del: wf_fval.simps)

lemma slot_set_arr: "isArrayIndexPropertyName k \<Longrightarrow> slot_set (FArr xs) k v (FArr (set_elem (index_of k) v xs))"
  unfolding slot_set_def using child_set_elem [of k v xs] by (simp del: wf_fval.simps child.simps)

text \<open>An operation that sets the slot its path names.\<close>

definition sets_slot :: "fval \<Rightarrow> path \<Rightarrow> fval \<Rightarrow> fval \<Rightarrow> bool" where
  "sets_slot root p v s \<longleftrightarrow>
     (p = [] \<and> s = v) \<or>
     (p \<noteq> [] \<and> (\<exists>full cm r c c'. thawSpine root (butlast p) full cm = Inr (r, c)
        \<and> slot_set c (last p) v c' \<and> mutated r (butlast p) c' = Inr s))"

lemma sets_slot_reads:
  assumes "sets_slot root p v s"
  shows "readAt s p = Some v" "edits p root s" "wf_fval root \<Longrightarrow> wf_fval v \<Longrightarrow> wf_fval s"
proof -
  have "readAt s p = Some v \<and> edits p root s \<and> (wf_fval root \<longrightarrow> wf_fval v \<longrightarrow> wf_fval s)"
  proof (cases "p = []")
    case False
    then obtain full cm r c c' where e: "thawSpine root (butlast p) full cm = Inr (r, c)"
      "slot_set c (last p) v c'" "mutated r (butlast p) c' = Inr s"
      using assms by (auto simp: sets_slot_def)
    have ch: "child c' j = (if j = last p then Some v else child c j)" for j using e(2) by (simp add: slot_set_def)
    have "wf_fval root \<longrightarrow> wf_fval v \<longrightarrow> wf_fval s"
      using slot_edit(3) [OF e(1,3) False] e(2) thaw_cloned [OF e(1)] by (auto simp: slot_set_def)
    moreover have "edits p root s" using edits_slot [OF e(1,3) False] ch by simp
    ultimately show ?thesis using slot_edit(1) [OF e(1,3) False] ch by simp
  qed (use assms in \<open>auto simp: sets_slot_def\<close>)
  then show "readAt s p = Some v" "edits p root s" "wf_fval root \<Longrightarrow> wf_fval v \<Longrightarrow> wf_fval s" by blast+
qed

lemma replace_sets: "replaceAtPath root p v = Inr s \<Longrightarrow> sets_slot root p v s"
proof (cases "p = []")
  case False
  assume "replaceAtPath root p v = Inr s"
  then obtain r c c' where e: "thawSpine root (butlast p) p None = Inr (r, c)"
    "mutated r (butlast p) c' = Inr s" "(case c of
                   FArr xs \<Rightarrow> bindR (requireExistingArrayIndex xs (last p) p) (\<lambda>i. Inr (FArr (set_elem i v xs)))
                 | FObj ps \<Rightarrow> Inr (FObj (set_prop (last p) v ps)) | _ \<Rightarrow> Inl OutsideModel) = Inr c'"
    using False by (auto simp: replaceAtPath_def Let_def result_simps)
  have "slot_set c (last p) v c'"
    using thaw_shape [OF e(1)] e(3) slot_set_obj slot_set_arr by (auto simp: result_simps)
  then show ?thesis using e False unfolding sets_slot_def by blast
qed (simp add: replaceAtPath_def sets_slot_def)

lemma increment_sets:
  assumes "incrementAtPath root p by' = Inr s"
  shows "sets_slot root p (FNum (f64_add (case readNumberOrAbsent root p of FNum x \<Rightarrow> x | _ \<Rightarrow> 0) by')) s"
    and "p \<noteq> []" "validateAddSpine root p = Inr ()" "f64_finite by'" "\<not> f64_is_zero by'"
    and "readNumberOrAbsent root p = FUndefined \<or> (\<exists>x. readNumberOrAbsent root p = FNum x)"
proof -
  let ?v = "FNum (f64_add (case readNumberOrAbsent root p of FNum x \<Rightarrow> x | _ \<Rightarrow> 0) by')"
  show p: "p \<noteq> []" and "f64_finite by'" "\<not> f64_is_zero by'"
    using assms by (auto simp: incrementAtPath_def split: if_splits)
  show "readNumberOrAbsent root p = FUndefined \<or> (\<exists>x. readNumberOrAbsent root p = FNum x)"
    using assms by (auto simp: incrementAtPath_def Let_def split: if_splits fval.splits)
  obtain r c c' where e: "validateAddSpine root p = Inr ()" "thawSpine root (butlast p) p (Some (last p)) = Inr (r, c)"
    "mutated r (butlast p) c' = Inr s" "(case c of
             FArr xs \<Rightarrow> bindR (parseArrayInsertIndex (last p) (length xs)) (\<lambda>i. Inr (FArr (set_elem i ?v xs)))
           | FObj ps \<Rightarrow> Inr (FObj (set_prop (last p) ?v ps)) | _ \<Rightarrow> Inl OutsideModel) = Inr c'"
    using assms p by (auto simp: incrementAtPath_def Let_def result_simps split: if_splits)
  show "validateAddSpine root p = Inr ()" by (fact e(1))
  have "slot_set c (last p) ?v c'"
    using thaw_shape [OF e(2)] e(4) slot_set_obj slot_set_arr by (auto simp: result_simps)
  then show "sets_slot root p ?v s" using e(2,3) p unfolding sets_slot_def by blast
qed

section \<open>Shapes along the spine\<close>

text \<open>What a shape-only read observes: the kind of a container and which children it has, and the
  whole of a value that is not one.\<close>

definition same_shape :: "fval \<Rightarrow> fval \<Rightarrow> bool" where
  "same_shape v w \<longleftrightarrow> isArray v = isArray w \<and> isFabricPlainObject v = isFabricPlainObject w
     \<and> (\<forall>k. child v k = None \<longleftrightarrow> child w k = None) \<and> (isFabricPlainContainer v \<or> v = w)"

lemma same_shape_refl [simp]: "same_shape v v"
  by (simp add: same_shape_def)

lemma same_shape_trans: "same_shape a b \<Longrightarrow> same_shape b c \<Longrightarrow> same_shape a c"
  by (auto simp: same_shape_def isFabricPlainContainer_def)

lemma same_shape_slot:
  assumes "set_slot v k x' = Inr v'" "child v k = Some x"
  shows "same_shape v v'"
proof -
  have "isArray v = isArray v' \<and> isFabricPlainObject v = isFabricPlainObject v' \<and> isFabricPlainContainer v"
    using assms by (cases v) (auto simp: isFabricPlainContainer_def split: if_splits)
  then show ?thesis using set_slot_child [OF assms(1)] assms(2) by (simp add: same_shape_def)
qed

lemma spine_shape:
  "readAt v p = Some c \<Longrightarrow> writeBack v p c' = Inr v' \<Longrightarrow> strict_prefix q p \<Longrightarrow>
     \<exists>w w'. readAt v q = Some w \<and> readAt v' q = Some w' \<and> same_shape w w'"
proof (induction p arbitrary: v v' q)
  case (Cons k p)
  then obtain x x' where x: "child v k = Some x" "readAt x p = Some c" "writeBack x p c' = Inr x'" "set_slot v k x' = Inr v'"
    by (auto simp: result_simps split: option.splits)
  show ?case
  proof (cases q)
    case Nil
    then show ?thesis using same_shape_slot [OF x(4,1)] by simp
  next
    case (Cons j q')
    then have q: "j = k" "strict_prefix q' p" using Cons.prems(3) by auto
    from Cons.IH [OF x(2,3) q(2)] show ?thesis using Cons q(1) x(1) set_slot_child [OF x(4), of k] by auto
  qed
qed simp

lemma mutated_shape:
  assumes "mutated r p c' = Inr s" "readAt r p = Some c" "same_shape c c'" "prefix q p"
  shows "\<exists>w w'. readAt r q = Some w \<and> readAt s q = Some w' \<and> same_shape w w'"
proof (cases "q = p")
  case True
  then show ?thesis using assms tree.get_put_self [of r p c' s] by (auto simp: mutated_writes)
next
  case False
  then have "strict_prefix q p" using assms(4) by (simp add: strict_prefix_def)
  then show ?thesis using spine_shape assms(1,2) by (simp add: mutated_writes)
qed

section \<open>Adding, removing, moving\<close>

lemma add_cases:
  assumes "addAtPath root p v = Inr s"
  shows "p = [] \<and> s = v \<or>
    p \<noteq> [] \<and> validateAddSpine root p = Inr () \<and>
    (\<exists>r c c'. thawSpine root (butlast p) p (Some (last p)) = Inr (r, c) \<and> mutated r (butlast p) c' = Inr s \<and>
       ((\<exists>ps. c = FObj ps \<and> c' = FObj (set_prop (last p) v ps))
        \<or> (\<exists>xs. c = FArr xs \<and> last p = ''-'' \<and> c' = FArr (xs @ [Some v]))
        \<or> (\<exists>xs. c = FArr xs \<and> isArrayIndexPropertyName (last p) \<and> index_of (last p) \<le> length xs
             \<and> c' = FArr (take (index_of (last p)) xs @ Some v # drop (index_of (last p)) xs))))"
proof (cases "p = []")
  case True
  then show ?thesis using assms by (simp add: addAtPath_def)
next
  case False
  then obtain r c c' where e: "validateAddSpine root p = Inr ()" "thawSpine root (butlast p) p (Some (last p)) = Inr (r, c)"
    "mutated r (butlast p) c' = Inr s"
    "(case c of FArr xs \<Rightarrow> if last p = ''-'' then Inr (FArr (xs @ [Some v]))
        else bindR (parseArrayInsertIndex (last p) (length xs)) (\<lambda>i. Inr (FArr (take i xs @ Some v # drop i xs)))
      | FObj ps \<Rightarrow> Inr (FObj (set_prop (last p) v ps)) | _ \<Rightarrow> Inl OutsideModel) = Inr c'"
    using assms by (auto simp: addAtPath_def Let_def result_simps)
  have "(\<exists>ps. c = FObj ps \<and> c' = FObj (set_prop (last p) v ps))
        \<or> (\<exists>xs. c = FArr xs \<and> last p = ''-'' \<and> c' = FArr (xs @ [Some v]))
        \<or> (\<exists>xs. c = FArr xs \<and> isArrayIndexPropertyName (last p) \<and> index_of (last p) \<le> length xs
             \<and> c' = FArr (take (index_of (last p)) xs @ Some v # drop (index_of (last p)) xs))"
    using thaw_shape [OF e(2)] e(4) by (auto simp: result_simps split: if_splits)
  then show ?thesis using e(1-3) False by blast
qed

text \<open>Adding under a plain object, or into an array the add itself creates.\<close>

definition keyed :: "fval \<Rightarrow> path \<Rightarrow> bool" where
  "keyed state p \<longleftrightarrow> \<not> array_parent state p \<and> (p = [] \<or> last p \<noteq> ''-'')"

lemma add_edits:
  assumes "addAtPath root p v = Inr s" "keyed root p"
  shows "sets_slot root p v s"
  using add_cases [OF assms(1)]
proof (elim disjE conjE exE)
  assume "p = []" "s = v"
  then show ?thesis by (simp add: sets_slot_def)
next
  fix r c c' ps
  assume "p \<noteq> []" and t: "thawSpine root (butlast p) p (Some (last p)) = Inr (r, c)" "mutated r (butlast p) c' = Inr s"
    and "c = FObj ps" "c' = FObj (set_prop (last p) v ps)"
  then show ?thesis using slot_set_obj unfolding sets_slot_def by blast
next
  fix r c c' xs
  assume "p \<noteq> []" "last p = ''-''"
  then show ?thesis using assms(2) by (simp add: keyed_def)
next
  fix r c c' xs
  assume p: "p \<noteq> []" and t: "thawSpine root (butlast p) p (Some (last p)) = Inr (r, c)" "mutated r (butlast p) c' = Inr s"
    and c: "c = FArr xs" and k: "isArrayIndexPropertyName (last p)" "index_of (last p) \<le> length xs"
    and c': "c' = FArr (take (index_of (last p)) xs @ Some v # drop (index_of (last p)) xs)"
  have "readAt root (butlast p) \<noteq> Some c"
    using assms(2) c by (auto simp: keyed_def array_parent_def)
  then have "xs = []"
    using thaw_cloned [OF t(1)] thaw_at [OF t(1)] c by (auto simp: cloned_def createMissingContainer_def split: if_splits)
  then have "c' = FArr (set_elem (index_of (last p)) v [])" using c' k(2) by (simp add: set_elem_def)
  then have "slot_set c (last p) v c'" using slot_set_arr [OF k(1), of "[]" v] c \<open>xs = []\<close> by simp
  then show ?thesis using t p unfolding sets_slot_def by blast
qed

lemma wf_insert: "wf_fval (FArr xs) \<Longrightarrow> wf_fval v \<Longrightarrow> wf_fval (FArr (take i xs @ Some v # drop i xs))"
  by (auto dest: in_set_takeD in_set_dropD)

lemma add_reads:
  assumes "addAtPath root p v = Inr s" "p = [] \<or> last p \<noteq> ''-''"
  shows "readAt s p = Some v"
  using add_cases [OF assms(1)]
proof (elim disjE conjE exE)
  fix r c c' ps
  assume "p \<noteq> []" "thawSpine root (butlast p) p (Some (last p)) = Inr (r, c)" "mutated r (butlast p) c' = Inr s"
    and "c = FObj ps" "c' = FObj (set_prop (last p) v ps)"
  then show ?thesis using slot_edit(1) by simp
next
  fix r c c' xs
  assume "p \<noteq> []" "thawSpine root (butlast p) p (Some (last p)) = Inr (r, c)" "mutated r (butlast p) c' = Inr s"
    and "isArrayIndexPropertyName (last p)" "index_of (last p) \<le> length xs"
    and "c' = FArr (take (index_of (last p)) xs @ Some v # drop (index_of (last p)) xs)"
  then show ?thesis using slot_edit(1) child_insert_self by simp
qed (use assms in auto)

lemma add_wf:
  assumes "addAtPath root p v = Inr s" "wf_fval root" "wf_fval v"
  shows "wf_fval s"
proof -
  have "p = [] \<and> s = v \<or> (\<exists>r c c'. p \<noteq> [] \<and> thawSpine root (butlast p) p (Some (last p)) = Inr (r, c)
      \<and> mutated r (butlast p) c' = Inr s \<and> (wf_fval c \<longrightarrow> wf_fval c'))"
    using add_cases [OF assms(1)]
  proof (elim disjE conjE exE)
    fix r c c' ps
    assume "p \<noteq> []" "thawSpine root (butlast p) p (Some (last p)) = Inr (r, c)" "mutated r (butlast p) c' = Inr s"
      and "c = FObj ps" "c' = FObj (set_prop (last p) v ps)"
    then show ?thesis using wf_set_prop [OF _ assms(3)] by blast
  next
    fix r c c' xs
    assume "p \<noteq> []" "thawSpine root (butlast p) p (Some (last p)) = Inr (r, c)" "mutated r (butlast p) c' = Inr s"
      and "c = FArr xs" "c' = FArr (xs @ [Some v])"
    moreover have "wf_fval (FArr xs) \<longrightarrow> wf_fval (FArr (xs @ [Some v]))" using assms(3) by auto
    ultimately show ?thesis by blast
  next
    fix r c c' xs
    assume "p \<noteq> []" "thawSpine root (butlast p) p (Some (last p)) = Inr (r, c)" "mutated r (butlast p) c' = Inr s"
      and "c = FArr xs" "c' = FArr (take (index_of (last p)) xs @ Some v # drop (index_of (last p)) xs)"
    then show ?thesis using wf_insert [OF _ assms(3)] by blast
  qed simp
  then show ?thesis using slot_edit(3) thaw_cloned assms(2,3) by blast
qed

lemma remove_cases:
  assumes "removeAtPath root p = Inr s"
  shows "\<exists>c. p \<noteq> [] \<and> thawSpine root (butlast p) p None = Inr (root, c) \<and> readAt root (butlast p) = Some c
    \<and> child c (last p) \<noteq> None \<and> mutated root (butlast p) (remove_slot c (last p)) = Inr s"
proof -
  have p: "p \<noteq> []" using assms by (auto simp: removeAtPath_def split: if_splits)
  then obtain r c c' where e: "thawSpine root (butlast p) p None = Inr (r, c)" "mutated r (butlast p) c' = Inr s"
    "(case c of FArr xs \<Rightarrow> bindR (requireExistingArrayIndex xs (last p) p) (\<lambda>i. Inr (FArr (take i xs @ drop (Suc i) xs)))
       | FObj ps \<Rightarrow> if map_of ps (last p) = None then Inl (MissingKey p) else Inr (FObj (delete_prop (last p) ps))
       | _ \<Rightarrow> Inl OutsideModel) = Inr c'"
    using assms by (auto simp: removeAtPath_def Let_def result_simps)
  then have r: "r = root" "readAt root (butlast p) = Some c" by (simp_all add: thaw_None)
  have "c' = remove_slot c (last p) \<and> child c (last p) \<noteq> None"
    using thaw_shape [OF e(1)] e(3) by (auto simp: result_simps split: if_splits)
  then show ?thesis using e(1,2) r p by blast
qed

lemma remove_edits:
  assumes "removeAtPath root p = Inr s" "\<not> array_parent root p"
  shows "edits p root s" "readAt s p = None"
proof -
  obtain c where c: "p \<noteq> []" "thawSpine root (butlast p) p None = Inr (root, c)" "readAt root (butlast p) = Some c"
    "child c (last p) \<noteq> None" "mutated root (butlast p) (remove_slot c (last p)) = Inr s"
    using remove_cases [OF assms(1)] by blast
  then obtain ps where ps: "c = FObj ps" using assms(2) thaw_shape [OF c(2)] by (auto simp: array_parent_def)
  show "edits p root s" using edits_slot [OF c(2,5,1)] ps by simp
  show "readAt s p = None" using slot_edit(1) [OF c(2,5,1)] ps by simp
qed

lemma wf_remove_slot: "wf_fval c \<Longrightarrow> wf_fval (remove_slot c k)"
  by (cases c) (auto simp del: wf_fval.simps(2) simp: wf_delete_prop dest: in_set_takeD in_set_dropD)

lemma remove_wf: "removeAtPath root p = Inr s \<Longrightarrow> wf_fval root \<Longrightarrow> wf_fval s"
  using remove_cases [of root p s] slot_edit(3) wf_remove_slot wf_readAt by blast

lemma getAtPath_read:
  assumes "getAtPath root p = Inr v"
  shows "readAt root p = Some v"
proof -
  have "getAtPath_loop full x q = Inr v \<Longrightarrow> readAt x q = Some v" for full x q
    by (induction full x q rule: getAtPath_loop.induct)
      (auto simp: result_simps split: fval.splits option.splits)
  then show ?thesis using assms by (simp add: getAtPath_def)
qed

lemma move_cases:
  assumes "moveValue root src p = Inr s"
  shows "\<exists>v m. src \<noteq> [] \<and> \<not> strict_prefix src p \<and> readAt root src = Some v
    \<and> removeAtPath root src = Inr m \<and> addAtPath m p v = Inr s"
  using assms by (auto simp: moveValue_def result_simps dest: getAtPath_read split: if_splits)

lemma move_keyed:
  assumes "removeAtPath root src = Inr m" "\<not> strict_prefix src p" "keyed root p" "\<not> array_parent root src"
  shows "keyed m p"
proof (cases "p = []")
  case True
  obtain c where c: "src \<noteq> []" "readAt root (butlast src) = Some c" "child c (last src) \<noteq> None"
    "mutated root (butlast src) (remove_slot c (last src)) = Inr m"
    using remove_cases [OF assms(1)] by blast
  have "isArray m = isArray root"
  proof (cases "butlast src = []")
    case True
    then have "m = remove_slot root (last src)" using c(2,4) by (simp add: mutated_writes)
    then show ?thesis by (cases root) auto
  next
    case False
    then have "strict_prefix [] (butlast src)" by (cases "butlast src") auto
    from spine_shape [OF c(2) _ this] show ?thesis using c(4) by (auto simp: mutated_writes same_shape_def)
  qed
  then show ?thesis using assms(3) True by (simp add: keyed_def array_parent_def)
next
  case False
  obtain c where c: "src \<noteq> []" "readAt root (butlast src) = Some c" "child c (last src) \<noteq> None"
    "mutated root (butlast src) (remove_slot c (last src)) = Inr m"
    using remove_cases [OF assms(1)] by blast
  have "\<not> array_parent m p"
  proof (cases "prefix (butlast p) (butlast src)")
    case True
    show ?thesis
    proof (cases "butlast p = butlast src")
      case True
      have "readAt m (butlast src) = Some (remove_slot c (last src))"
        using tree.get_put_self c(4) by (simp add: mutated_writes)
      moreover have "isArray (remove_slot c (last src)) = isArray c" by (cases c) auto
      ultimately show ?thesis using assms(4) c(2) True by (simp add: array_parent_def)
    next
      case False
      then have "strict_prefix (butlast p) (butlast src)" using True by (simp add: strict_prefix_def)
      from spine_shape [OF c(2) c(4) [unfolded mutated_writes] this] show ?thesis
        using assms(3) by (auto simp: same_shape_def keyed_def array_parent_def)
    qed
  next
    case False
    have "\<not> prefix src (butlast p)"
    proof
      assume "prefix src (butlast p)"
      then have "strict_prefix src p" using \<open>p \<noteq> []\<close> by (metis append_butlast_last_id prefix_order.dual_order.strict_trans2 prefix_order.le_less_trans prefix_order.less_le strict_prefixI' )
      then show False using assms(2) by simp
    qed
    moreover have "\<not> prefix (butlast p) src"
    proof
      assume a: "prefix (butlast p) src"
      then have "butlast p = src \<or> prefix (butlast p) (butlast src)"
        by (metis append_butlast_last_id c(1) prefix_snoc)
      then show False using False calculation by auto
    qed
    ultimately have "readAt m (butlast p) = readAt root (butlast p)"
      using remove_edits(1) [OF assms(1,4)] by (auto simp: edits_def pathsOverlap_iff)
    then show ?thesis using assms(3) by (simp add: keyed_def array_parent_def)
  qed
  then show ?thesis using assms(3) by (simp add: keyed_def)
qed

lemma move_edits:
  assumes "moveValue root src p = Inr s" "keyed root p" "\<not> array_parent root src"
    and "\<not> pathsOverlap src q" "\<not> pathsOverlap p q"
  shows "readAt s q = readAt root q"
proof -
  obtain v m where m: "\<not> strict_prefix src p" "removeAtPath root src = Inr m" "addAtPath m p v = Inr s"
    using move_cases [OF assms(1)] by blast
  have "sets_slot m p v s" by (rule add_edits [OF m(3) move_keyed [OF m(2,1) assms(2,3)]])
  then have "edits p m s" by (rule sets_slot_reads)
  moreover have "edits src root m" by (rule remove_edits [OF m(2) assms(3)])
  ultimately show ?thesis using assms(4,5) by (simp add: edits_def)
qed

lemma move_reads:
  assumes "moveValue root src p = Inr s" "p = [] \<or> last p \<noteq> ''-''"
  shows "readAt s p = readAt root src"
proof -
  obtain v m where m: "readAt root src = Some v" "addAtPath m p v = Inr s"
    using move_cases [OF assms(1)] by blast
  then show ?thesis using add_reads [OF m(2) assms(2)] by simp
qed

lemma move_wf: "moveValue root src p = Inr s \<Longrightarrow> wf_fval root \<Longrightarrow> wf_fval s"
  using move_cases [of root src p s] add_wf remove_wf wf_readAt by blast

section \<open>Splicing\<close>

lemma list_update_append_replicate:
  "set_elem (length xs) v (xs @ replicate (Suc n) None) = (xs @ [Some v]) @ replicate n None"
  by (simp add: set_elem_def)

lemma place_tail_eq: "place_tail (length xs) tail (xs @ replicate (length tail) None) = xs @ tail"
proof (induction tail arbitrary: xs)
  case (Cons x tail)
  show ?case
  proof (cases x)
    case None
    then show ?thesis using Cons.IH [of "xs @ [None]"] by simp
  next
    case (Some v)
    then show ?thesis using Cons.IH [of "xs @ [Some v]"] list_update_append_replicate [of xs v "length tail"] by simp
  qed
qed simp

lemma spliceAll_eq:
  "spliceAll array start n items =
     (take start array @ map Some items @ drop (start + n) array, take n (drop start array))"
  using place_tail_eq [of "take start array @ map Some items" "drop n (drop start array)"]
  by (simp add: spliceAll_def Let_def add.commute)

lemma wf_iterate: "\<forall>x\<in>set add. \<forall>v\<in>set_option x. wf_fval v \<Longrightarrow> v \<in> set (iterate add) \<Longrightarrow> wf_fval v"
  by (auto simp: iterate_def split: option.splits)

lemma splice_cases:
  assumes "spliceAtPath root p index remove add = Inr s"
  shows "\<exists>xs. thawSpine root p p None = Inr (root, FArr xs) \<and> readAt root p = Some (FArr xs) \<and> 0 \<le> index \<and> 0 \<le> remove
    \<and> index \<le> int (length xs)
    \<and> mutated root p (FArr (take (nat index) xs @ map Some (iterate add) @ drop (nat index + nat remove) xs)) = Inr s"
proof -
  obtain r c where t: "thawSpine root p p None = Inr (r, c)"
    "(case c of FArr xs \<Rightarrow> if index < 0 \<or> remove < 0 \<or> index > int (length xs) then Inl (InvalidSplice p)
        else mutated r p (FArr (fst (spliceAll xs (nat index) (nat remove) (iterate add))))
      | _ \<Rightarrow> Inl (SpliceTarget p)) = Inr s"
    using assms by (auto simp: spliceAtPath_def result_simps)
  then have "r = root" "readAt root p = Some c" by (simp_all add: thaw_None)
  moreover obtain xs where "c = FArr xs" using t(2) thaw_shape [OF t(1)] by auto
  ultimately show ?thesis using t by (intro exI [of _ xs]) (auto simp: spliceAll_eq split: if_splits)
qed

lemma splice_edits: "spliceAtPath root p index remove add = Inr s \<Longrightarrow> edits p root s"
  using splice_cases [of root p index remove add s] edits_whole by blast

lemma splice_wf:
  assumes "spliceAtPath root p index remove add = Inr s" "wf_fval root" "\<forall>x\<in>set add. \<forall>v\<in>set_option x. wf_fval v"
  shows "wf_fval s"
proof -
  obtain xs where x: "thawSpine root p p None = Inr (root, FArr xs)" "readAt root p = Some (FArr xs)"
    "mutated root p (FArr (take (nat index) xs @ map Some (iterate add) @ drop (nat index + nat remove) xs)) = Inr s"
    using splice_cases [OF assms(1)] by blast
  have "wf_fval (FArr xs)" using wf_readAt [OF assms(2) x(2)] .
  then have "wf_fval (FArr (take (nat index) xs @ map Some (iterate add) @ drop (nat index + nat remove) xs))"
    using wf_iterate [OF assms(3)] by (auto dest: in_set_takeD in_set_dropD)
  then show ?thesis using whole_edit(3) [OF x(1,3) assms(2)] by blast
qed

section \<open>Tail operations\<close>

lemma lift_hash_Inr [simp]: "lift_hash r = Inr x \<longleftrightarrow> r = Inr x"
  by (cases r) (auto simp: lift_hash_def)

lemma case_array_Inr:
  "(case c of FArr xs \<Rightarrow> f xs | _ \<Rightarrow> Inl e) = Inr y \<longleftrightarrow> (\<exists>xs. c = FArr xs \<and> f xs = Inr y)"
  by (cases c) auto

text \<open>The array a tail operation adds to, and the document it is then in.\<close>

lemma tail_spec:
  assumes "thawTailArray root p op = Inr (r, xs)"
  shows "readAt r p = Some (FArr xs)" and "edits p root r" and "wf_fval root \<Longrightarrow> wf_fval r"
    and "r = root \<and> readAt root p = Some (FArr xs)
      \<or> (readAt root p = None \<or> readAt root p = Some FUndefined) \<and> xs = []"
    and "validateAddSpine root p = Inr ()"
proof -
  let ?u = "p \<noteq> [] \<and> trace_value (tracePath root p) = Some FUndefined"
  show "validateAddSpine root p = Inr ()" using assms by (auto simp: thawTailArray_def result_simps)
  have "readAt r p = Some (FArr xs) \<and> edits p root r \<and> (wf_fval root \<longrightarrow> wf_fval r)
      \<and> (r = root \<and> readAt root p = Some (FArr xs)
         \<or> (readAt root p = None \<or> readAt root p = Some FUndefined) \<and> xs = [])"
  proof (cases ?u)
    case True
    then obtain r' c c' where e: "thawSpine root (butlast p) p None = Inr (r', c)" "mutated r' (butlast p) c' = Inr r" "xs = []"
      "(case c of FArr ys \<Rightarrow> bindR (requireExistingArrayIndex ys (last p) p) (\<lambda>i. Inr (FArr (set_elem i (FArr []) ys)))
         | FObj ps \<Rightarrow> Inr (FObj (set_prop (last p) (FArr []) ps)) | _ \<Rightarrow> Inl OutsideModel) = Inr c'"
      using assms by (auto simp: thawTailArray_def Let_def result_simps)
    have "slot_set c (last p) (FArr []) c'"
      using thaw_shape [OF e(1)] e(4) slot_set_obj slot_set_arr by (auto simp: result_simps)
    then have "sets_slot root p (FArr []) r" using e(1,2) True unfolding sets_slot_def by blast
    note s = sets_slot_reads [OF this]
    obtain ds where "tracePath root p = Complete ds FUndefined"
      using True by (cases "tracePath root p") auto
    from loop_Complete [OF this [unfolded tracePath_def]] have "readAt root p = Some FUndefined" by auto
    then show ?thesis using s e(3) by simp
  next
    case False
    then have e: "thawSpine root p p (Some ''0'') = Inr (r, FArr xs)"
      using assms by (auto simp: thawTailArray_def result_simps case_array_Inr)
    have arr: "missingContainerIsArray ''0''" by code_simp
    have "edits p root r" unfolding edits_def using thaw_frame [OF e] by (auto simp: pathsOverlap_iff)
    then show ?thesis using thaw_cloned [OF e] thaw_at [OF e] arr
      by (auto simp: cloned_def createMissingContainer_def split: if_splits)
  qed
  then show "readAt r p = Some (FArr xs)" "edits p root r" "wf_fval root \<Longrightarrow> wf_fval r"
    "r = root \<and> readAt root p = Some (FArr xs) \<or> (readAt root p = None \<or> readAt root p = Some FUndefined) \<and> xs = []"
    by blast+
qed

lemma mutated_edits:
  assumes "mutated r p c' = Inr s"
  shows "edits p r s" "readAt s p = Some c'"
  using assms tree.get_put_beside tree.get_put_self
  by (auto simp: mutated_writes edits_def pathsOverlap_iff)

lemma append_cases:
  assumes "appendAtPath root p values = Inr s"
  obtains r xs where "thawTailArray root p ''append'' = Inr (r, xs)"
    "mutated r p (FArr (xs @ map Some (iterate values))) = Inr s"
  using assms by (auto simp: appendAtPath_def result_simps)

lemma addUnique_cases:
  assumes "addUniqueAtPath h root p values = Inr s"
  obtains r xs absent where "thawTailArray root p ''add-unique'' = Inr (r, xs)"
    "absent_values h xs values = Inr absent" "mutated r p (FArr (xs @ map Some absent)) = Inr s"
  using assms by (auto simp: addUniqueAtPath_def result_simps)

lemma filter_add_subset: "filter_add h t vs = Inr (t', ds) \<Longrightarrow> set ds \<subseteq> set vs"
  by (induction vs arbitrary: t t' ds) (auto simp: result_simps split: if_splits, blast+)

lemma filterR_subset: "filterR f xs = Inr ys \<Longrightarrow> set ys \<subseteq> set xs"
  by (induction xs arbitrary: ys) (fastforce simp: result_simps split: if_splits)+

lemma absent_subset: "absent_values h xs values = Inr absent \<Longrightarrow> set absent \<subseteq> set (iterate values)"
  unfolding absent_values_def
  by (auto simp: result_simps split: if_splits dest!: filter_add_subset filterR_subset)

lemma wf_append:
  "wf_fval (FArr xs) \<Longrightarrow> (\<And>v. v \<in> set vs \<Longrightarrow> wf_fval v) \<Longrightarrow> wf_fval (FArr (xs @ map Some vs))"
  by auto

lemma tail_wf:
  assumes "thawTailArray root p op = Inr (r, xs)" "mutated r p (FArr (xs @ map Some vs)) = Inr s"
    and "wf_fval root" "\<And>v. v \<in> set vs \<Longrightarrow> wf_fval v"
  shows "wf_fval s"
proof -
  have r: "wf_fval r" "wf_fval (FArr xs)" using tail_spec [OF assms(1)] assms(3) wf_readAt by blast+
  have "wf_fval (FArr (xs @ map Some vs))" using wf_append r(2) assms(4) by blast
  then show ?thesis using wf_writeBack [OF r(1) _ assms(2) [unfolded mutated_writes]] by blast
qed

section \<open>Removing by value\<close>

definition unhole :: "fval option \<Rightarrow> fval" where
  "unhole x = (case x of None \<Rightarrow> FUndefined | Some v \<Rightarrow> v)"

lemma compact_subset: "compact h v i k array = Inr ys \<Longrightarrow> set ys \<subseteq> set array"
proof (induction h v i k array arbitrary: ys rule: compact.induct)
  case (1 h w index kept array)
  show ?case
  proof (cases "index < length array")
    case True
    then obtain eq where eq: "valueEqual h (case array ! index of None \<Rightarrow> FUndefined | Some v \<Rightarrow> v) w = Inr eq"
      "(if eq then compact h w (Suc index) kept array
        else compact h w (Suc index) (Suc kept) (array[kept := array ! index])) = Inr ys"
      using "1.prems" by (subst (asm) compact.simps) (auto simp: result_simps)
    show ?thesis
    proof (cases eq)
      case True
      then show ?thesis using "1.IH"(1) [OF \<open>index < length array\<close>, of True ys] eq by simp
    next
      case False
      then have "set ys \<subseteq> set (array[kept := array ! index])"
        using "1.IH"(2) [OF \<open>index < length array\<close>, of False ys] eq by simp
      also have "\<dots> \<subseteq> insert (array ! index) (set array)" by (rule set_update_subset_insert)
      finally show ?thesis using True by auto
    qed
  next
    case False
    then show ?thesis using "1.prems" by (subst (asm) compact.simps) (auto dest: in_set_takeD)
  qed
qed

lemma compact_filter:
  assumes "k \<le> i" "i \<le> length array" "\<And>x. x \<in> set (drop i array) \<Longrightarrow> valueEqual h (unhole x) v = Inr (P x)"
  shows "compact h v i k array = Inr (take k array @ filter (\<lambda>x. \<not> P x) (drop i array))"
  using assms
proof (induction "length array - i" arbitrary: i k array)
  case 0
  then show ?case by (subst compact.simps) simp
next
  case (Suc n)
  then have i: "i < length array" by simp
  have d: "drop i array = array ! i # drop (Suc i) array" by (rule Cons_nth_drop_Suc [OF i, symmetric])
  have v: "valueEqual h (case array ! i of None \<Rightarrow> FUndefined | Some v \<Rightarrow> v) v = Inr (P (array ! i))"
    using Suc.prems(3) [of "array ! i"] d by (simp add: unhole_def)
  have n: "n = length array - Suc i" using Suc.hyps(2) by simp
  show ?case
  proof (cases "P (array ! i)")
    case True
    have "compact h v (Suc i) k array = Inr (take k array @ filter (\<lambda>x. \<not> P x) (drop (Suc i) array))"
      using Suc.prems d i by (intro Suc.hyps(1) [OF n]) simp_all
    then show ?thesis using i v True d by (subst compact.simps) simp
  next
    case False
    let ?a = "array[k := array ! i]"
    have k: "k < length array" using Suc.prems(1) i by simp
    have a: "drop (Suc i) ?a = drop (Suc i) array" "take (Suc k) ?a = take k array @ [array ! i]"
      using Suc.prems(1) k by (simp_all add: take_Suc_conv_app_nth)
    have "compact h v (Suc i) (Suc k) ?a = Inr (take (Suc k) ?a @ filter (\<lambda>x. \<not> P x) (drop (Suc i) ?a))"
      using Suc.prems d i n a by (intro Suc.hyps(1)) simp_all
    then show ?thesis using i v False d a by (subst compact.simps) simp
  qed
qed

lemma removeByValue_cases:
  assumes "removeByValueAtPath h root p v = Inr s"
  shows "s = root \<or> (\<exists>xs ys. thawSpine root p p None = Inr (root, FArr xs) \<and> readAt root p = Some (FArr xs)
    \<and> compact h v 0 0 xs = Inr ys \<and> mutated root p (FArr ys) = Inr s)"
  using assms
  by (auto simp: removeByValueAtPath_def result_simps thaw_None case_array_Inr isFabricPlainContainer_def
      split: fval.splits if_splits)

lemma removeByValue_edits: "removeByValueAtPath h root p v = Inr s \<Longrightarrow> edits p root s"
  by (drule removeByValue_cases) (auto intro: edits_whole)

lemma removeByValue_wf:
  assumes "removeByValueAtPath h root p v = Inr s" "wf_fval root"
  shows "wf_fval s"
  using removeByValue_cases [OF assms(1)]
proof (elim disjE exE conjE)
  fix xs ys
  assume x: "thawSpine root p p None = Inr (root, FArr xs)" "readAt root p = Some (FArr xs)" "compact h v 0 0 xs = Inr ys"
    "mutated root p (FArr ys) = Inr s"
  have "wf_fval (FArr xs)" using wf_readAt [OF assms(2) x(2)] .
  then have "wf_fval (FArr ys)" using compact_subset [OF x(3)] by auto
  then show ?thesis using whole_edit(3) [OF x(1,4) assms(2)] by blast
qed (use assms in simp)

lemma readNumber_present: "readAt v p = Some w \<Longrightarrow> readNumberOrAbsent v p = w"
proof (induction p arbitrary: v)
  case (Cons k p)
  then obtain x where x: "child v k = Some x" "readAt x p = Some w" by (auto split: option.splits)
  have "readNumberOrAbsent v (k # p) = readNumberOrAbsent x p"
    using x(1) by (cases v) (auto simp: index_name_iff split: if_splits)
  then show ?case using Cons.IH [OF x(2)] by simp
qed simp

end
