(* ===== verification/PatchMerge.thy ===== *)
theory PatchMerge
  imports PatchFacts
begin

text \<open>
  The mergeable operations: \<^verbatim>\<open>append\<close>, \<^verbatim>\<open>add-unique\<close>, \<^verbatim>\<open>remove-by-value\<close> and \<^verbatim>\<open>increment\<close>
  resolve against the live document. Here is what each does to the array or number it finds, and
  how two of them in a row combine.
\<close>

section \<open>A path that is there passes validation\<close>

lemma trace_present:
  assumes "readAt v p = Some w"
  shows "\<exists>es. tracePath_loop cs i v p = Complete (cs @ es) w \<and> length es = length p
    \<and> (\<forall>j<length p. isArray (es ! j) \<longrightarrow> isArrayIndexPropertyName (p ! j))"
  using assms
proof (induction p arbitrary: cs i v)
  case (Cons k p)
  then obtain x where x: "child v k = Some x" "readAt x p = Some w" by (auto split: option.splits)
  obtain es where es: "tracePath_loop (cs @ [v]) (Suc i) x p = Complete ((cs @ [v]) @ es) w" "length es = length p"
    "\<forall>j<length p. isArray (es ! j) \<longrightarrow> isArrayIndexPropertyName (p ! j)"
    using Cons.IH [OF x(2)] by blast
  have v: "isArray v \<longrightarrow> isArrayIndexPropertyName k" using x(1) by (cases v) (auto split: if_splits)
  have "\<forall>j<length (k # p). isArray ((v # es) ! j) \<longrightarrow> isArrayIndexPropertyName ((k # p) ! j)"
  proof (intro allI impI)
    fix j assume "j < length (k # p)" "isArray ((v # es) ! j)"
    then show "isArrayIndexPropertyName ((k # p) ! j)" using v es(3) by (cases j) auto
  qed
  then show ?case
    using es(1,2) child_own [OF x(1)] child_container [OF x(1)] by (intro exI [of _ "v # es"]) simp
qed simp

lemma validate_complete:
  "length (trace_containers t) = i + length spine \<Longrightarrow> (\<exists>cs w. t = Complete cs w) \<Longrightarrow>
   (\<And>j. j < length spine \<Longrightarrow> isArray (trace_containers t ! (i + j)) \<Longrightarrow> isArrayIndexPropertyName (spine ! j)) \<Longrightarrow>
   validate_loop p t i spine = Inr ()"
proof (induction spine arbitrary: i)
  case (Cons k spine)
  have "validate_loop p t (Suc i) spine = Inr ()"
  proof (rule Cons.IH)
    fix j assume "j < length spine" "isArray (trace_containers t ! (Suc i + j))"
    then show "isArrayIndexPropertyName (spine ! j)" using Cons.prems(3) [of "Suc j"] by simp
  qed (use Cons.prems in simp_all)
  moreover have "isArray (trace_containers t ! i) \<Longrightarrow> isArrayIndexPropertyName k"
    using Cons.prems(3) [of 0] by simp
  moreover have "\<not> trace_missing_at t i" using Cons.prems(2) by auto
  ultimately show ?case using Cons.prems(1) by (auto simp: bindR_eq_Inr)
qed simp

lemma validate_present:
  assumes "readAt root (butlast p) = Some c"
  shows "validateAddSpine root p = Inr ()"
proof -
  obtain es where es: "tracePath root (butlast p) = Complete es c" "length es = length (butlast p)"
    "\<forall>j<length (butlast p). isArray (es ! j) \<longrightarrow> isArrayIndexPropertyName (butlast p ! j)"
    using trace_present [OF assms, of "[]" 0] by (auto simp: tracePath_def)
  then show ?thesis unfolding validateAddSpine_def Let_def by (intro validate_complete) auto
qed

lemma read_prefix: "readAt v p = Some w \<Longrightarrow> p \<noteq> [] \<Longrightarrow> \<exists>c. readAt v (butlast p) = Some c \<and> child c (last p) = Some w"
  using butlast_last_read [of p v] by (auto split: option.splits)

lemma validate_at: "readAt root p = Some w \<Longrightarrow> validateAddSpine root p = Inr ()"
proof (cases "p = []")
  case False
  assume "readAt root p = Some w"
  then show ?thesis using read_prefix [of root p w] validate_present False by blast
qed (simp add: validateAddSpine_def)

lemma thaw_there:
  "readAt root p = Some c \<Longrightarrow> isFabricPlainContainer c \<Longrightarrow> thawSpine root p full cm = Inr (root, c)"
  using clone_present [of root p c] plain_is_value [of c] by (cases cm) (simp_all add: thawSpine_def isContainer_plain)

lemma mutated_twice: "mutated r p c = Inr s \<Longrightarrow> mutated s p c' = mutated r p c'"
proof -
  assume "mutated r p c = Inr s"
  then have "writeBack s p c' = writeBack r p c'" using tree.put_path_put by (simp add: mutated_writes)
  then show ?thesis by (simp only: mutated_def)
qed

lemma mutated_same: "readAt r p = Some c \<Longrightarrow> mutated r p c = Inr r"
  by (simp add: mutated_writes tree.put_path_same)

section \<open>Tail operations in a row\<close>

lemma tail_there:
  assumes "readAt root p = Some (FArr xs)"
  shows "thawTailArray root p op = Inr (root, xs)"
proof -
  obtain es where "tracePath root p = Complete es (FArr xs)"
    using trace_present [OF assms, of "[]" 0] by (auto simp: tracePath_def)
  moreover have "thawSpine root p p (Some ''0'') = Inr (root, FArr xs)"
    using thaw_there [OF assms] by (simp add: isFabricPlainContainer_def)
  ultimately show ?thesis using validate_at [OF assms] by (simp add: thawTailArray_def)
qed

lemma append_append:
  assumes "appendAtPath root p xs = Inr s"
  shows "appendAtPath s p ys = appendAtPath root p (xs @ ys)"
proof -
  obtain r zs where r: "thawTailArray root p ''append'' = Inr (r, zs)"
    "mutated r p (FArr (zs @ map Some (iterate xs))) = Inr s"
    using append_cases [OF assms] .
  have "thawTailArray s p ''append'' = Inr (s, zs @ map Some (iterate xs))"
    by (rule tail_there) (rule mutated_edits(2) [OF r(2)])
  then have "appendAtPath s p ys = mutated s p (FArr ((zs @ map Some (iterate xs)) @ map Some (iterate ys)))"
    by (simp add: appendAtPath_def)
  also have "\<dots> = mutated r p (FArr (zs @ map Some (iterate (xs @ ys))))"
    unfolding mutated_twice [OF r(2)] by (simp add: iterate_def)
  finally show ?thesis using r(1) by (simp add: appendAtPath_def)
qed

section \<open>Increments in a row\<close>

text \<open>The writing part of an increment.\<close>

definition put_number :: "fval \<Rightarrow> path \<Rightarrow> f64 \<Rightarrow> patch_error + fval" where
  "put_number root path x =
     bindR (validateAddSpine root path) (\<lambda>_.
       bindR (thawSpine root (butlast path) path (Some (last path))) (\<lambda>(newRoot, container).
         bindR (case container of
                  FArr xs \<Rightarrow>
                    bindR (parseArrayInsertIndex (last path) (length xs)) (\<lambda>i. Inr (FArr (set_elem i (FNum x) xs)))
                | FObj ps \<Rightarrow> Inr (FObj (set_prop (last path) (FNum x) ps))
                | _ \<Rightarrow> Inl OutsideModel)
           (mutated newRoot (butlast path))))"

definition number_at :: "fval \<Rightarrow> path \<Rightarrow> f64 option" where
  "number_at root path =
     (case readNumberOrAbsent root path of FNum x \<Rightarrow> Some x | FUndefined \<Rightarrow> Some 0 | _ \<Rightarrow> None)"

lemma increment_put:
  "incrementAtPath root p b = Inr s \<longleftrightarrow> p \<noteq> [] \<and> f64_finite b \<and> \<not> f64_is_zero b
     \<and> (\<exists>x. number_at root p = Some x \<and> put_number root p (f64_add x b) = Inr s)"
  unfolding incrementAtPath_def put_number_def [symmetric] number_at_def Let_def
  by (cases "readNumberOrAbsent root p"; simp)

lemma put_number_twice:
  assumes "put_number root p x = Inr s" "p \<noteq> []"
  shows "put_number s p y = put_number root p y" and "readAt s p = Some (FNum x)"
proof -
  obtain r c c' where e: "validateAddSpine root p = Inr ()" "thawSpine root (butlast p) p (Some (last p)) = Inr (r, c)"
    "mutated r (butlast p) c' = Inr s" "(case c of
             FArr xs \<Rightarrow> bindR (parseArrayInsertIndex (last p) (length xs)) (\<lambda>i. Inr (FArr (set_elem i (FNum x) xs)))
           | FObj ps \<Rightarrow> Inr (FObj (set_prop (last p) (FNum x) ps)) | _ \<Rightarrow> Inl OutsideModel) = Inr c'"
    using assms by (auto simp: put_number_def result_simps)
  have c': "isFabricPlainContainer c'" "readAt s (butlast p) = Some c'"
    using thaw_shape [OF e(2)] e(4) mutated_edits(2) [OF e(3)] by (auto simp: isFabricPlainContainer_def result_simps)
  have "child c' (last p) = Some (FNum x)"
    using thaw_shape [OF e(2)] e(4) by (auto simp: result_simps)
  then show "readAt s p = Some (FNum x)" using slot_edit(1) [OF e(2,3) assms(2)] by simp
  let ?put = "\<lambda>c. case c of
      FArr xs \<Rightarrow> bindR (parseArrayInsertIndex (last p) (length xs)) (\<lambda>i. Inr (FArr (set_elem i (FNum y) xs)))
    | FObj ps \<Rightarrow> Inr (FObj (set_prop (last p) (FNum y) ps)) | _ \<Rightarrow> Inl OutsideModel"
  have same: "?put c' = ?put c"
    using thaw_shape [OF e(2)]
  proof (elim disjE exE)
    fix ps assume "c = FObj ps"
    then show ?thesis using e(4) by (auto simp: set_prop_twice)
  next
    fix xs assume c: "c = FArr xs"
    then obtain i where i: "isArrayIndexPropertyName (last p)" "i = index_of (last p)" "i \<le> length xs" "c' = FArr (set_elem i (FNum x) xs)"
      using e(4) by (auto simp: result_simps)
    then have "i \<le> length (set_elem i (FNum x) xs)" by (simp add: set_elem_def)
    then have p1: "parseArrayInsertIndex (last p) (length (set_elem i (FNum x) xs)) = Inr i" using i by simp
    have p2: "parseArrayInsertIndex (last p) (length xs) = Inr i" using i by simp
    show ?thesis unfolding c i(4) fval.case p1 p2 bindR_simps set_elem_twice ..
  qed
  have "put_number s p y = bindR (?put c') (mutated s (butlast p))"
    using validate_present [OF c'(2)] thaw_there [OF c'(2,1)] by (simp add: put_number_def)
  also have "\<dots> = bindR (?put c) (mutated r (butlast p))"
  proof -
    have "mutated s (butlast p) = mutated r (butlast p)" using mutated_twice [OF e(3)] by (rule ext)
    then show ?thesis using same by (simp only:)
  qed
  finally show "put_number s p y = put_number root p y" using e(1,2) by (simp add: put_number_def)
qed

lemma increment_twice:
  assumes "incrementAtPath root p a = Inr t" "incrementAtPath t p b = Inr s"
  obtains x where "number_at root p = Some x" "put_number root p (f64_add (f64_add x a) b) = Inr s" "p \<noteq> []"
    "f64_finite a" "\<not> f64_is_zero a" "f64_finite b" "\<not> f64_is_zero b"
proof -
  obtain x where x: "p \<noteq> []" "f64_finite a" "\<not> f64_is_zero a" "number_at root p = Some x"
    "put_number root p (f64_add x a) = Inr t"
    using assms(1) by (auto simp: increment_put)
  note tw = put_number_twice [OF x(5,1)]
  have "number_at t p = Some (f64_add x a)"
    using readNumber_present [OF tw(2)] by (simp add: number_at_def)
  then have "f64_finite b" "\<not> f64_is_zero b" "put_number root p (f64_add (f64_add x a) b) = Inr s"
    using assms(2) tw(1) by (auto simp: increment_put)
  then show thesis using that x by blast
qed

lemma put_number_any:
  assumes "put_number root p x = Inr s" "p \<noteq> []"
  shows "\<exists>t. put_number root p y = Inr t"
proof -
  obtain r c c' where e: "validateAddSpine root p = Inr ()" "thawSpine root (butlast p) p (Some (last p)) = Inr (r, c)"
    "(case c of
             FArr xs \<Rightarrow> bindR (parseArrayInsertIndex (last p) (length xs)) (\<lambda>i. Inr (FArr (set_elem i (FNum x) xs)))
           | FObj ps \<Rightarrow> Inr (FObj (set_prop (last p) (FNum x) ps)) | _ \<Rightarrow> Inl OutsideModel) = Inr c'"
    using assms by (auto simp: put_number_def result_simps)
  have "\<exists>d. (case c of
             FArr xs \<Rightarrow> bindR (parseArrayInsertIndex (last p) (length xs)) (\<lambda>i. Inr (FArr (set_elem i (FNum y) xs)))
           | FObj ps \<Rightarrow> Inr (FObj (set_prop (last p) (FNum y) ps)) | _ \<Rightarrow> Inl OutsideModel) = Inr d"
    using thaw_shape [OF e(2)] e(3) by (auto simp: result_simps)
  then show ?thesis
    using e(1,2) mutated_total [OF thaw_at [OF e(2)]] by (auto simp: put_number_def)
qed

lemma increment_commute:
  assumes "incrementAtPath root p a = Inr t" "incrementAtPath t p b = Inr s"
    and "\<And>x. number_at root p = Some x \<Longrightarrow> f64_add (f64_add x a) b = f64_add (f64_add x b) a"
  shows "\<exists>u. incrementAtPath root p b = Inr u \<and> incrementAtPath u p a = Inr s"
proof -
  obtain x where x: "number_at root p = Some x" "put_number root p (f64_add (f64_add x a) b) = Inr s" "p \<noteq> []"
    "f64_finite a" "\<not> f64_is_zero a" "f64_finite b" "\<not> f64_is_zero b"
    using increment_twice [OF assms(1,2)] .
  obtain u where u: "put_number root p (f64_add x b) = Inr u" using put_number_any [OF x(2,3)] by blast
  note tw = put_number_twice [OF u x(3)]
  have "number_at u p = Some (f64_add x b)" using readNumber_present [OF tw(2)] by (simp add: number_at_def)
  moreover have "put_number u p (f64_add (f64_add x b) a) = Inr s" using tw(1) x(2) assms(3) [OF x(1)] by simp
  ultimately show ?thesis using u x by (auto simp: increment_put)
qed

section \<open>Adding what is not there\<close>

text \<open>The values whose canonical form is neither in a set nor met before, in order.\<close>

fun fresh :: "fval set \<Rightarrow> fval list \<Rightarrow> fval list" where
  "fresh A [] = []"
| "fresh A (v # vs) = (if canon v \<in> A then fresh A vs else v # fresh (insert (canon v) A) vs)"

lemma fresh_none: "canon ` set vs \<subseteq> A \<Longrightarrow> fresh A vs = []"
  by (induction vs) auto

lemma fresh_covers: "canon ` set vs \<subseteq> A \<union> canon ` set (fresh A vs)"
proof (induction vs arbitrary: A)
  case (Cons v vs)
  then show ?case using Cons.IH [of A] Cons.IH [of "insert (canon v) A"] by auto
qed simp

lemma fresh_filter: "filter (\<lambda>v. canon v \<notin> E) (fresh A vs) = fresh (A \<union> E) vs"
proof (induction vs arbitrary: A)
  case (Cons v vs)
  show ?case
  proof (cases "canon v \<in> E")
    case True
    then have "insert (canon v) A \<union> E = A \<union> E" by blast
    then show ?thesis using True Cons.IH [of A] Cons.IH [of "insert (canon v) A"] by simp
  next
    case False
    have "insert (canon v) A \<union> E = insert (canon v) (A \<union> E)" by blast
    then show ?thesis using False Cons.IH [of A] Cons.IH [of "insert (canon v) A"] by simp
  qed
qed simp

lemma filter_add_spec:
  assumes "comparable h G" "vs_inv h G s" "set vs \<subseteq> G"
  shows "\<exists>s'. filter_add h s vs = Inr (s', fresh (contents s) vs) \<and> vs_inv h G s' \<and> contents s' = contents s \<union> canon ` set vs"
  using assms(2,3)
proof (induction vs arbitrary: s)
  case (Cons v vs)
  obtain s1 where s1: "vs_add h s v = Inr (s1, canon v \<notin> contents s)" "vs_inv h G s1" "contents s1 = insert (canon v) (contents s)"
    using vs_add_spec [OF assms(1) Cons.prems(1), of v] Cons.prems(2) by auto
  obtain s2 where s2: "filter_add h s1 vs = Inr (s2, fresh (contents s1) vs)" "vs_inv h G s2"
    "contents s2 = contents s1 \<union> canon ` set vs"
    using Cons.IH [OF s1(2)] Cons.prems(2) by auto
  have "insert (canon v) (contents s) = contents s" if "canon v \<in> contents s" using that by blast
  then show ?case using s1 s2 by auto
qed simp

lemma delete_all_spec:
  assumes "comparable h G" "vs_inv h G s" "set vs \<subseteq> G"
  shows "\<exists>s'. foldR (vs_delete h) s vs = Inr s' \<and> vs_inv h G s' \<and> contents s' = contents s - canon ` set vs"
  using assms(2,3)
proof (induction vs arbitrary: s)
  case (Cons v vs)
  obtain s1 where s1: "vs_delete h s v = Inr s1" "vs_inv h G s1" "contents s1 = contents s - {canon v}"
    using vs_delete_spec [OF assms(1) Cons.prems(1), of v] Cons.prems(2) by auto
  obtain s2 where "foldR (vs_delete h) s1 vs = Inr s2" "vs_inv h G s2" "contents s2 = contents s1 - canon ` set vs"
    using Cons.IH [OF s1(2)] Cons.prems(2) by auto
  then show ?case using s1 by auto
qed simp

text \<open>Both ways of looking the values up give the same answer.\<close>

lemma absent_spec:
  assumes "comparable h (set (elements xs) \<union> set (iterate values))"
  shows "absent_values h xs values = Inr (fresh (canon ` set (elements xs)) (iterate values))"
proof -
  let ?G = "set (elements xs) \<union> set (iterate values)"
  let ?E = "canon ` set (elements xs)"
  obtain s where s: "filter_add h empty_set (iterate values) = Inr (s, fresh {} (iterate values))" "vs_inv h ?G s"
    "contents s = canon ` set (iterate values)"
    using filter_add_spec [OF assms empty_set_spec(1), of "iterate values"] by (auto simp: empty_set_spec)
  have sub: "set (fresh {} (iterate values)) \<subseteq> set (iterate values)"
    using filter_add_subset [OF s(1)] .
  have res: "filter (\<lambda>v. canon v \<notin> ?E) (fresh {} (iterate values)) = fresh ?E (iterate values)"
    using fresh_filter [of ?E "{}" "iterate values"] by simp
  show ?thesis
  proof (cases "length (fresh {} (iterate values)) \<le> ADD_UNIQUE_SCAN_LIMIT")
    case True
    have some: "someR (\<lambda>existing. valueEqual h existing v) (elements xs) = Inr (\<exists>e\<in>set (elements xs). canon e = canon v)"
      if "v \<in> set (fresh {} (iterate values))" for v
      using that sub by (intro someR_total comparable_equal [OF assms]) auto
    have "filterR (\<lambda>v. bindR (someR (\<lambda>existing. valueEqual h existing v) (elements xs)) (\<lambda>found. Inr (\<not> found)))
        (fresh {} (iterate values)) = Inr (filter (\<lambda>v. canon v \<notin> ?E) (fresh {} (iterate values)))"
    proof (rule filterR_total)
      fix v assume "v \<in> set (fresh {} (iterate values))"
      then show "bindR (someR (\<lambda>existing. valueEqual h existing v) (elements xs)) (\<lambda>found. Inr (\<not> found)) = Inr (canon v \<notin> ?E)"
        by (simp only: some bindR_simps) (auto simp: image_iff)
    qed
    then show ?thesis using True s(1) res by (simp add: absent_values_def)
  next
    case False
    obtain t where t: "foldR (vs_delete h) s (elements xs) = Inr t" "vs_inv h ?G t" "contents t = contents s - ?E"
      using delete_all_spec [OF assms s(2), of "elements xs"] by auto
    have "filterR (vs_has h t) (fresh {} (iterate values)) = Inr (filter (\<lambda>v. canon v \<notin> ?E) (fresh {} (iterate values)))"
    proof (rule filterR_total)
      fix v assume v: "v \<in> set (fresh {} (iterate values))"
      then have "vs_has h t v = Inr (canon v \<in> contents t)" using sub by (intro vs_has_spec [OF assms t(2)]) blast
      moreover have "canon v \<in> contents s" using v sub s(3) by blast
      ultimately show "vs_has h t v = Inr (canon v \<notin> ?E)" using t(3) by simp
    qed
    then show ?thesis using False s(1) t(1) res by (simp add: absent_values_def)
  qed
qed

definition list_at :: "fval \<Rightarrow> path \<Rightarrow> fval option list" where
  "list_at root p = (case readAt root p of Some (FArr xs) \<Rightarrow> xs | _ \<Rightarrow> [])"

lemma tail_list: "thawTailArray root p op = Inr (r, xs) \<Longrightarrow> xs = list_at root p"
  using tail_spec(4) [of root p op r xs] by (auto simp: list_at_def)

lemma elements_append: "elements (xs @ map Some vs) = elements xs @ vs"
proof (induction xs)
  case Nil
  show ?case by (induction vs) auto
next
  case (Cons x xs)
  then show ?case by (cases x) auto
qed

lemma fresh_subset: "set (fresh A vs) \<subseteq> set vs"
  by (induction vs arbitrary: A) auto

lemma add_unique_spec:
  assumes "addUniqueAtPath h root p values = Inr s"
    and "comparable h (set (elements (list_at root p)) \<union> set (iterate values))"
  shows "readAt s p = Some (FArr (list_at root p
      @ map Some (fresh (canon ` set (elements (list_at root p))) (iterate values))))"
    and "addUniqueAtPath h s p values = Inr s"
proof -
  let ?xs = "list_at root p"
  let ?new = "fresh (canon ` set (elements ?xs)) (iterate values)"
  obtain r xs absent where r: "thawTailArray root p ''add-unique'' = Inr (r, xs)"
    "absent_values h xs values = Inr absent" "mutated r p (FArr (xs @ map Some absent)) = Inr s"
    using addUnique_cases [OF assms(1)] .
  have x: "xs = ?xs" using tail_list [OF r(1)] .
  then have a: "absent = ?new" using r(2) absent_spec [OF assms(2)] by simp
  show read: "readAt s p = Some (FArr (?xs @ map Some ?new))" using mutated_edits(2) [OF r(3)] x a by simp
  let ?ys = "?xs @ map Some ?new"
  have "comparable h (set (elements ?ys) \<union> set (iterate values))"
    using fresh_subset by (intro comparable_subset [OF assms(2)]) (auto simp: elements_append)
  then have "absent_values h ?ys values = Inr (fresh (canon ` set (elements ?ys)) (iterate values))" by (rule absent_spec)
  also have "fresh (canon ` set (elements ?ys)) (iterate values) = []"
    using fresh_covers [of "iterate values" "canon ` set (elements ?xs)"]
    by (intro fresh_none) (simp add: elements_append image_Un)
  finally show "addUniqueAtPath h s p values = Inr s"
    using tail_there [OF read] mutated_same [OF read] by (simp add: addUniqueAtPath_def lift_hash_def)
qed

section \<open>Removing what is equal\<close>

lemma elements_set: "v \<in> set (elements xs) \<longleftrightarrow> Some v \<in> set xs"
proof (induction xs)
  case (Cons x xs)
  then show ?case by (cases x) auto
qed simp

definition without_value :: "fval \<Rightarrow> fval option list \<Rightarrow> fval option list" where
  "without_value v xs =
     (if \<exists>e\<in>set (elements xs). canon e = canon v then filter (\<lambda>x. canon (unhole x) \<noteq> canon v) xs else xs)"

lemma remove_by_value_spec:
  assumes "readAt root p = Some (FArr xs)" "comparable h (insert v (unhole ` set xs))"
  shows "\<exists>s. removeByValueAtPath h root p v = Inr s \<and> readAt s p = Some (FArr (without_value v xs))"
proof -
  let ?P = "\<lambda>x. canon (unhole x) = canon v"
  have rd: "readNumberOrAbsent root p = FArr xs" by (rule readNumber_present [OF assms(1)])
  have some: "someR (\<lambda>e. valueEqual h e v) (elements xs) = Inr (\<exists>e\<in>set (elements xs). canon e = canon v)"
  proof (rule someR_total)
    fix e assume "e \<in> set (elements xs)"
    then have "e \<in> unhole ` set xs" using elements_set by (force simp: unhole_def)
    then show "valueEqual h e v = Inr (canon e = canon v)" by (intro comparable_equal [OF assms(2)]) auto
  qed
  show ?thesis
  proof (cases "\<exists>e\<in>set (elements xs). canon e = canon v")
    case False
    then have "removeByValueAtPath h root p v = Inr root"
      unfolding removeByValueAtPath_def rd fval.case some lift_hash_def by simp
    then show ?thesis using assms(1) False by (simp add: without_value_def)
  next
    case True
    have "compact h v 0 0 xs = Inr (take 0 xs @ filter (\<lambda>x. \<not> ?P x) (drop 0 xs))"
      by (rule compact_filter) (auto intro: comparable_equal [OF assms(2)])
    then have c: "compact h v 0 0 xs = Inr (filter (\<lambda>x. \<not> ?P x) xs)" by simp
    have t: "thawSpine root p p None = Inr (root, FArr xs)"
      using thaw_there [OF assms(1)] by (simp add: isFabricPlainContainer_def)
    obtain s where s: "mutated root p (FArr (filter (\<lambda>x. \<not> ?P x) xs)) = Inr s"
      using mutated_total [OF assms(1)] by blast
    have "removeByValueAtPath h root p v = Inr s"
      unfolding removeByValueAtPath_def rd fval.case some t lift_hash_def
      by (simp add: True c s)
    then show ?thesis using True mutated_edits(2) [OF s] by (auto simp: without_value_def)
  qed
qed

section \<open>Properties\<close>

lemma pointer_Inr: "pointer ptr = Inr p \<longleftrightarrow> parsePointer ptr = Inr p"
  by (auto simp: pointer_def split: sum.splits)

fun op_wf :: "patch_op \<Rightarrow> bool" where
  "op_wf (Replace _ v) = wf_fval v"
| "op_wf (Add _ v) = wf_fval v"
| "op_wf (Splice _ _ _ vs) = list_all wf_fval (iterate vs)"
| "op_wf (Append _ vs _) = list_all wf_fval (iterate vs)"
| "op_wf (AddUnique _ vs _) = list_all wf_fval (iterate vs)"
| "op_wf _ = True"

lemma iterate_wf: "list_all wf_fval (iterate vs) \<Longrightarrow> x \<in> set vs \<Longrightarrow> v \<in> set_option x \<Longrightarrow> wf_fval v"
  by (force simp: iterate_def list_all_iff)

lemma applyOp_wf:
  assumes "applyOp h root op = Inr s" "wf_fval root" "op_wf op"
  shows "wf_fval s"
proof (cases op)
  case (Replace ptr v)
  then show ?thesis using assms sets_slot_reads(3) [OF replace_sets] by (auto simp: result_simps)
next
  case (Add ptr v)
  then show ?thesis using assms add_wf by (auto simp: result_simps)
next
  case (Remove ptr)
  then show ?thesis using assms remove_wf by (auto simp: result_simps)
next
  case (Move src ptr)
  then show ?thesis using assms move_wf by (auto simp: result_simps)
next
  case (Splice ptr i n vs)
  then obtain p where p: "spliceAtPath root p i n vs = Inr s" using assms(1) by (auto simp: result_simps)
  have "\<forall>x\<in>set vs. \<forall>v\<in>set_option x. wf_fval v" using assms(3) Splice iterate_wf [of vs] by auto
  then show ?thesis by (rule splice_wf [OF p assms(2)])
next
  case (Append ptr vs c)
  then obtain p where "appendAtPath root p vs = Inr s" using assms by (auto simp: result_simps)
  then obtain r xs where "thawTailArray root p ''append'' = Inr (r, xs)" "mutated r p (FArr (xs @ map Some (iterate vs))) = Inr s"
    by (rule append_cases)
  then show ?thesis using tail_wf [OF _ _ assms(2)] assms(3) Append by (simp add: list_all_iff)
next
  case (AddUnique ptr vs c)
  then obtain p where "addUniqueAtPath h root p vs = Inr s" using assms by (auto simp: result_simps)
  then obtain r xs absent where a: "thawTailArray root p ''add-unique'' = Inr (r, xs)" "absent_values h xs vs = Inr absent"
    "mutated r p (FArr (xs @ map Some absent)) = Inr s"
    by (rule addUnique_cases)
  show ?thesis
    using absent_subset [OF a(2)] assms(3) AddUnique by (intro tail_wf [OF a(1,3) assms(2)]) (auto simp: list_all_iff)
next
  case (RemoveByValue ptr v)
  then show ?thesis using assms removeByValue_wf by (auto simp: result_simps)
next
  case (Increment ptr b c)
  then show ?thesis using assms sets_slot_reads(3) [OF increment_sets(1)] by (auto simp: result_simps)
qed

text \<open>Replaying any patch over a well-formed document, or over none, either fails or gives a
  well-formed document again: a plain object whose keys are distinct at every level. No operation of
  a patch can leave an object with two properties of one name, whatever paths it takes.\<close>

lemma patch_keeps_documents:
  assumes "applyPatchToDocument h base ops = Inr s"
    and "case base of None \<Rightarrow> True | Some b \<Rightarrow> wf_fval b" and "list_all op_wf ops"
  shows "isEntityDocument s \<and> wf_fval s"
proof -
  let ?b = "case base of None \<Rightarrow> emptyEntityDocument | Some b \<Rightarrow> b"
  have s: "applyPatch h ?b ops = Inr s" "isEntityDocument s"
    using assms(1) by (auto simp: applyPatchToDocument_def result_simps split: if_splits)
  have step: "wf_fval s" if "foldR (applyOp h) b os = Inr s" "wf_fval b" "list_all op_wf os" for b os
    using that
  proof (induction os arbitrary: b)
    case (Cons op os)
    then obtain b' where b': "applyOp h b op = Inr b'" "foldR (applyOp h) b' os = Inr s" by (auto simp: result_simps)
    show ?case using Cons.IH [OF b'(2) applyOp_wf [OF b'(1)]] Cons.prems by simp
  qed simp
  have "wf_fval ?b" using assms(2) by (cases base) (simp_all add: emptyEntityDocument_def)
  from step [OF s(1) [unfolded applyPatch_def] this assms(3)] s(2) show ?thesis by blast
qed

text \<open>C31. What an operation writes is what its path then reads: the value of a \<^verbatim>\<open>replace\<close> or an
  \<^verbatim>\<open>add\<close> (but for the append marker), the moved value at the destination of a \<^verbatim>\<open>move\<close>, and the
  sum at the path of an \<^verbatim>\<open>increment\<close>, an absent value or a stored \<^verbatim>\<open>undefined\<close> counting as zero;
  and after a \<^verbatim>\<open>remove\<close> the container the path ends in is the old one without that property or
  element.\<close>

theorem patch_op_reads_back:
  assumes "applyOp h root op = Inr s"
  shows "case op of
      Replace ptr v \<Rightarrow> \<exists>p. parsePointer ptr = Inr p \<and> readAt s p = Some v
    | Add ptr v \<Rightarrow> \<exists>p. parsePointer ptr = Inr p \<and> (p \<noteq> [] \<and> last p = ''-'' \<or> readAt s p = Some v)
    | Remove ptr \<Rightarrow> \<exists>p c. parsePointer ptr = Inr p \<and> readAt root (butlast p) = Some c \<and> child c (last p) \<noteq> None
        \<and> readAt s (butlast p) = Some (remove_slot c (last p))
    | Move src ptr \<Rightarrow> \<exists>q p. parsePointer src = Inr q \<and> parsePointer ptr = Inr p \<and> readAt root q \<noteq> None
        \<and> (p \<noteq> [] \<and> last p = ''-'' \<or> readAt s p = readAt root q)
    | Increment ptr b _ \<Rightarrow> \<exists>p x. parsePointer ptr = Inr p \<and> number_at root p = Some x
        \<and> readAt s p = Some (FNum (f64_add x b))
    | _ \<Rightarrow> True"
proof (cases op)
  case (Replace ptr v)
  then show ?thesis using assms sets_slot_reads(1) [OF replace_sets] by (auto simp: result_simps pointer_Inr)
next
  case (Add ptr v)
  then obtain p where p: "parsePointer ptr = Inr p" "addAtPath root p v = Inr s"
    using assms by (auto simp: result_simps pointer_Inr)
  then show ?thesis using Add add_reads [OF p(2)] by auto
next
  case (Remove ptr)
  then obtain p where p: "parsePointer ptr = Inr p" "removeAtPath root p = Inr s"
    using assms by (auto simp: result_simps pointer_Inr)
  then show ?thesis using Remove remove_cases [OF p(2)] mutated_edits(2) by auto
next
  case (Move src ptr)
  then obtain q p where p: "parsePointer src = Inr q" "parsePointer ptr = Inr p" "moveValue root q p = Inr s"
    using assms by (auto simp: result_simps pointer_Inr)
  then show ?thesis using Move move_cases [OF p(3)] move_reads [OF p(3)] by auto
next
  case (Increment ptr b c)
  then obtain p where p: "parsePointer ptr = Inr p" "incrementAtPath root p b = Inr s"
    using assms by (auto simp: result_simps pointer_Inr)
  then show ?thesis using Increment put_number_twice(2) by (auto simp: increment_put)
qed simp_all

theorem patch_op_reads_back_witness:
  "readAt (FObj [(''a'', FObj [(''b'', FNull)])]) [''a'', ''b''] = Some FNull"
proof -
  have op: "applyOp padding_host (FObj []) (Add ''/a/b'' FNull) = Inr (FObj [(''a'', FObj [(''b'', FNull)])])"
    by code_simp
  have p: "parsePointer ''/a/b'' = Inr [''a'', ''b'']" by code_simp
  show ?thesis using patch_op_reads_back [OF op] by (simp add: p)
qed

text \<open>C33. Two appends to one list are one append of both value lists, whatever the document, errors
  and creation of the list included: concurrent appends merge without loss.\<close>

theorem appends_merge:
  "applyPatch h root [Append ptr xs c, Append ptr ys d] = applyPatch h root [Append ptr (xs @ ys) e]"
proof (cases "pointer ptr")
  case (Inr p)
  show ?thesis
  proof (cases "thawTailArray root p ''append''")
    case (Inl err)
    then show ?thesis using Inr by (simp add: applyPatch_def appendAtPath_def)
  next
    case (Inr t)
    obtain r zs where t: "t = (r, zs)" by (cases t)
    obtain s where "appendAtPath root p xs = Inr s"
      using mutated_total [OF tail_spec(1) [of root p "''append''" r zs]] Inr t by (auto simp: appendAtPath_def)
    then have "appendAtPath root p xs = Inr s" "appendAtPath s p ys = appendAtPath root p (xs @ ys)"
      using append_append by auto
    then show ?thesis using \<open>pointer ptr = Inr p\<close> by (simp add: applyPatch_def bindR_def split: sum.splits)
  qed
qed (simp add: applyPatch_def)

text \<open>Two increments of a number by integers add both, in either order, and leave the very same
  document: concurrent increments sum instead of clobbering one another, exactly as long as the
  integers stay within the range doubles represent.\<close>

theorem increments_sum:
  assumes "applyPatch h root [Increment ptr (f64_of_int a) c, Increment ptr (f64_of_int b) d] = Inr s"
    and "parsePointer ptr = Inr p" and "number_at root p = Some (f64_of_int n)"
    and "\<bar>n\<bar> \<le> 2 ^ 51" and "\<bar>a\<bar> \<le> 2 ^ 51" and "\<bar>b\<bar> \<le> 2 ^ 51"
  shows "readAt s p = Some (FNum (f64_of_int (n + a + b)))
    \<and> applyPatch h root [Increment ptr (f64_of_int b) d, Increment ptr (f64_of_int a) c] = Inr s"
proof -
  have ptr: "pointer ptr = Inr p" using assms(2) by (simp add: pointer_Inr)
  obtain t where t: "incrementAtPath root p (f64_of_int a) = Inr t" "incrementAtPath t p (f64_of_int b) = Inr s"
    using assms(1) ptr by (auto simp: applyPatch_def result_simps)
  have ab: "f64_add (f64_add (f64_of_int n) (f64_of_int a)) (f64_of_int b) = f64_of_int (n + a + b)"
    "f64_add (f64_add (f64_of_int n) (f64_of_int b)) (f64_of_int a) = f64_of_int (n + a + b)"
    using assms(4-6) by (simp_all add: f64_add_of_int algebra_simps)
  obtain x where x: "number_at root p = Some x" "put_number root p (f64_add (f64_add x (f64_of_int a)) (f64_of_int b)) = Inr s" "p \<noteq> []"
    using increment_twice [OF t] by metis
  have "readAt s p = Some (FNum (f64_of_int (n + a + b)))"
    using put_number_twice(2) [OF x(2,3)] x(1) assms(3) ab(1) by simp
  moreover have "\<exists>u. incrementAtPath root p (f64_of_int b) = Inr u \<and> incrementAtPath u p (f64_of_int a) = Inr s"
    by (rule increment_commute [OF t]) (simp add: assms(3) ab)
  then have "applyPatch h root [Increment ptr (f64_of_int b) d, Increment ptr (f64_of_int a) c] = Inr s"
    using ptr by (auto simp: applyPatch_def)
  ultimately show ?thesis ..
qed

lemma f64_of_int_not_zero: "\<bar>n\<bar> \<le> 2 ^ 53 \<Longrightarrow> n \<noteq> 0 \<Longrightarrow> \<not> f64_is_zero (f64_of_int n)"
proof
  assume n: "\<bar>n\<bar> \<le> 2 ^ 53" "n \<noteq> 0" and z: "f64_is_zero (f64_of_int n)"
  have "f64_units (f64_of_int n) = 0" using z by (simp add: f64_units_def f64_is_zero_def)
  moreover have "(0::nat) < f64_one_units" unfolding f64_one_units_def by (rule zero_less_power) simp
  ultimately show False using n by (simp add: f64_units_of_int)
qed

lemma f64_of_int_0: "f64_of_int 0 = 0"
  by (simp add: f64_of_int_def f64_round_def)

theorem increments_sum_witness:
  "\<exists>s. applyPatch padding_host (FObj []) [Increment ''/n'' (f64_of_int 1) True, Increment ''/n'' (f64_of_int 2) False] = Inr s
     \<and> readAt s [''n''] = Some (FNum (f64_of_int 3))"
proof -
  let ?ops = "[Increment ''/n'' (f64_of_int 1) True, Increment ''/n'' (f64_of_int 2) False]"
  have p: "parsePointer ''/n'' = Inr [''n'']" by code_simp
  have n: "number_at (FObj []) [''n''] = Some (f64_of_int 0)" by (simp add: number_at_def f64_of_int_0)
  have put: "put_number (FObj []) [''n''] x = Inr (FObj [(''n'', FNum x)])" for x
    by (simp add: put_number_def validateAddSpine_def thawSpine_def cloneForMutation_def isContainer_plain
        isFabricContainerValue_def isFabricPlainContainer_def set_prop_def isArrayIndexPropertyName_def
        digit_of_def mutated_def)
  let ?t = "FObj [(''n'', FNum (f64_add (f64_of_int 0) (f64_of_int 1)))]"
  have nt: "number_at ?t [''n''] = Some (f64_add (f64_of_int 0) (f64_of_int 1))"
    by (simp add: number_at_def)
  have ok: "f64_finite (f64_of_int 1)" "\<not> f64_is_zero (f64_of_int 1)" "f64_finite (f64_of_int 2)" "\<not> f64_is_zero (f64_of_int 2)"
    using f64_finite_of_int [of 1] f64_finite_of_int [of 2] f64_of_int_not_zero [of 1] f64_of_int_not_zero [of 2] by simp_all
  have t: "incrementAtPath (FObj []) [''n''] (f64_of_int 1) = Inr ?t"
    using ok n put by (simp add: increment_put)
  have "put_number ?t [''n''] x = Inr (FObj [(''n'', FNum x)])" for x
    using put_number_twice(1) [OF put] put by simp
  then obtain s where s: "incrementAtPath ?t [''n''] (f64_of_int 2) = Inr s"
    using ok nt by (auto simp: increment_put)
  have "applyPatch padding_host (FObj []) ?ops = Inr s"
    using t s by (simp add: applyPatch_def pointer_def p)
  with increments_sum [OF this p n] show ?thesis by auto
qed

text \<open>C32. \<^verbatim>\<open>add-unique\<close> leaves a list holding what it held followed by the added values whose content
  it did not hold, each once and in order, whichever of its two ways of looking them up it takes;
  and doing it again changes nothing.\<close>

theorem add_unique_is_set_insertion:
  assumes "applyOp h root (AddUnique ptr values c) = Inr s" and "parsePointer ptr = Inr p"
    and "comparable h (set (elements (list_at root p)) \<union> set (iterate values))"
  shows "readAt s p = Some (FArr (list_at root p
      @ map Some (fresh (canon ` set (elements (list_at root p))) (iterate values))))
    \<and> applyOp h s (AddUnique ptr values c) = Inr s"
proof -
  have "addUniqueAtPath h root p values = Inr s" using assms(1,2) by (simp add: pointer_Inr [THEN iffD2, OF assms(2)])
  from add_unique_spec [OF this assms(3)] show ?thesis by (simp add: pointer_Inr [THEN iffD2, OF assms(2)])
qed

lemma comparable_pair:
  assumes "feedValue padding_host a = Inr [x]" "feedValue padding_host b = Inr [y]" "long_strings a = []" "long_strings b = []"
  shows "comparable padding_host {a, b}"
proof -
  have "sha_ok padding_host (\<Union>v\<in>{a, b}. set (hashed_bytes padding_host v))"
    unfolding hashed_bytes_def UN_insert UN_empty assms
    by (rule padding_host_ok) (auto simp: inj_on_def padding_host_def)
  then show ?thesis using assms(1,2) by (simp add: comparable_def hashable_def)
qed

theorem add_unique_is_set_insertion_witness:
  "readAt (FObj [(''l'', FArr [Some FNull, Some FUndefined])]) [''l''] = Some (FArr [Some FNull, Some FUndefined])
   \<and> applyOp padding_host (FObj [(''l'', FArr [Some FNull, Some FUndefined])])
       (AddUnique ''/l'' [Some FUndefined, None, Some FNull] False)
     = Inr (FObj [(''l'', FArr [Some FNull, Some FUndefined])])"
proof -
  have op: "applyOp padding_host (FObj [(''l'', FArr [Some FNull])]) (AddUnique ''/l'' [Some FUndefined, None, Some FNull] False)
      = Inr (FObj [(''l'', FArr [Some FNull, Some FUndefined])])"
    by code_simp
  have p: "parsePointer ''/l'' = Inr [''l'']" by code_simp
  have l: "list_at (FObj [(''l'', FArr [Some FNull])]) [''l''] = [Some FNull]" by (simp add: list_at_def)
  have "comparable padding_host {FNull, FUndefined}" by (rule comparable_pair) simp_all
  then have c: "comparable padding_host (set (elements (list_at (FObj [(''l'', FArr [Some FNull])]) [''l'']))
      \<union> set (iterate [Some FUndefined, None, Some FNull]))"
    by (simp add: l iterate_def insert_commute)
  show ?thesis
    using add_unique_is_set_insertion [OF op p c] by (simp add: l iterate_def)
qed

text \<open>\<^verbatim>\<open>remove-by-value\<close> always succeeds on a list and leaves exactly the slots whose content
  differs, in order, if any element equals the value, and the list as it is otherwise: a hole counts
  as \<^verbatim>\<open>undefined\<close> in the pass, but not in the test whether there is anything to remove.\<close>

theorem remove_by_value_filters:
  assumes "parsePointer ptr = Inr p" and "readAt root p = Some (FArr xs)"
    and "comparable h (insert v (unhole ` set xs))"
  shows "\<exists>s. applyOp h root (RemoveByValue ptr v) = Inr s \<and> readAt s p = Some (FArr (without_value v xs))"
  using remove_by_value_spec [OF assms(2,3)] by (simp add: pointer_Inr [THEN iffD2, OF assms(1)])

theorem remove_by_value_filters_witness:
  "\<exists>s. applyOp padding_host (FObj [(''l'', FArr [None, Some FNull])]) (RemoveByValue ''/l'' FUndefined) = Inr s
     \<and> readAt s [''l''] = Some (FArr [None, Some FNull])"
proof -
  have p: "parsePointer ''/l'' = Inr [''l'']" by code_simp
  have r: "readAt (FObj [(''l'', FArr [None, Some FNull])]) [''l''] = Some (FArr [None, Some FNull])" by simp
  have "comparable padding_host {FUndefined, FNull}" by (rule comparable_pair) simp_all
  then have "comparable padding_host (insert FUndefined (unhole ` set [None, Some FNull]))" by (simp add: unhole_def)
  from remove_by_value_filters [OF p r this] show ?thesis by (simp add: without_value_def)
qed

text \<open>\<^verbatim>\<open>spliceAll\<close> does what \<^verbatim>\<open>array.splice(start, deleteCount, ...items)\<close> does, holes
  included: the elements before the start, the new ones, the ones after the deleted stretch, and the
  deleted stretch as its result.\<close>

theorem splice_all_splices:
  "spliceAll array start deleteCount items =
     (take start array @ map Some items @ drop (start + deleteCount) array, take deleteCount (drop start array))"
  by (rule spliceAll_eq)

text \<open>An \<^verbatim>\<open>append\<close> through an index past the end of an array is not refused, as an \<^verbatim>\<open>add\<close>
  there is: it fills the array with holes up to that index and stores a new list in it. Only the
  part of the path before the last segment is checked.\<close>

theorem append_fabricates_index:
  "applyOp h (FObj [(''list'', FArr [])]) (Append ''/list/2'' [Some FNull] c)
     = Inr (FObj [(''list'', FArr [None, None, Some (FArr [Some FNull])])])
   \<and> applyOp h (FObj [(''list'', FArr [])]) (Add ''/list/2'' (FArr [Some FNull])) = Inl (IndexOutOfBounds ''2'')"
proof -
  have p: "parsePointer ''/list/2'' = Inr [''list'', ''2'']" by code_simp
  have i: "isArrayIndexPropertyName ''2''" "index_of ''2'' = 2" "isArrayIndexPropertyName ''0''"
    "\<not> isArrayIndexPropertyName ''list''" "isArraySegment ''2''"
    by (simp_all add: isArrayIndexPropertyName_def isArraySegment_def digit_of_def index_of_def)
  note defs = thawSpine_def cloneForMutation_def isContainer_plain isFabricContainerValue_def
    isFabricPlainContainer_def mutated_def set_prop_def validateAddSpine_def tracePath_def arr_at_def set_elem_def
    createMissingContainer_def missingContainerIsArray_def Let_def
  have append: "appendAtPath (FObj [(''list'', FArr [])]) [''list'', ''2''] [Some FNull]
      = Inr (FObj [(''list'', FArr [None, None, Some (FArr [Some FNull])])])"
    by (simp add: appendAtPath_def thawTailArray_def iterate_def defs i eval_nat_numeral)
  have add: "addAtPath (FObj [(''list'', FArr [])]) [''list'', ''2''] (FArr [Some FNull]) = Inl (IndexOutOfBounds ''2'')"
    by (simp add: addAtPath_def parseArrayInsertIndex_def parseArrayIndex_def MAX_ARRAY_INDEX_def defs i)
  show ?thesis by (simp add: pointer_def p append add)
qed

end
