(* ===== verification/TouchedPaths.thy ===== *)
theory TouchedPaths
  imports JsonPath
begin

text \<open>
  The index of touched paths (\<^verbatim>\<open>runtime/memory/v2/touched-path-index.ts\<close>): two maps from pointers
  to the newest sequence number recorded under them. What it stands for is the plain list of the
  paths added, scanned for the newest that a query matches; the queries are proved to return that.
\<close>

section \<open>The class\<close>

fun newer :: "nat option \<Rightarrow> nat option \<Rightarrow> nat option" where
  "newer left right =
     (case left of
        None \<Rightarrow> right
      | Some l \<Rightarrow> (case right of None \<Rightarrow> left | Some r \<Rightarrow> Some (max l r)))"

record touched_index =
  newestAt :: "string \<Rightarrow> nat option"
  newestBelow :: "string \<Rightarrow> nat option"

definition empty_index :: touched_index where
  "empty_index = \<lparr>newestAt = (\<lambda>_. None), newestBelow = (\<lambda>_. None)\<rparr>"

text \<open>\<^verbatim>\<open>map.set(pointer, Math.max(map.get(pointer) ?? seq, seq))\<close>.\<close>

definition raise_to :: "(string \<Rightarrow> nat option) \<Rightarrow> string \<Rightarrow> nat \<Rightarrow> (string \<Rightarrow> nat option)" where
  "raise_to m pointer seq = m(pointer := Some (max (case m pointer of None \<Rightarrow> seq | Some s \<Rightarrow> s) seq))"

definition index_add :: "touched_index \<Rightarrow> path \<Rightarrow> nat \<Rightarrow> touched_index" where
  "index_add ix path seq =
     (let pointers = prefixPointers path;
          below = foldl (\<lambda>m pointer. raise_to m pointer seq) (newestBelow ix) pointers;
          own = last pointers
      in \<lparr>newestAt = raise_to (newestAt ix) own seq, newestBelow = below\<rparr>)"

definition newestAtPrefixes :: "touched_index \<Rightarrow> string list \<Rightarrow> nat option" where
  "newestAtPrefixes ix pointers = foldl (\<lambda>newest pointer. newer newest (newestAt ix pointer)) None pointers"

definition newestPrefixOf :: "touched_index \<Rightarrow> path \<Rightarrow> nat option" where
  "newestPrefixOf ix path = newestAtPrefixes ix (prefixPointers path)"

definition newestOverlapping :: "touched_index \<Rightarrow> path \<Rightarrow> nat option" where
  "newestOverlapping ix path =
     (let pointers = prefixPointers path
      in newer (newestAtPrefixes ix pointers) (newestBelow ix (last pointers)))"

section \<open>The scan it stands for\<close>

fun newest_of :: "('a \<Rightarrow> bool) \<Rightarrow> ('a \<times> nat) list \<Rightarrow> nat option" where
  "newest_of P [] = None"
| "newest_of P ((x, s) # xs) = (if P x then newer (Some s) (newest_of P xs) else newest_of P xs)"

lemma newer_unit [simp]: "newer None b = b" "newer a None = a" "newer a a = a"
  by (cases a; cases b; simp)+

lemma newer_assoc: "newer (newer a b) c = newer a (newer b c)"
  by (cases a; cases b; cases c) (simp_all add: max.assoc)

lemma newer_commute: "newer a b = newer b a"
  by (cases a; cases b) (simp_all add: max.commute)

lemma newer_left_commute: "newer a (newer b c) = newer b (newer a c)"
  by (cases a; cases b; cases c) (simp_all add: max.left_commute)

lemmas newer_ac = newer_assoc newer_commute newer_left_commute

lemma newer_left_self [simp]: "newer a (newer a b) = newer a b"
  by (cases a; cases b) simp_all

declare newer.simps [simp del]

lemma newest_of_append: "newest_of P (xs @ ys) = newer (newest_of P xs) (newest_of P ys)"
  by (induction P xs rule: newest_of.induct) (simp_all add: newer_assoc)

lemma newest_of_disj: "newest_of (\<lambda>x. P x \<or> Q x) xs = newer (newest_of P xs) (newest_of Q xs)"
proof (induction P xs rule: newest_of.induct)
  case (2 P x s xs)
  then show ?case by (cases "P x"; cases "Q x") (simp_all add: newer_ac)
qed simp

lemma newest_of_None: "newest_of P xs = None \<longleftrightarrow> (\<forall>(x, s)\<in>set xs. \<not> P x)"
  by (induction P xs rule: newest_of.induct) (auto simp: newer.simps split: option.splits)

section \<open>The index refines the scan\<close>

text \<open>An index holds a list of additions.\<close>

definition index_holds :: "touched_index \<Rightarrow> (path \<times> nat) list \<Rightarrow> bool" where
  "index_holds ix added \<longleftrightarrow>
     (\<forall>p. newestAt ix (encodePointer p) = newest_of (\<lambda>q. q = p) added)
     \<and> (\<forall>p. newestBelow ix (encodePointer p) = newest_of (\<lambda>q. prefix p q) added)"

lemma raise_to_newer: "raise_to m pointer seq = m(pointer := newer (m pointer) (Some seq))"
  by (auto simp: raise_to_def newer.simps split: option.splits)

lemma raise_all:
  "distinct ps \<Longrightarrow> foldl (\<lambda>m pointer. raise_to m pointer seq) m ps x
     = (if x \<in> set ps then newer (m x) (Some seq) else m x)"
  by (induction ps arbitrary: m) (auto simp: raise_to_newer)

lemma last_pointer: "last (prefixPointers p) = encodePointer p"
  by (simp add: prefixPointers_eq)

lemma index_add_holds:
  assumes "index_holds ix added"
  shows "index_holds (index_add ix p s) (added @ [(p, s)])"
proof -
  have at: "newestAt (index_add ix p s) (encodePointer q) = newest_of (\<lambda>r. r = q) (added @ [(p, s)])" for q
    using assms by (auto simp: index_add_def index_holds_def Let_def last_pointer raise_to_newer
        encodePointer_inj newest_of_append)
  have "newestBelow (index_add ix p s) (encodePointer q) = newest_of (\<lambda>r. prefix q r) (added @ [(p, s)])" for q
    using assms by (simp add: index_add_def index_holds_def Let_def raise_all prefixPointers_distinct
        prefixPointers_prefix newest_of_append)
  with at show ?thesis by (simp add: index_holds_def)
qed

lemma empty_index_holds: "index_holds empty_index []"
  by (simp add: index_holds_def empty_index_def)

lemma fold_newer: "foldl (\<lambda>n x. newer n (f x)) a xs = newer a (foldl (\<lambda>n x. newer n (f x)) None xs)"
proof (induction xs arbitrary: a)
  case (Cons x xs)
  show ?case using Cons.IH [of "newer a (f x)"] Cons.IH [of "newer None (f x)"] by (simp add: newer_assoc)
qed simp

lemma fold_prefixes:
  assumes "\<And>p. f (encodePointer p) = newest_of (\<lambda>q. q = p) added"
  shows "foldl (\<lambda>n x. newer n (f x)) None (map (\<lambda>i. encodePointer (take i p)) is)
    = newest_of (\<lambda>q. \<exists>i\<in>set is. q = take i p) added"
proof (induction "is")
  case Nil
  show ?case by (induction added) auto
next
  case (Cons i "is")
  have "newest_of (\<lambda>q. q = take i p \<or> (\<exists>i\<in>set is. q = take i p)) added
      = newer (newest_of (\<lambda>q. q = take i p) added) (newest_of (\<lambda>q. \<exists>i\<in>set is. q = take i p) added)"
    by (rule newest_of_disj)
  then show ?case
    using Cons.IH fold_newer [of f "f (encodePointer (take i p))"] by (simp add: assms comp_def)
qed

lemma take_prefix_iff: "(\<exists>i\<in>set [0..<Suc (length p)]. q = take i p) \<longleftrightarrow> prefix q p"
proof -
  have "(\<exists>i\<in>set [0..<Suc (length p)]. q = take i p) \<longleftrightarrow> (\<exists>i\<le>length p. q = take i p)"
    by (auto simp: less_Suc_eq_le simp del: upt_Suc)
  also have "\<dots> \<longleftrightarrow> prefix q p"
    by (metis append_eq_conv_conj nat_le_linear prefix_def take_all take_is_prefix)
  finally show ?thesis .
qed

lemma newestAtPrefixes_holds:
  assumes "index_holds ix added"
  shows "newestAtPrefixes ix (prefixPointers p) = newest_of (\<lambda>q. prefix q p) added"
proof -
  have "\<And>q. newestAt ix (encodePointer q) = newest_of (\<lambda>r. r = q) added"
    using assms by (simp add: index_holds_def)
  from fold_prefixes [of "newestAt ix" added p "[0..<Suc (length p)]", OF this]
  show ?thesis unfolding newestAtPrefixes_def prefixPointers_eq take_prefix_iff .
qed

lemma newestPrefixOf_holds: "index_holds ix added \<Longrightarrow> newestPrefixOf ix p = newest_of (\<lambda>q. isPrefixPath q p) added"
  by (simp add: newestPrefixOf_def newestAtPrefixes_holds)

lemma newestOverlapping_holds:
  assumes "index_holds ix added"
  shows "newestOverlapping ix p = newest_of (\<lambda>q. pathsOverlap q p) added"
proof -
  have "newest_of (\<lambda>q. pathsOverlap q p) added = newer (newest_of (\<lambda>q. prefix q p) added) (newest_of (\<lambda>q. prefix p q) added)"
    unfolding pathsOverlap_iff by (rule newest_of_disj)
  then show ?thesis
    using assms newestAtPrefixes_holds [OF assms] by (simp add: newestOverlapping_def last_pointer index_holds_def)
qed

section \<open>Properties\<close>

fun index_of_adds :: "(path \<times> nat) list \<Rightarrow> touched_index \<Rightarrow> touched_index" where
  "index_of_adds [] ix = ix"
| "index_of_adds ((p, s) # adds) ix = index_of_adds adds (index_add ix p s)"

lemma index_of_adds_holds: "index_holds ix added \<Longrightarrow> index_holds (index_of_adds adds ix) (added @ adds)"
proof (induction adds arbitrary: ix added)
  case (Cons a adds)
  then show ?case using index_add_holds [of ix added "fst a" "snd a"] by (cases a) fastforce
qed simp

text \<open>C38. Whatever paths were added, in whatever order, the two queries return exactly what a scan of
  all of them under \<open>isPrefixPath\<close> and under \<open>pathsOverlap\<close> would: the newest sequence number among
  the matching paths, and none when no path matches.\<close>

theorem touched_path_index_refines_scan:
  "newestPrefixOf (index_of_adds added empty_index) p = newest_of (\<lambda>q. isPrefixPath q p) added
   \<and> newestOverlapping (index_of_adds added empty_index) p = newest_of (\<lambda>q. pathsOverlap q p) added"
proof -
  have "index_holds (index_of_adds added empty_index) added"
    using index_of_adds_holds [OF empty_index_holds, of added] by simp
  then show ?thesis using newestPrefixOf_holds newestOverlapping_holds by blast
qed

end
