(* ===== verification/Conflicts.thy ===== *)
theory Conflicts
  imports PatchMerge TouchedPaths "HOL-Library.Product_Lexorder"
begin

text \<open>
  The conflict scan of the memory engine (\<^verbatim>\<open>findConflictSeq\<close> of \<^verbatim>\<open>runtime/memory/v2/engine.ts\<close>): which
  stored write a read of a document conflicts with. The table of revisions is a list of rows, each
  joined with the commit that wrote it and holding its decoded operation; a SQL statement is the
  filter and the order its text says. A read's branch and entity are wire values, which the engine
  checks for being strings before it keeps anything under them; what SQLite compares equal to a
  column is the parameter \<open>sqlEq\<close> of a store. The scan keeps what it learns of a document between
  the reads of one commit; it is proved to decide every read as if it had kept nothing.
\<close>

section \<open>Touched paths of a patch\<close>

definition touchedLeafPathsForPatch :: "patch_op \<Rightarrow> patch_error + path list" where
  "touchedLeafPathsForPatch patch = touchedPointerPaths patch"

definition touchedPathsForPatch :: "patch_op \<Rightarrow> path list \<Rightarrow> path list" where
  "touchedPathsForPatch patch leaves =
     (if patchOpChangesParentKeySet patch then leaves @ map parentPath leaves else leaves)"

definition patchOverlapsRead :: "patch_op list \<Rightarrow> path \<Rightarrow> patch_error + bool" where
  "patchOverlapsRead patches readPath =
     someR (\<lambda>patch. bindR (touchedLeafPathsForPatch patch)
              (\<lambda>paths. Inr (list_ex (\<lambda>path. pathsOverlap path readPath) paths))) patches"

definition patchOverlapsNonRecursiveRead :: "patch_op list \<Rightarrow> path \<Rightarrow> patch_error + bool" where
  "patchOverlapsNonRecursiveRead patches readPath =
     someR (\<lambda>patch. bindR (touchedPointerPaths patch)
              (\<lambda>leaves. Inr (list_ex (\<lambda>path. isPrefixPath path readPath) (touchedPathsForPatch patch leaves)))) patches"

section \<open>The stored revisions\<close>

datatype rev_op = RSet fval | RDelete | RPatch "patch_op list"

record revision =
  rev_branch :: string
  rev_id :: string
  rev_scope_key :: string
  rev_seq :: nat
  rev_op_index :: nat
  rev_operation :: rev_op
  rev_commit_seq :: nat
  rev_session :: string
  rev_local_seq :: int
  rev_class :: string
  rev_holder :: "string option"

record store =
  sqlEq :: "fval \<Rightarrow> string \<Rightarrow> bool"
  revisions :: "revision list"

record exclusion =
  sessionKey :: string
  namedLocalSeqs :: "int list"

definition isPatchRevision :: "revision \<Rightarrow> bool" where
  "isPatchRevision r = (case rev_operation r of RPatch _ \<Rightarrow> True | _ \<Rightarrow> False)"

definition patches_of :: "revision \<Rightarrow> patch_op list" where
  "patches_of r = (case rev_operation r of RPatch ops \<Rightarrow> ops | _ \<Rightarrow> [])"

text \<open>\<^verbatim>\<open>c.session_id <> :exclude_session OR c.local_seq NOT IN (...)\<close>; the statements without an
  exclusion have no such clause.\<close>

definition outside :: "exclusion option \<Rightarrow> revision \<Rightarrow> bool" where
  "outside exclude r =
     (case exclude of None \<Rightarrow> True
      | Some e \<Rightarrow> rev_session r \<noteq> sessionKey e \<or> rev_local_seq r \<notin> set (namedLocalSeqs e))"

text \<open>\<^verbatim>\<open>ORDER BY seq DESC, op_index DESC\<close>; the two are the rest of the table's key.\<close>

definition newest_first :: "revision list \<Rightarrow> revision list" where
  "newest_first rows = rev (sort_key (\<lambda>r. (rev_seq r, rev_op_index r)) rows)"

definition document_rows :: "store \<Rightarrow> fval \<Rightarrow> fval \<Rightarrow> string \<Rightarrow> nat \<Rightarrow> revision list" where
  "document_rows db branch ident scopeKey afterSeq =
     filter (\<lambda>r. sqlEq db branch (rev_branch r) \<and> sqlEq db ident (rev_id r) \<and> rev_scope_key r = scopeKey
                 \<and> afterSeq < rev_seq r) (revisions db)"

definition selectSetDeleteConflict ::
    "store \<Rightarrow> fval \<Rightarrow> fval \<Rightarrow> string \<Rightarrow> nat \<Rightarrow> exclusion option \<Rightarrow> nat option" where
  "selectSetDeleteConflict db branch ident scopeKey afterSeq exclude =
     (case newest_first (filter (\<lambda>r. \<not> isPatchRevision r \<and> outside exclude r)
             (document_rows db branch ident scopeKey afterSeq)) of
        [] \<Rightarrow> None
      | r # _ \<Rightarrow> Some (rev_seq r))"

definition selectPatchConflicts ::
    "store \<Rightarrow> fval \<Rightarrow> fval \<Rightarrow> string \<Rightarrow> nat \<Rightarrow> exclusion option \<Rightarrow> revision list" where
  "selectPatchConflicts db branch ident scopeKey afterSeq exclude =
     newest_first (filter (\<lambda>r. isPatchRevision r \<and> outside exclude r)
       (document_rows db branch ident scopeKey afterSeq))"

section \<open>What one commit's read validation keeps\<close>

record patch_indexes =
  leaves :: touched_index
  shapes :: touched_index

record document_conflicts =
  newestSetOrDelete :: "nat \<Rightarrow> nat option option"
  patches :: "(nat \<times> patch_indexes) option"

type_synonym scan_key = "string \<times> string \<times> string \<times> string option \<times> int list option"

type_synonym scans = "scan_key \<Rightarrow> document_conflicts option"

definition conflictScanKey :: "fval \<Rightarrow> fval \<Rightarrow> string \<Rightarrow> exclusion option \<Rightarrow> scan_key option" where
  "conflictScanKey branch ident scopeKey exclude =
     (case (branch, ident) of
        (FStr b, FStr i) \<Rightarrow>
          Some (b, i, scopeKey, map_option sessionKey exclude,
            map_option (\<lambda>e. sort (remdups (namedLocalSeqs e))) exclude)
      | _ \<Rightarrow> None)"

definition newestPatchConflict :: "patch_indexes \<Rightarrow> path \<Rightarrow> bool \<Rightarrow> nat option" where
  "newestPatchConflict indexes readPath nonRecursive =
     (if nonRecursive then newestPrefixOf (shapes indexes) readPath
      else newestOverlapping (leaves indexes) readPath)"

definition empty_indexes :: patch_indexes where
  "empty_indexes = \<lparr>leaves = empty_index, shapes = empty_index\<rparr>"

definition add_patch :: "patch_indexes \<Rightarrow> patch_op \<Rightarrow> nat \<Rightarrow> patch_error + patch_indexes" where
  "add_patch indexes patch seq =
     bindR (touchedLeafPathsForPatch patch) (\<lambda>ls.
       Inr \<lparr>leaves = foldl (\<lambda>ix path. index_add ix path seq) (leaves indexes) ls,
            shapes = foldl (\<lambda>ix path. index_add ix path seq) (shapes indexes) (touchedPathsForPatch patch ls)\<rparr>)"

text \<open>The scan over the rows: the \<open>seq\<close> it stops at, or the indexes once it has reached the last row.\<close>

fun scan_ops :: "patch_indexes \<Rightarrow> nat \<Rightarrow> path \<Rightarrow> bool \<Rightarrow> patch_op list \<Rightarrow> patch_error + (nat + patch_indexes)" where
  "scan_ops indexes seq readPath nonRecursive [] = Inr (Inr indexes)"
| "scan_ops indexes seq readPath nonRecursive (patch # ops) =
     bindR (add_patch indexes patch seq) (\<lambda>indexes'.
       case newestPatchConflict indexes' readPath nonRecursive of
         Some s \<Rightarrow> Inr (Inl s)
       | None \<Rightarrow> scan_ops indexes' seq readPath nonRecursive ops)"

fun scan_rows :: "patch_indexes \<Rightarrow> path \<Rightarrow> bool \<Rightarrow> revision list \<Rightarrow> patch_error + (nat + patch_indexes)" where
  "scan_rows indexes readPath nonRecursive [] = Inr (Inr indexes)"
| "scan_rows indexes readPath nonRecursive (conflict # rows) =
     bindR (scan_ops indexes (rev_seq conflict) readPath nonRecursive (patches_of conflict)) (\<lambda>r.
       case r of Inl s \<Rightarrow> Inr (Inl s) | Inr indexes' \<Rightarrow> scan_rows indexes' readPath nonRecursive rows)"

fun keep :: "scans \<Rightarrow> scan_key option \<Rightarrow> document_conflicts \<Rightarrow> scans" where
  "keep scans None document = scans"
| "keep scans (Some key) document = scans(key \<mapsto> document)"

definition no_conflicts :: document_conflicts where
  "no_conflicts = \<lparr>newestSetOrDelete = (\<lambda>_. None), patches = None\<rparr>"

definition findConflictSeq ::
    "store \<Rightarrow> scans \<Rightarrow> fval \<Rightarrow> fval \<Rightarrow> string \<Rightarrow> nat \<Rightarrow> path \<Rightarrow> bool \<Rightarrow> exclusion option
       \<Rightarrow> patch_error + (nat option \<times> scans)" where
  "findConflictSeq db scans branch ident scopeKey afterSeq readPath nonRecursive exclude =
     (let key = conflictScanKey branch ident scopeKey exclude;
          document = (case Option.bind key scans of None \<Rightarrow> no_conflicts | Some d \<Rightarrow> d);
          setOrDeleteSeq = (case newestSetOrDelete document afterSeq of
              Some known \<Rightarrow> known
            | None \<Rightarrow> selectSetDeleteConflict db branch ident scopeKey afterSeq exclude);
          document' = document\<lparr>newestSetOrDelete := (newestSetOrDelete document)(afterSeq \<mapsto> setOrDeleteSeq)\<rparr>;
          scans' = keep scans key document';
          scan = bindR (scan_rows empty_indexes readPath nonRecursive
                     (selectPatchConflicts db branch ident scopeKey afterSeq exclude)) (\<lambda>r.
                   case r of
                     Inl s \<Rightarrow> Inr (Some s, scans')
                   | Inr indexes \<Rightarrow> Inr (None, keep scans key (document'\<lparr>patches := Some (afterSeq, indexes)\<rparr>)))
      in if setOrDeleteSeq \<noteq> None then Inr (setOrDeleteSeq, scans')
         else case patches document of
             Some (basis, indexes) \<Rightarrow>
               if basis \<le> afterSeq then
                 Inr (case newestPatchConflict indexes readPath nonRecursive of
                        None \<Rightarrow> None
                      | Some s \<Rightarrow> if s > afterSeq then Some s else None, scans')
               else scan
           | None \<Rightarrow> scan)"

section \<open>The scan it stands for\<close>

text \<open>Which patches a read conflicts with, on the touched paths themselves.\<close>

definition parses :: "patch_op \<Rightarrow> bool" where
  "parses patch \<longleftrightarrow> (case touchedPointerPaths patch of Inr _ \<Rightarrow> True | Inl _ \<Rightarrow> False)"

definition leaf_paths :: "patch_op \<Rightarrow> path list" where
  "leaf_paths patch = (case touchedPointerPaths patch of Inr ps \<Rightarrow> ps | Inl _ \<Rightarrow> [])"

definition read_paths :: "bool \<Rightarrow> patch_op \<Rightarrow> path list" where
  "read_paths nonRecursive patch =
     (if nonRecursive then touchedPathsForPatch patch (leaf_paths patch) else leaf_paths patch)"

definition matches :: "bool \<Rightarrow> path \<Rightarrow> path \<Rightarrow> bool" where
  "matches nonRecursive readPath path =
     (if nonRecursive then isPrefixPath path readPath else pathsOverlap path readPath)"

text \<open>The write a read conflicts with: the newest \<open>set\<close> or \<open>delete\<close> after its basis if there is
  one, and otherwise the newest patch revision one of the two overlap predicates matches.\<close>

definition conflicting_write ::
    "store \<Rightarrow> fval \<Rightarrow> fval \<Rightarrow> string \<Rightarrow> nat \<Rightarrow> path \<Rightarrow> bool \<Rightarrow> exclusion option \<Rightarrow> nat option" where
  "conflicting_write db branch ident scopeKey afterSeq readPath nonRecursive exclude =
     (case selectSetDeleteConflict db branch ident scopeKey afterSeq exclude of
        Some s \<Rightarrow> Some s
      | None \<Rightarrow>
          map_option rev_seq (find (\<lambda>r.
              (if nonRecursive then patchOverlapsNonRecursiveRead else patchOverlapsRead) (patches_of r) readPath = Inr True)
            (selectPatchConflicts db branch ident scopeKey afterSeq exclude)))"

definition hits :: "bool \<Rightarrow> path \<Rightarrow> revision \<Rightarrow> bool" where
  "hits nonRecursive readPath r \<longleftrightarrow>
     (\<exists>op\<in>set (patches_of r). \<exists>p\<in>set (read_paths nonRecursive op). matches nonRecursive readPath p)"

lemma parses_Inr: "parses op \<Longrightarrow> touchedPointerPaths op = Inr (leaf_paths op)"
  by (auto simp: parses_def leaf_paths_def split: sum.splits)

lemma overlap_hits:
  assumes "\<And>op. op \<in> set (patches_of r) \<Longrightarrow> parses op"
  shows "(if nr then patchOverlapsNonRecursiveRead else patchOverlapsRead) (patches_of r) q = Inr (hits nr q r)"
proof -
  have "patchOverlapsNonRecursiveRead (patches_of r) q = Inr (hits True q r)"
    unfolding patchOverlapsNonRecursiveRead_def
    by (subst someR_total [where P = "\<lambda>op. \<exists>p\<in>set (read_paths True op). matches True q p"])
      (use assms in \<open>auto simp: parses_Inr hits_def read_paths_def matches_def list_ex_iff\<close>)
  moreover have "patchOverlapsRead (patches_of r) q = Inr (hits False q r)"
    unfolding patchOverlapsRead_def
    by (subst someR_total [where P = "\<lambda>op. \<exists>p\<in>set (read_paths False op). matches False q p"])
      (use assms in \<open>auto simp: parses_Inr hits_def read_paths_def matches_def list_ex_iff touchedLeafPathsForPatch_def\<close>)
  ultimately show ?thesis by (cases nr) simp_all
qed

section \<open>The indexes hold the patches read so far\<close>

definition additions :: "bool \<Rightarrow> nat \<Rightarrow> patch_op list \<Rightarrow> (path \<times> nat) list" where
  "additions nonRecursive seq ops = concat (map (\<lambda>op. map (\<lambda>p. (p, seq)) (read_paths nonRecursive op)) ops)"

definition row_additions :: "bool \<Rightarrow> revision list \<Rightarrow> (path \<times> nat) list" where
  "row_additions nonRecursive rows = concat (map (\<lambda>r. additions nonRecursive (rev_seq r) (patches_of r)) rows)"

lemma additions_simps [simp]:
  "additions nr s [] = []"
  "additions nr s (op # ops) = map (\<lambda>p. (p, s)) (read_paths nr op) @ additions nr s ops"
  "row_additions nr [] = []"
  "row_additions nr (r # rows) = additions nr (rev_seq r) (patches_of r) @ row_additions nr rows"
  by (simp_all add: additions_def row_additions_def)

lemma newest_of_same:
  "newest_of P (map (\<lambda>p. (p, s)) ps) = (if \<exists>p\<in>set ps. P p then Some s else None)"
  by (induction ps) simp_all

lemma newest_of_additions:
  "newest_of (matches nr q) (additions nr s ops)
     = (if \<exists>op\<in>set ops. \<exists>p\<in>set (read_paths nr op). matches nr q p then Some s else None)"
  by (induction ops) (auto simp: newest_of_append newest_of_same)

definition indexes_hold :: "patch_indexes \<Rightarrow> (bool \<Rightarrow> (path \<times> nat) list) \<Rightarrow> bool" where
  "indexes_hold indexes added \<longleftrightarrow> index_holds (leaves indexes) (added False) \<and> index_holds (shapes indexes) (added True)"

lemma index_holds_foldl:
  "index_holds ix added \<Longrightarrow>
     index_holds (foldl (\<lambda>ix path. index_add ix path seq) ix ps) (added @ map (\<lambda>p. (p, seq)) ps)"
proof (induction ps arbitrary: ix added)
  case (Cons p ps)
  from Cons.IH [OF index_add_holds [OF Cons.prems, of p seq]] show ?case by simp
qed simp

lemma newestPatchConflict_holds:
  "indexes_hold indexes added \<Longrightarrow> newestPatchConflict indexes q nr = newest_of (matches nr q) (added nr)"
  using newestPrefixOf_holds [of "shapes indexes" "added True" q] newestOverlapping_holds [of "leaves indexes" "added False" q]
  by (cases nr) (simp_all add: newestPatchConflict_def indexes_hold_def matches_def [abs_def])

lemma add_patch_holds:
  assumes "parses op" "indexes_hold indexes added"
  shows "\<exists>indexes'. add_patch indexes op seq = Inr indexes'
    \<and> indexes_hold indexes' (\<lambda>nr. added nr @ map (\<lambda>p. (p, seq)) (read_paths nr op))"
  using assms by (simp add: add_patch_def touchedLeafPathsForPatch_def parses_Inr indexes_hold_def read_paths_def
      index_holds_foldl)

lemma scan_ops_holds:
  assumes "\<And>op. op \<in> set ops \<Longrightarrow> parses op" "indexes_hold indexes added" "newest_of (matches nr q) (added nr) = None"
  shows "\<exists>r. scan_ops indexes s q nr ops = Inr r
    \<and> (if \<exists>op\<in>set ops. \<exists>p\<in>set (read_paths nr op). matches nr q p then r = Inl s
       else \<exists>indexes'. r = Inr indexes' \<and> indexes_hold indexes' (\<lambda>nr. added nr @ additions nr s ops))"
  using assms
proof (induction ops arbitrary: indexes added)
  case (Cons op ops)
  obtain indexes' where i: "add_patch indexes op s = Inr indexes'"
    "indexes_hold indexes' (\<lambda>nr. added nr @ map (\<lambda>p. (p, s)) (read_paths nr op))"
    using add_patch_holds Cons.prems(1,2) by fastforce
  have n: "newestPatchConflict indexes' q nr = (if \<exists>p\<in>set (read_paths nr op). matches nr q p then Some s else None)"
    using newestPatchConflict_holds [OF i(2)] Cons.prems(3) by (simp add: newest_of_append newest_of_same)
  show ?case
  proof (cases "\<exists>p\<in>set (read_paths nr op). matches nr q p")
    case True
    then show ?thesis using i(1) n by simp
  next
    case False
    have "newest_of (matches nr q) (added nr @ map (\<lambda>p. (p, s)) (read_paths nr op)) = None"
      using Cons.prems(3) False by (simp add: newest_of_append newest_of_same)
    from Cons.IH [OF _ i(2) this] Cons.prems(1) obtain r where
      "scan_ops indexes' s q nr ops = Inr r \<and> (if \<exists>op\<in>set ops. \<exists>p\<in>set (read_paths nr op). matches nr q p then r = Inl s
         else \<exists>ix. r = Inr ix \<and> indexes_hold ix (\<lambda>nr. (added nr @ map (\<lambda>p. (p, s)) (read_paths nr op)) @ additions nr s ops))"
      by auto
    moreover have "(\<exists>o'\<in>set (op # ops). \<exists>p\<in>set (read_paths nr o'). matches nr q p)
        \<longleftrightarrow> (\<exists>op\<in>set ops. \<exists>p\<in>set (read_paths nr op). matches nr q p)" using False by simp
    ultimately show ?thesis using i(1) n False by (simp only: scan_ops.simps bindR_simps append.assoc additions_simps) simp
  qed
qed simp

lemma scan_rows_holds:
  assumes "\<And>r op. r \<in> set rows \<Longrightarrow> op \<in> set (patches_of r) \<Longrightarrow> parses op" "indexes_hold indexes added"
    "newest_of (matches nr q) (added nr) = None"
  shows "\<exists>r. scan_rows indexes q nr rows = Inr r
    \<and> (case find (hits nr q) rows of Some row \<Rightarrow> r = Inl (rev_seq row)
       | None \<Rightarrow> \<exists>indexes'. r = Inr indexes' \<and> indexes_hold indexes' (\<lambda>nr. added nr @ row_additions nr rows))"
  using assms
proof (induction rows arbitrary: indexes added)
  case (Cons row rows)
  obtain r where r: "scan_ops indexes (rev_seq row) q nr (patches_of row) = Inr r"
    "if hits nr q row then r = Inl (rev_seq row)
     else \<exists>indexes'. r = Inr indexes' \<and> indexes_hold indexes' (\<lambda>nr. added nr @ additions nr (rev_seq row) (patches_of row))"
    using scan_ops_holds [of "patches_of row" indexes added nr q "rev_seq row"] Cons.prems unfolding hits_def by auto
  show ?case
  proof (cases "hits nr q row")
    case True
    then show ?thesis using r by simp
  next
    case False
    then obtain indexes' where i: "r = Inr indexes'"
      "indexes_hold indexes' (\<lambda>nr. added nr @ additions nr (rev_seq row) (patches_of row))" using r(2) by auto
    have "newest_of (matches nr q) (added nr @ additions nr (rev_seq row) (patches_of row)) = None"
      using False Cons.prems(3) by (simp add: newest_of_append newest_of_additions hits_def)
    moreover have "(\<lambda>nr. added nr @ row_additions nr (row # rows))
        = (\<lambda>nr. (added nr @ additions nr (rev_seq row) (patches_of row)) @ row_additions nr rows)" by simp
    moreover obtain r2 where "scan_rows indexes' q nr rows = Inr r2"
      "case find (hits nr q) rows of Some row \<Rightarrow> r2 = Inl (rev_seq row)
       | None \<Rightarrow> \<exists>ix. r2 = Inr ix
           \<and> indexes_hold ix (\<lambda>nr. (added nr @ additions nr (rev_seq row) (patches_of row)) @ row_additions nr rows)"
      using Cons.IH [OF _ i(2)] calculation(1) Cons.prems(1) by auto
    ultimately show ?thesis using r(1) i(1) False by (cases "find (hits nr q) rows") auto
  qed
qed simp

section \<open>A later basis\<close>

lemma newest_first_filter: "newest_first (filter P rows) = filter P (newest_first rows)"
  by (simp add: newest_first_def filter_sort flip: rev_filter)

lemma newest_first_sorted: "sorted_wrt (\<lambda>r r'. rev_seq r' \<le> rev_seq r) (newest_first rows)"
proof -
  have "sorted (map (\<lambda>r. (rev_seq r, rev_op_index r)) (sort_key (\<lambda>r. (rev_seq r, rev_op_index r)) rows))"
    by (rule sorted_sort_key)
  then show ?thesis
    unfolding newest_first_def sorted_wrt_rev sorted_map
    by (rule sorted_wrt_mono_rel [rotated]) (auto simp: less_eq_prod_def)
qed

lemma select_later:
  "basis \<le> afterSeq \<Longrightarrow>
     selectPatchConflicts db branch ident scopeKey afterSeq exclude
     = filter (\<lambda>r. afterSeq < rev_seq r) (selectPatchConflicts db branch ident scopeKey basis exclude)"
  unfolding selectPatchConflicts_def document_rows_def newest_first_filter filter_filter
  by (rule filter_cong) auto

lemma newest_of_rows:
  "sorted_wrt (\<lambda>r r'. rev_seq r' \<le> rev_seq r) rows \<Longrightarrow>
     newest_of (matches nr q) (row_additions nr rows) = map_option rev_seq (find (hits nr q) rows)"
proof (induction rows)
  case (Cons r rows)
  have r: "newest_of (matches nr q) (row_additions nr (r # rows))
      = newer (if hits nr q r then Some (rev_seq r) else None) (map_option rev_seq (find (hits nr q) rows))"
    using Cons.IH Cons.prems unfolding hits_def by (simp add: newest_of_append newest_of_additions)
  have "rev_seq r' \<le> rev_seq r" if "find (hits nr q) rows = Some r'" for r'
    using that Cons.prems by (auto simp: find_Some_iff)
  then show ?case using r by (cases "find (hits nr q) rows") (auto simp: newer.simps max_def)
qed simp

lemma find_later:
  assumes "sorted_wrt (\<lambda>r r'. rev_seq r' \<le> rev_seq r) rows"
  shows "map_option rev_seq (find P (filter (\<lambda>r. a < rev_seq r) rows))
    = (case map_option rev_seq (find P rows) of None \<Rightarrow> None | Some s \<Rightarrow> if s > a then Some s else None)"
  using assms
proof (induction rows)
  case (Cons r rows)
  show ?case
  proof (cases "a < rev_seq r")
    case False
    then have none: "filter (\<lambda>r. a < rev_seq r) rows = []" using Cons.prems by (auto simp: filter_empty_conv)
    have "rev_seq r' \<le> a" if "find P rows = Some r'" for r'
    proof -
      have "r' \<in> set rows" using that by (auto simp: find_Some_iff)
      then have "rev_seq r' \<le> rev_seq r" using Cons.prems by simp
      then show ?thesis using False by simp
    qed
    then show ?thesis using False none by (auto split: option.splits)
  qed (use Cons in auto)
qed simp

section \<open>What is kept is true of the store\<close>

lemma conflictScanKey_Some:
  "conflictScanKey branch ident scopeKey exclude = Some key \<longleftrightarrow>
     (\<exists>b i. branch = FStr b \<and> ident = FStr i \<and> key = (b, i, scopeKey, map_option sessionKey exclude,
        map_option (\<lambda>e. sort (remdups (namedLocalSeqs e))) exclude))"
  unfolding conflictScanKey_def prod.case by (cases branch; simp; cases ident; simp; blast)

lemma scan_key_same:
  assumes "conflictScanKey branch ident scopeKey exclude = Some key" "conflictScanKey branch' ident' scopeKey' exclude' = Some key"
  shows "selectSetDeleteConflict db branch ident scopeKey afterSeq exclude
      = selectSetDeleteConflict db branch' ident' scopeKey' afterSeq exclude'
    \<and> selectPatchConflicts db branch ident scopeKey afterSeq exclude
      = selectPatchConflicts db branch' ident' scopeKey' afterSeq exclude'"
proof -
  have a: "branch = branch'" "ident = ident'" "scopeKey = scopeKey'"
    "map_option sessionKey exclude = map_option sessionKey exclude'"
    "map_option (\<lambda>e. sort (remdups (namedLocalSeqs e))) exclude = map_option (\<lambda>e. sort (remdups (namedLocalSeqs e))) exclude'"
    using assms unfolding conflictScanKey_Some by blast+
  have "map_option (\<lambda>e. set (namedLocalSeqs e)) exclude = map_option (\<lambda>e. set (namedLocalSeqs e)) exclude'"
    using arg_cong [OF a(5), of "map_option set"] by (simp only: option.map_comp comp_def set_sort set_remdups)
  then have "outside exclude r = outside exclude' r" for r
    using a(4) by (cases exclude; cases exclude') (simp_all add: outside_def)
  then show ?thesis unfolding selectSetDeleteConflict_def selectPatchConflicts_def a(1-3) by simp
qed

definition kept_ok :: "store \<Rightarrow> fval \<Rightarrow> fval \<Rightarrow> string \<Rightarrow> exclusion option \<Rightarrow> document_conflicts \<Rightarrow> bool" where
  "kept_ok db branch ident scopeKey exclude d \<longleftrightarrow>
     (\<forall>basis s. newestSetOrDelete d basis = Some s \<longrightarrow> s = selectSetDeleteConflict db branch ident scopeKey basis exclude)
     \<and> (\<forall>basis indexes. patches d = Some (basis, indexes) \<longrightarrow>
          indexes_hold indexes (\<lambda>nr. row_additions nr (selectPatchConflicts db branch ident scopeKey basis exclude)))"

definition scans_ok :: "store \<Rightarrow> scans \<Rightarrow> bool" where
  "scans_ok db scans \<longleftrightarrow>
     (\<forall>branch ident scopeKey exclude key d. conflictScanKey branch ident scopeKey exclude = Some key \<longrightarrow> scans key = Some d
        \<longrightarrow> kept_ok db branch ident scopeKey exclude d)"

lemma scans_okD:
  "scans_ok db scans \<Longrightarrow> Option.bind (conflictScanKey branch ident scopeKey exclude) scans = Some d \<Longrightarrow>
     kept_ok db branch ident scopeKey exclude d"
  unfolding scans_ok_def by (cases "conflictScanKey branch ident scopeKey exclude") auto

lemma keep_ok:
  assumes "scans_ok db scans" "kept_ok db branch ident scopeKey exclude d"
  shows "scans_ok db (keep scans (conflictScanKey branch ident scopeKey exclude) d)"
proof (cases "conflictScanKey branch ident scopeKey exclude")
  case None
  then show ?thesis using assms(1) by simp
next
  case (Some key)
  have "kept_ok db branch' ident' scopeKey' exclude' d"
    if "conflictScanKey branch' ident' scopeKey' exclude' = Some key" for branch' ident' scopeKey' exclude'
    using assms(2) scan_key_same [OF Some that] unfolding kept_ok_def by simp
  then show ?thesis using assms(1) Some unfolding scans_ok_def by simp
qed

lemma no_conflicts_ok: "kept_ok db branch ident scopeKey exclude no_conflicts"
  by (simp add: kept_ok_def no_conflicts_def)

lemma empty_scans_ok: "scans_ok db (\<lambda>_. None)"
  by (simp add: scans_ok_def)

definition readable_patches :: "store \<Rightarrow> bool" where
  "readable_patches db \<longleftrightarrow> list_all (\<lambda>r. list_all parses (patches_of r)) (revisions db)"

lemma selected_parses:
  "readable_patches db \<Longrightarrow> r \<in> set (selectPatchConflicts db branch ident scopeKey afterSeq exclude) \<Longrightarrow>
     op \<in> set (patches_of r) \<Longrightarrow> parses op"
  by (auto simp: readable_patches_def selectPatchConflicts_def newest_first_def document_rows_def list_all_iff)

lemma conflicting_write_eq:
  assumes "readable_patches db"
  shows "conflicting_write db branch ident scopeKey afterSeq q nr exclude
    = (case selectSetDeleteConflict db branch ident scopeKey afterSeq exclude of
         Some s \<Rightarrow> Some s
       | None \<Rightarrow> map_option rev_seq (find (hits nr q) (selectPatchConflicts db branch ident scopeKey afterSeq exclude)))"
proof -
  have "find (\<lambda>r. (if nr then patchOverlapsNonRecursiveRead else patchOverlapsRead) (patches_of r) q = Inr True)
        (selectPatchConflicts db branch ident scopeKey afterSeq exclude)
      = find (hits nr q) (selectPatchConflicts db branch ident scopeKey afterSeq exclude)"
    by (rule find_cong [OF refl]) (simp only: overlap_hits selected_parses [OF assms] sum.inject eq_True)
  then show ?thesis by (simp only: conflicting_write_def)
qed

lemma kept_document:
  assumes "scans_ok db scans"
  shows "kept_ok db branch ident scopeKey exclude
    (case Option.bind (conflictScanKey branch ident scopeKey exclude) scans of None \<Rightarrow> no_conflicts | Some d \<Rightarrow> d)"
  using scans_okD [OF assms] no_conflicts_ok by (auto split: option.split)

lemma kept_set_or_delete:
  "kept_ok db branch ident scopeKey exclude d \<Longrightarrow>
     (case newestSetOrDelete d afterSeq of Some known \<Rightarrow> known
      | None \<Rightarrow> selectSetDeleteConflict db branch ident scopeKey afterSeq exclude)
     = selectSetDeleteConflict db branch ident scopeKey afterSeq exclude"
  unfolding kept_ok_def by (cases "newestSetOrDelete d afterSeq") simp_all

lemma kept_patches:
  assumes "kept_ok db branch ident scopeKey exclude d" "patches d = Some (basis, indexes)" "basis \<le> afterSeq"
  shows "(case newestPatchConflict indexes q nr of None \<Rightarrow> None | Some s \<Rightarrow> if s > afterSeq then Some s else None)
    = map_option rev_seq (find (hits nr q) (selectPatchConflicts db branch ident scopeKey afterSeq exclude))"
proof -
  let ?rows = "selectPatchConflicts db branch ident scopeKey basis exclude"
  have sorted: "sorted_wrt (\<lambda>r r'. rev_seq r' \<le> rev_seq r) ?rows"
    unfolding selectPatchConflicts_def by (rule newest_first_sorted)
  have "indexes_hold indexes (\<lambda>nr. row_additions nr ?rows)" using assms(1,2) by (simp add: kept_ok_def)
  then have "newestPatchConflict indexes q nr = map_option rev_seq (find (hits nr q) ?rows)"
    by (simp only: newestPatchConflict_holds newest_of_rows [OF sorted])
  then show ?thesis unfolding select_later [OF assms(3)] find_later [OF sorted] by simp
qed

lemma empty_indexes_hold: "indexes_hold empty_indexes (\<lambda>_. [])"
  by (simp add: indexes_hold_def empty_indexes_def empty_index_holds)

lemma findConflictSeq_spec:
  assumes db: "readable_patches db" and ok: "scans_ok db scans"
  shows "\<exists>scans'. findConflictSeq db scans branch ident scopeKey afterSeq q nr exclude
      = Inr (conflicting_write db branch ident scopeKey afterSeq q nr exclude, scans') \<and> scans_ok db scans'"
proof -
  let ?key = "conflictScanKey branch ident scopeKey exclude"
  let ?set = "selectSetDeleteConflict db branch ident scopeKey afterSeq exclude"
  let ?rows = "selectPatchConflicts db branch ident scopeKey afterSeq exclude"
  define d where "d = (case Option.bind ?key scans of None \<Rightarrow> no_conflicts | Some d \<Rightarrow> d)"
  define d' where "d' = d\<lparr>newestSetOrDelete := (newestSetOrDelete d)(afterSeq \<mapsto> ?set)\<rparr>"
  have d: "kept_ok db branch ident scopeKey exclude d" unfolding d_def by (rule kept_document [OF ok])
  then have d': "kept_ok db branch ident scopeKey exclude d'" by (simp add: d'_def kept_ok_def)
  have ok': "scans_ok db (keep scans ?key d')" by (rule keep_ok [OF ok d'])
  have parsed: "parses op" if "r \<in> set ?rows" "op \<in> set (patches_of r)" for r op
    using selected_parses [OF db that] .
  obtain r where r: "scan_rows empty_indexes q nr ?rows = Inr r"
    "case find (hits nr q) ?rows of Some row \<Rightarrow> r = Inl (rev_seq row)
     | None \<Rightarrow> \<exists>ix. r = Inr ix \<and> indexes_hold ix (\<lambda>nr. [] @ row_additions nr ?rows)"
  proof -
    have "\<exists>r. scan_rows empty_indexes q nr ?rows = Inr r
      \<and> (case find (hits nr q) ?rows of Some row \<Rightarrow> r = Inl (rev_seq row)
         | None \<Rightarrow> \<exists>ix. r = Inr ix \<and> indexes_hold ix (\<lambda>nr. [] @ row_additions nr ?rows))"
      by (rule scan_rows_holds [OF parsed empty_indexes_hold]) simp_all
    then show thesis using that by blast
  qed
  define scan where "scan = bindR (scan_rows empty_indexes q nr ?rows) (\<lambda>r. case r of
      Inl s \<Rightarrow> Inr (Some s, keep scans ?key d')
    | Inr indexes \<Rightarrow> Inr (None, keep scans ?key (d'\<lparr>patches := Some (afterSeq, indexes)\<rparr>)))"
  have scan: "\<exists>scans'. scan = Inr (map_option rev_seq (find (hits nr q) ?rows), scans') \<and> scans_ok db scans'"
  proof (cases "find (hits nr q) ?rows")
    case None
    then obtain ix where ix: "r = Inr ix" "indexes_hold ix (\<lambda>nr. row_additions nr ?rows)" using r(2) by auto
    have "kept_ok db branch ident scopeKey exclude (d'\<lparr>patches := Some (afterSeq, ix)\<rparr>)"
      using d' ix(2) by (simp add: kept_ok_def)
    from keep_ok [OF ok this] show ?thesis using r(1) ix(1) None by (simp add: scan_def)
  qed (use r ok' in \<open>simp add: scan_def\<close>)
  have eq: "findConflictSeq db scans branch ident scopeKey afterSeq q nr exclude
      = (if ?set \<noteq> None then Inr (?set, keep scans ?key d')
         else case patches d of
             Some (basis, indexes) \<Rightarrow>
               if basis \<le> afterSeq then
                 Inr (case newestPatchConflict indexes q nr of None \<Rightarrow> None
                      | Some s \<Rightarrow> if s > afterSeq then Some s else None, keep scans ?key d')
               else scan
           | None \<Rightarrow> scan)"
    unfolding findConflictSeq_def Let_def d_def [symmetric] kept_set_or_delete [OF d] d'_def [symmetric] scan_def [symmetric] ..
  show ?thesis
  proof (cases ?set)
    case None
    then have spec: "conflicting_write db branch ident scopeKey afterSeq q nr exclude = map_option rev_seq (find (hits nr q) ?rows)"
      by (simp add: conflicting_write_eq [OF db])
    show ?thesis
    proof (cases "\<exists>basis indexes. patches d = Some (basis, indexes) \<and> basis \<le> afterSeq")
      case True
      then obtain basis indexes where p: "patches d = Some (basis, indexes)" "basis \<le> afterSeq" by blast
      show ?thesis unfolding eq spec kept_patches [OF d p, symmetric] using p None ok' by simp
    next
      case False
      then have "findConflictSeq db scans branch ident scopeKey afterSeq q nr exclude = scan"
        unfolding eq using None by (auto split: option.split)
      then show ?thesis using scan spec by simp
    qed
  qed (use eq ok' conflicting_write_eq [OF db] in simp)
qed

section \<open>Properties\<close>

text \<open>The scans one commit's reads can leave behind, read after read, over an unchanging table.\<close>

inductive kept_scans :: "store \<Rightarrow> scans \<Rightarrow> bool" for db where
  nothing_kept: "kept_scans db (\<lambda>_. None)"
| read_kept: "kept_scans db scans \<Longrightarrow>
    findConflictSeq db scans branch ident scopeKey afterSeq readPath nonRecursive exclude = Inr (r, scans') \<Longrightarrow>
    kept_scans db scans'"

lemma kept_scans_ok: "kept_scans db scans \<Longrightarrow> readable_patches db \<Longrightarrow> scans_ok db scans"
proof (induction rule: kept_scans.induct)
  case (read_kept scans branch ident scopeKey afterSeq readPath nonRecursive exclude r scans')
  then show ?case using findConflictSeq_spec [of db scans branch ident scopeKey afterSeq readPath nonRecursive exclude] by auto
qed (rule empty_scans_ok)

lemma kept_decides:
  assumes "readable_patches db" and "kept_scans db scans"
  shows "\<exists>scans'. findConflictSeq db scans branch ident scopeKey afterSeq readPath nonRecursive exclude
      = Inr (conflicting_write db branch ident scopeKey afterSeq readPath nonRecursive exclude, scans')
    \<and> kept_scans db scans'"
proof -
  obtain scans' where "findConflictSeq db scans branch ident scopeKey afterSeq readPath nonRecursive exclude
      = Inr (conflicting_write db branch ident scopeKey afterSeq readPath nonRecursive exclude, scans')"
    using findConflictSeq_spec [OF assms(1) kept_scans_ok [OF assms(2,1)]] by blast
  then show ?thesis using read_kept [OF assms(2)] by blast
qed

text \<open>C25. Whatever reads of one commit were decided before, on whatever documents, bases, paths and
  exclusions, and whatever their indexes were kept from, \<^verbatim>\<open>findConflictSeq\<close> returns what deciding
  the read on its own would: the newest \<^verbatim>\<open>set\<close> or \<^verbatim>\<open>delete\<close> after its basis, and otherwise
  the newest patch after its basis that \<^verbatim>\<open>patchOverlapsRead\<close>, or
  \<^verbatim>\<open>patchOverlapsNonRecursiveRead\<close> for a shallow read, matches. Stored patches are assumed to
  name valid pointers.\<close>

theorem find_conflict_decides_as_uncached:
  assumes "readable_patches db" and "kept_scans db scans"
  shows "\<exists>scans'. findConflictSeq db scans branch ident scopeKey afterSeq readPath nonRecursive exclude
      = Inr (conflicting_write db branch ident scopeKey afterSeq readPath nonRecursive exclude, scans')
    \<and> kept_scans db scans'"
  by (rule kept_decides [OF assms])

definition one_patch_store :: store where
  "one_patch_store = \<lparr>sqlEq = (\<lambda>v s. v = FStr s),
     revisions = [\<lparr>rev_branch = '''', rev_id = ''of:a'', rev_scope_key = ''space'', rev_seq = 3, rev_op_index = 0,
       rev_operation = RPatch [Add ''/n/m'' FNull], rev_commit_seq = 3, rev_session = ''s'', rev_local_seq = 1, rev_class = ''authored'',
       rev_holder = None\<rparr>]\<rparr>"

lemma one_patch_readable: "readable_patches one_patch_store"
  by code_simp

lemma one_patch_writes:
  "conflicting_write one_patch_store (FStr '''') (FStr ''of:a'') ''space'' 1 [''x''] False None = None"
  "conflicting_write one_patch_store (FStr '''') (FStr ''of:a'') ''space'' 2 [''n''] False None = Some 3"
  by code_simp+

theorem find_conflict_decides_as_uncached_witness:
  "\<exists>scans scans'.
     findConflictSeq one_patch_store (\<lambda>_. None) (FStr '''') (FStr ''of:a'') ''space'' 1 [''x''] False None = Inr (None, scans)
     \<and> findConflictSeq one_patch_store scans (FStr '''') (FStr ''of:a'') ''space'' 2 [''n''] False None = Inr (Some 3, scans')"
proof -
  note decides = find_conflict_decides_as_uncached [OF one_patch_readable]
  obtain scans where s: "kept_scans one_patch_store scans"
    "findConflictSeq one_patch_store (\<lambda>_. None) (FStr '''') (FStr ''of:a'') ''space'' 1 [''x''] False None = Inr (None, scans)"
    using decides [OF nothing_kept, of "FStr ''''" "FStr ''of:a''" "''space''" 1 "[''x'']" False None]
    unfolding one_patch_writes by blast
  then show ?thesis
    using decides [OF s(1), of "FStr ''''" "FStr ''of:a''" "''space''" 2 "[''n'']" False None]
    unfolding one_patch_writes by blast
qed

end
