(* ===== verification/ConflictSound.thy ===== *)
theory ConflictSound
  imports Conflicts
begin

text \<open>
  Why a read that meets no conflict is fresh: a patch operation that touches no path overlapping a
  read leaves what the read sees as it was, and a patch that touches no path at or above a shallow
  read leaves the shape it saw. Both hold only for operations that keep to the slot they name: an
  operation that inserts into an array or removes from one shifts the elements behind it, which its
  touched paths do not say. The last theorems of the theory show what the overlap predicates miss.
\<close>

section \<open>Operations that keep to their slot\<close>

fun in_place :: "fval \<Rightarrow> patch_op \<Rightarrow> bool" where
  "in_place root (Add ptr v) = (case parsePointer ptr of Inr p \<Rightarrow> keyed root p | Inl _ \<Rightarrow> True)"
| "in_place root (Remove ptr) = (case parsePointer ptr of Inr p \<Rightarrow> \<not> array_parent root p | Inl _ \<Rightarrow> True)"
| "in_place root (Move src ptr) =
     (case parsePointer src of
        Inr q \<Rightarrow> \<not> array_parent root q \<and> (case parsePointer ptr of Inr p \<Rightarrow> keyed root p | Inl _ \<Rightarrow> True)
      | Inl _ \<Rightarrow> True)"
| "in_place root op = True"

fun in_place_all :: "host \<Rightarrow> fval \<Rightarrow> patch_op list \<Rightarrow> bool" where
  "in_place_all h root [] = True"
| "in_place_all h root (op # ops) =
     (in_place root op \<and> (case applyOp h root op of Inr s \<Rightarrow> in_place_all h s ops | Inl _ \<Rightarrow> True))"

lemma someR_False: "someR f xs = Inr False \<Longrightarrow> x \<in> set xs \<Longrightarrow> f x = Inr False"
  by (induction xs) (auto simp: result_simps split: if_splits)

lemma no_overlap:
  assumes "patchOverlapsRead ops q = Inr False" "op \<in> set ops"
  shows "\<exists>ps. touchedPointerPaths op = Inr ps \<and> (\<forall>p\<in>set ps. \<not> pathsOverlap p q)"
  using someR_False [OF assms(1) [unfolded patchOverlapsRead_def] assms(2)]
  by (auto simp: result_simps touchedLeafPathsForPatch_def list_ex_iff)

lemma touched_single:
  "pointerFields op = [ptr] \<Longrightarrow> touchedPointerPaths op = Inr ps \<longleftrightarrow> (\<exists>p. parsePointer ptr = Inr p \<and> ps = [p])"
  by (auto simp: touchedPointerPaths_def result_simps pointer_Inr)

lemma tail_edits:
  assumes "thawTailArray root p name = Inr (r, xs)" "mutated r p c = Inr s"
  shows "edits p root s"
  using edits_trans [OF tail_spec(2) [OF assms(1)] mutated_edits(1) [OF assms(2)]] .

lemma op_edits:
  assumes "applyOp h root op = Inr s" "in_place root op" "pointerFields op = [ptr]"
  shows "\<exists>p. parsePointer ptr = Inr p \<and> edits p root s"
proof (cases op)
  case (Replace ptr v)
  then show ?thesis using assms sets_slot_reads(2) [OF replace_sets] by (auto simp: result_simps pointer_Inr)
next
  case (Add ptr v)
  then show ?thesis using assms sets_slot_reads(2) [OF add_edits] by (auto simp: result_simps pointer_Inr)
next
  case (Remove ptr)
  then show ?thesis using assms remove_edits(1) by (auto simp: result_simps pointer_Inr)
next
  case (Move src ptr)
  then show ?thesis using assms by simp
next
  case (Splice ptr i n add)
  then show ?thesis using assms splice_edits by (auto simp: result_simps pointer_Inr)
next
  case (Append ptr vs c)
  then show ?thesis using assms tail_edits by (auto simp: result_simps pointer_Inr elim!: append_cases)
next
  case (AddUnique ptr vs c)
  then show ?thesis using assms tail_edits by (auto simp: result_simps pointer_Inr elim!: addUnique_cases)
next
  case (RemoveByValue ptr v)
  then show ?thesis using assms removeByValue_edits by (auto simp: result_simps pointer_Inr)
next
  case (Increment ptr n c)
  then show ?thesis using assms sets_slot_reads(2) [OF increment_sets(1)] by (auto simp: result_simps pointer_Inr)
qed

lemma op_keeps_read:
  assumes "applyOp h root op = Inr s" "in_place root op" "touchedPointerPaths op = Inr ps" "\<forall>p\<in>set ps. \<not> pathsOverlap p q"
  shows "readAt s q = readAt root q"
proof (cases "\<exists>ptr. pointerFields op = [ptr]")
  case True
  then obtain ptr where ptr: "pointerFields op = [ptr]" by blast
  from op_edits [OF assms(1,2) ptr] obtain p where "parsePointer ptr = Inr p" "edits p root s" by blast
  then show ?thesis using assms(3,4) touched_single [OF ptr] by (auto simp: edits_def)
next
  case False
  then obtain src ptr where op: "op = Move src ptr" by (cases op) auto
  then obtain u p where m: "parsePointer src = Inr u" "parsePointer ptr = Inr p" "moveValue root u p = Inr s"
    using assms(1) by (auto simp: result_simps pointer_Inr)
  then have "ps = [u, p]" "keyed root p" "\<not> array_parent root u"
    using op assms(2,3) by (auto simp: touchedPointerPaths_def result_simps pointer_Inr)
  then show ?thesis using move_edits [OF m(3)] assms(4) by simp
qed

lemma patch_keeps_read:
  assumes "applyPatch h root ops = Inr s" "in_place_all h root ops" "patchOverlapsRead ops q = Inr False"
  shows "readAt s q = readAt root q"
proof -
  have "\<forall>op\<in>set ops. \<exists>ps. touchedPointerPaths op = Inr ps \<and> (\<forall>p\<in>set ps. \<not> pathsOverlap p q)"
    using no_overlap [OF assms(3)] by blast
  with assms(1,2) show ?thesis unfolding applyPatch_def
  proof (induction ops arbitrary: root)
    case (Cons op ops)
    then obtain t where t: "applyOp h root op = Inr t" "foldR (applyOp h) t ops = Inr s" by (auto simp: result_simps)
    have "readAt t q = readAt root q" using op_keeps_read [OF t(1)] Cons.prems(2,3) by auto
    then show ?case using Cons.IH [OF t(2)] Cons.prems(2,3) t(1) by simp
  qed simp
qed

section \<open>Shapes\<close>

text \<open>What a shallow read at a path sees: whether anything is there, and under which keys.\<close>

definition same_keys_at :: "fval \<Rightarrow> fval \<Rightarrow> path \<Rightarrow> bool" where
  "same_keys_at v w q \<longleftrightarrow>
     (readAt v q = None \<longleftrightarrow> readAt w q = None) \<and> (\<forall>k. readAt v (q @ [k]) = None \<longleftrightarrow> readAt w (q @ [k]) = None)"

definition on_path :: "string \<Rightarrow> (path \<Rightarrow> bool) \<Rightarrow> bool" where
  "on_path ptr P = (case parsePointer ptr of Inr p \<Rightarrow> P p | Inl _ \<Rightarrow> True)"

text \<open>The operation creates no container on its way, and a key only where it says so.\<close>

fun keys_declared :: "fval \<Rightarrow> patch_op \<Rightarrow> bool" where
  "keys_declared root (Replace ptr v) = on_path ptr (\<lambda>p. readAt root p \<noteq> None)"
| "keys_declared root (Add ptr v) = on_path ptr (\<lambda>p. readAt root (butlast p) \<noteq> None)"
| "keys_declared root (Move src ptr) = on_path src (\<lambda>u. on_path ptr (\<lambda>p.
     case removeAtPath root u of Inr m \<Rightarrow> readAt m (butlast p) \<noteq> None | Inl _ \<Rightarrow> True))"
| "keys_declared root (Append ptr vs c) = on_path ptr (\<lambda>p. readAt root (if c then butlast p else p) \<noteq> None)"
| "keys_declared root (AddUnique ptr vs c) = on_path ptr (\<lambda>p. readAt root (if c then butlast p else p) \<noteq> None)"
| "keys_declared root (Increment ptr n c) = on_path ptr (\<lambda>p. readAt root (if c then butlast p else p) \<noteq> None)"
| "keys_declared root op = True"

fun keys_declared_all :: "host \<Rightarrow> fval \<Rightarrow> patch_op list \<Rightarrow> bool" where
  "keys_declared_all h root [] = True"
| "keys_declared_all h root (op # ops) =
     (keys_declared root op \<and> (case applyOp h root op of Inr s \<Rightarrow> keys_declared_all h s ops | Inl _ \<Rightarrow> True))"

lemma same_keys_refl [simp]: "same_keys_at v v q"
  by (simp add: same_keys_at_def)

lemma same_keys_trans: "same_keys_at u v q \<Longrightarrow> same_keys_at v w q \<Longrightarrow> same_keys_at u w q"
  by (simp add: same_keys_at_def)

lemma readAt_prefix: "prefix p q \<Longrightarrow> readAt v q \<noteq> None \<Longrightarrow> readAt v p \<noteq> None"
  by (auto simp: prefix_def tree.get_path_append split: option.splits)

text \<open>An edit at a path that is there before and after changes no key set but the one it is under.\<close>

lemma edit_keeps_keys:
  assumes e: "edits p root s" and q: "\<not> prefix p q" and there: "readAt root p \<noteq> None" "readAt s p \<noteq> None"
  shows "same_keys_at root s q"
proof -
  have same: "readAt root r = None \<longleftrightarrow> readAt s r = None" if "prefix r p \<or> \<not> pathsOverlap p r" for r
    using that
  proof
    assume "prefix r p"
    then show ?thesis using readAt_prefix there by blast
  next
    assume "\<not> pathsOverlap p r"
    then show ?thesis using e by (simp add: edits_def)
  qed
  have "prefix q p \<or> \<not> pathsOverlap p q" using q by (auto simp: pathsOverlap_iff)
  moreover have "prefix (q @ [k]) p \<or> \<not> pathsOverlap p (q @ [k])" for k
    using q by (auto simp: pathsOverlap_iff)
  ultimately show ?thesis using same by (simp add: same_keys_at_def)
qed

lemma not_below_parent: "\<not> prefix (butlast p) q \<Longrightarrow> p \<noteq> []"
  by auto

lemma readAt_butlast: "readAt v p \<noteq> None \<Longrightarrow> readAt v (butlast p) \<noteq> None"
  using readAt_prefix [OF prefixeq_butlast] .

lemma add_keeps_keys:
  assumes "addAtPath root p v = Inr s" "readAt root (butlast p) \<noteq> None" "\<not> prefix (butlast p) q"
  shows "same_keys_at root s q"
proof -
  obtain r c c' where t: "thawSpine root (butlast p) p (Some (last p)) = Inr (r, c)" "mutated r (butlast p) c' = Inr s"
    using add_cases [OF assms(1)] not_below_parent [OF assms(3)] by auto
  show ?thesis
    by (rule edit_keeps_keys [OF edits_whole [OF t] assms(3,2)]) (simp add: whole_edit(1) [OF t])
qed

lemma remove_keeps_keys:
  assumes "removeAtPath root p = Inr s" "\<not> prefix (butlast p) q"
  shows "same_keys_at root s q"
proof -
  obtain c where t: "thawSpine root (butlast p) p None = Inr (root, c)" "readAt root (butlast p) = Some c"
    "mutated root (butlast p) (remove_slot c (last p)) = Inr s"
    using remove_cases [OF assms(1)] by blast
  show ?thesis
    by (rule edit_keeps_keys [OF edits_whole [OF t(1,3)] assms(2)]) (simp_all add: t(2) whole_edit(1) [OF t(1,3)])
qed

text \<open>An operation whose slot is there afterwards, and whose flag is true to whether it was before.\<close>

lemma flagged_keeps_keys:
  assumes "edits p root s" "readAt s p \<noteq> None" "readAt root (if c then butlast p else p) \<noteq> None"
    and "\<not> prefix p q" "c \<longrightarrow> \<not> prefix (butlast p) q"
  shows "same_keys_at root s q"
proof (cases c)
  case True
  then have "p \<noteq> []" using assms(5) by auto
  then show ?thesis
    using edit_keeps_keys [OF edits_parent [OF assms(1)]] readAt_butlast [OF assms(2)] assms(3,5) True by simp
qed (use edit_keeps_keys [OF assms(1,4) _ assms(2)] assms(3) in simp)

lemma no_shape_overlap:
  assumes "patchOverlapsNonRecursiveRead ops q = Inr False" "op \<in> set ops"
  shows "\<exists>ps. touchedPointerPaths op = Inr ps \<and>
    (\<forall>p\<in>set ps. \<not> prefix p q \<and> (patchOpChangesParentKeySet op \<longrightarrow> \<not> prefix (butlast p) q))"
proof -
  obtain ps where ps: "touchedPointerPaths op = Inr ps" "\<not> list_ex (\<lambda>p. isPrefixPath p q) (touchedPathsForPatch op ps)"
    using someR_False [OF assms(1) [unfolded patchOverlapsNonRecursiveRead_def] assms(2)] by (auto simp: result_simps)
  have "parentPath p = butlast p" for p by (simp add: parentPath_def)
  then show ?thesis using ps by (simp add: list_ex_iff touchedPathsForPatch_def split: if_splits)
qed

lemma removeByValue_keys:
  assumes "removeByValueAtPath h root p v = Inr s" "\<not> prefix p q"
  shows "same_keys_at root s q"
  using removeByValue_cases [OF assms(1)]
proof (elim disjE exE conjE)
  fix xs ys
  assume "readAt root p = Some (FArr xs)" "mutated root p (FArr ys) = Inr s"
  then show ?thesis
    using edit_keeps_keys [OF removeByValue_edits [OF assms(1)] assms(2)] mutated_edits(2) by simp
qed simp

lemma splice_keys:
  assumes "spliceAtPath root p index remove add = Inr s" "\<not> prefix p q"
  shows "same_keys_at root s q"
proof -
  obtain xs where "readAt root p = Some (FArr xs)"
    "mutated root p (FArr (take (nat index) xs @ map Some (iterate add) @ drop (nat index + nat remove) xs)) = Inr s"
    using splice_cases [OF assms(1)] by blast
  then show ?thesis using edit_keeps_keys [OF splice_edits [OF assms(1)] assms(2)] mutated_edits(2) by simp
qed

lemma slot_keys:
  assumes "sets_slot root p v s" "readAt root (if c then butlast p else p) \<noteq> None" "\<not> prefix p q" "c \<longrightarrow> \<not> prefix (butlast p) q"
  shows "same_keys_at root s q"
  using flagged_keeps_keys [OF sets_slot_reads(2) [OF assms(1)] _ assms(2-4)] sets_slot_reads(1) [OF assms(1)] by simp

lemma tail_keys:
  assumes "thawTailArray root p name = Inr (r, xs)" "mutated r p ys = Inr s"
    and "readAt root (if c then butlast p else p) \<noteq> None" "\<not> prefix p q" "c \<longrightarrow> \<not> prefix (butlast p) q"
  shows "same_keys_at root s q"
  using flagged_keeps_keys [OF tail_edits [OF assms(1,2)] _ assms(3-5)] mutated_edits(2) [OF assms(2)] by simp

lemma move_keys:
  assumes "moveValue root u p = Inr s" "\<not> prefix (butlast u) q" "\<not> prefix (butlast p) q"
    and "\<And>m. removeAtPath root u = Inr m \<Longrightarrow> readAt m (butlast p) \<noteq> None"
  shows "same_keys_at root s q"
proof -
  obtain v m where m: "removeAtPath root u = Inr m" "addAtPath m p v = Inr s" using move_cases [OF assms(1)] by blast
  show ?thesis
    using same_keys_trans [OF remove_keeps_keys [OF m(1) assms(2)] add_keeps_keys [OF m(2) assms(4) [OF m(1)] assms(3)]] .
qed

lemma op_keeps_keys:
  assumes op: "applyOp h root op = Inr s" and k: "keys_declared root op" and ps: "touchedPointerPaths op = Inr ps"
    and q: "\<forall>p\<in>set ps. \<not> prefix p q \<and> (patchOpChangesParentKeySet op \<longrightarrow> \<not> prefix (butlast p) q)"
  shows "same_keys_at root s q"
proof -
  note steps = result_simps pointer_Inr touchedPointerPaths_def on_path_def patchOpChangesParentKeySet_def
  show ?thesis
  proof (cases op)
    case (Replace ptr v)
    then obtain p where "replaceAtPath root p v = Inr s" "readAt root p \<noteq> None" "\<not> prefix p q"
      using assms by (auto simp: steps)
    then show ?thesis using slot_keys [OF replace_sets, of root p v s False q] by simp
  next
    case (Add ptr v)
    then obtain p where "addAtPath root p v = Inr s" "readAt root (butlast p) \<noteq> None" "\<not> prefix (butlast p) q"
      using assms by (auto simp: steps)
    then show ?thesis by (rule add_keeps_keys)
  next
    case (Remove ptr)
    then obtain p where "removeAtPath root p = Inr s" "\<not> prefix (butlast p) q"
      using assms by (auto simp: steps)
    then show ?thesis by (rule remove_keeps_keys)
  next
    case (Move src ptr)
    then obtain u p where m: "moveValue root u p = Inr s" "\<not> prefix (butlast u) q" "\<not> prefix (butlast p) q"
      "case removeAtPath root u of Inr m \<Rightarrow> readAt m (butlast p) \<noteq> None | Inl _ \<Rightarrow> True"
      using assms by (auto simp: steps)
    show ?thesis by (rule move_keys [OF m(1-3)]) (use m(4) in simp)
  next
    case (Splice ptr i n add)
    then obtain p where "spliceAtPath root p i n add = Inr s" "\<not> prefix p q" using assms by (auto simp: steps)
    then show ?thesis by (rule splice_keys)
  next
    case (Append ptr vs c)
    then obtain p where p: "appendAtPath root p vs = Inr s" "readAt root (if c then butlast p else p) \<noteq> None" "\<not> prefix p q"
      "c \<longrightarrow> \<not> prefix (butlast p) q"
      using assms by (auto simp: steps)
    from p(1) show ?thesis by (rule append_cases) (rule tail_keys [OF _ _ p(2-4)])
  next
    case (AddUnique ptr vs c)
    then obtain p where p: "addUniqueAtPath h root p vs = Inr s" "readAt root (if c then butlast p else p) \<noteq> None" "\<not> prefix p q"
      "c \<longrightarrow> \<not> prefix (butlast p) q"
      using assms by (auto simp: steps)
    from p(1) show ?thesis by (rule addUnique_cases) (rule tail_keys [OF _ _ p(2-4)])
  next
    case (RemoveByValue ptr v)
    then obtain p where "removeByValueAtPath h root p v = Inr s" "\<not> prefix p q" using assms by (auto simp: steps)
    then show ?thesis by (rule removeByValue_keys)
  next
    case (Increment ptr n c)
    then obtain p where p: "incrementAtPath root p n = Inr s" "readAt root (if c then butlast p else p) \<noteq> None" "\<not> prefix p q"
      "c \<longrightarrow> \<not> prefix (butlast p) q"
      using assms by (auto simp: steps)
    from slot_keys [OF increment_sets(1) [OF p(1)] p(2-4)] show ?thesis .
  qed
qed

lemma patch_keeps_keys:
  assumes "applyPatch h root ops = Inr s" "keys_declared_all h root ops" "patchOverlapsNonRecursiveRead ops q = Inr False"
  shows "same_keys_at root s q"
proof -
  have "\<forall>op\<in>set ops. \<exists>ps. touchedPointerPaths op = Inr ps \<and>
      (\<forall>p\<in>set ps. \<not> prefix p q \<and> (patchOpChangesParentKeySet op \<longrightarrow> \<not> prefix (butlast p) q))"
    using no_shape_overlap [OF assms(3)] by blast
  with assms(1,2) show ?thesis unfolding applyPatch_def
  proof (induction ops arbitrary: root)
    case (Cons op ops)
    then obtain t where t: "applyOp h root op = Inr t" "foldR (applyOp h) t ops = Inr s" by (auto simp: result_simps)
    have "same_keys_at root t q" using op_keeps_keys [OF t(1)] Cons.prems(2,3) by auto
    then show ?case using same_keys_trans Cons.IH [OF t(2)] Cons.prems(2,3) t(1) by simp
  qed simp
qed

section \<open>From one patch to the document\<close>

text \<open>A document at a basis, and the patches stored after it replayed in the order they were written.\<close>

definition replay :: "host \<Rightarrow> fval \<Rightarrow> revision list \<Rightarrow> patch_error + fval" where
  "replay h base rows = foldR (\<lambda>d r. applyPatch h d (patches_of r)) base rows"

fun along :: "host \<Rightarrow> (host \<Rightarrow> fval \<Rightarrow> patch_op list \<Rightarrow> bool) \<Rightarrow> fval \<Rightarrow> revision list \<Rightarrow> bool" where
  "along h P d [] = True"
| "along h P d (r # rows) =
     (P h d (patches_of r) \<and> (case applyPatch h d (patches_of r) of Inr d' \<Rightarrow> along h P d' rows | Inl _ \<Rightarrow> True))"

lemma replay_keeps:
  assumes step: "\<And>d d' ops. applyPatch h d ops = Inr d' \<Longrightarrow> P h d ops \<Longrightarrow> quiet ops \<Longrightarrow> R d d'"
    and R: "\<And>d. R d d" "\<And>a b c. R a b \<Longrightarrow> R b c \<Longrightarrow> R a c"
  shows "replay h base rows = Inr head \<Longrightarrow> along h P base rows \<Longrightarrow> list_all (\<lambda>r. quiet (patches_of r)) rows \<Longrightarrow> R base head"
  unfolding replay_def
proof (induction rows arbitrary: base)
  case (Cons r rows)
  then obtain d where d: "applyPatch h base (patches_of r) = Inr d"
    "foldR (\<lambda>d r. applyPatch h d (patches_of r)) d rows = Inr head" by (auto simp: result_simps)
  then have "R base d" "R d head" using step [OF d(1)] Cons.IH [OF d(2)] Cons.prems(2,3) by auto
  then show ?case by (rule R(2))
qed (simp add: R)

lemma unconflicted_rows:
  assumes "readable_patches db" and w: "conflicting_write db branch ident scopeKey afterSeq q nr exclude = None"
  shows "selectSetDeleteConflict db branch ident scopeKey afterSeq exclude = None"
    and "list_all (\<lambda>r. (if nr then patchOverlapsNonRecursiveRead else patchOverlapsRead) (patches_of r) q = Inr False)
      (selectPatchConflicts db branch ident scopeKey afterSeq exclude)"
proof -
  show s: "selectSetDeleteConflict db branch ident scopeKey afterSeq exclude = None"
    using w by (auto simp: conflicting_write_eq [OF assms(1)] split: option.splits)
  then have n: "find (hits nr q) (selectPatchConflicts db branch ident scopeKey afterSeq exclude) = None"
    using w by (simp add: conflicting_write_eq [OF assms(1)])
  show "list_all (\<lambda>r. (if nr then patchOverlapsNonRecursiveRead else patchOverlapsRead) (patches_of r) q = Inr False)
      (selectPatchConflicts db branch ident scopeKey afterSeq exclude)"
    unfolding list_all_iff
  proof
    fix r
    assume r: "r \<in> set (selectPatchConflicts db branch ident scopeKey afterSeq exclude)"
    then have "\<not> hits nr q r" using n by (auto simp: find_None_iff)
    then show "(if nr then patchOverlapsNonRecursiveRead else patchOverlapsRead) (patches_of r) q = Inr False"
      by (subst overlap_hits) (use selected_parses [OF assms(1) r] in simp_all)
  qed
qed

lemma conflict_free_rows:
  assumes "readable_patches db" "kept_scans db scans"
    and "findConflictSeq db scans branch ident scopeKey afterSeq q nr exclude = Inr (None, scans')"
  shows "selectSetDeleteConflict db branch ident scopeKey afterSeq exclude = None"
    and "list_all (\<lambda>r. (if nr then patchOverlapsNonRecursiveRead else patchOverlapsRead) (patches_of r) q = Inr False)
      (selectPatchConflicts db branch ident scopeKey afterSeq exclude)"
proof -
  have w: "conflicting_write db branch ident scopeKey afterSeq q nr exclude = None"
    using findConflictSeq_spec [OF assms(1) kept_scans_ok [OF assms(2,1)], of branch ident scopeKey afterSeq q nr exclude]
      assms(3) by auto
  note free = unconflicted_rows [OF assms(1) w]
  show "selectSetDeleteConflict db branch ident scopeKey afterSeq exclude = None" by (rule free)
  show "list_all (\<lambda>r. (if nr then patchOverlapsNonRecursiveRead else patchOverlapsRead) (patches_of r) q = Inr False)
      (selectPatchConflicts db branch ident scopeKey afterSeq exclude)" by (rule free)
qed

section \<open>Properties\<close>

text \<open>C26. A recursive read the engine lets pass, with no session excluded, is fresh where the patches stored
  after its basis insert into no array and remove from none by an index: no \<^verbatim>\<open>set\<close> or \<^verbatim>\<open>delete\<close> is
  stored after the basis, and where replaying those patches succeeds it leaves the path reading what it
  read at the basis. Without the condition it does not hold: an index that moves is not overlapped.\<close>

theorem conflict_free_read_is_fresh:
  assumes "readable_patches db" and "kept_scans db scans"
    and "findConflictSeq db scans branch ident scopeKey afterSeq readPath False None = Inr (None, scans')"
    and "replay h base (rev (selectPatchConflicts db branch ident scopeKey afterSeq None)) = Inr head"
    and "along h in_place_all base (rev (selectPatchConflicts db branch ident scopeKey afterSeq None))"
  shows "selectSetDeleteConflict db branch ident scopeKey afterSeq None = None
    \<and> readAt head readPath = readAt base readPath"
proof -
  note free = conflict_free_rows [OF assms(1-3)]
  have "readAt base readPath = readAt head readPath"
    by (rule replay_keeps [OF _ _ _ assms(4,5), where quiet = "\<lambda>ops. patchOverlapsRead ops readPath = Inr False"])
      (use free(2) patch_keeps_read in auto)
  then show ?thesis using free(1) by simp
qed

text \<open>C27. A shallow read the engine lets pass, with no session excluded, is fresh where every operation of the
  patches stored after its basis that creates a key declares it and creates no container on its way:
  where replaying those patches succeeds, they neither create nor remove what is at its path, nor any key
  under it. Insertions into arrays and removals from them are allowed. Without the condition it does not
  hold: a deep \<^verbatim>\<open>add\<close>, or a \<^verbatim>\<open>replace\<close> of a key that is not there, creates keys no shallow read overlaps.\<close>

theorem conflict_free_shape_is_fresh:
  assumes "readable_patches db" and "kept_scans db scans"
    and "findConflictSeq db scans branch ident scopeKey afterSeq readPath True None = Inr (None, scans')"
    and "replay h base (rev (selectPatchConflicts db branch ident scopeKey afterSeq None)) = Inr head"
    and "along h keys_declared_all base (rev (selectPatchConflicts db branch ident scopeKey afterSeq None))"
  shows "selectSetDeleteConflict db branch ident scopeKey afterSeq None = None \<and> same_keys_at base head readPath"
proof -
  note free = conflict_free_rows [OF assms(1-3)]
  have "same_keys_at base head readPath"
    by (rule replay_keeps [OF _ _ _ assms(4,5), where quiet = "\<lambda>ops. patchOverlapsNonRecursiveRead ops readPath = Inr False"])
      (use free(2) patch_keeps_keys same_keys_trans in auto)
  then show ?thesis using free(1) by simp
qed

definition one_patch_rows :: "revision list" where
  "one_patch_rows = rev (selectPatchConflicts one_patch_store (FStr '''') (FStr ''of:a'') ''space'' 1 None)"

lemma one_patch_replay:
  "replay padding_host (FObj [(''x'', FBool True), (''n'', FObj [])]) one_patch_rows = Inr (FObj [(''x'', FBool True), (''n'', FObj [(''m'', FNull)])])"
  "along padding_host in_place_all (FObj [(''x'', FBool True), (''n'', FObj [])]) one_patch_rows"
  by code_simp+

lemma one_patch_keys: "along padding_host keys_declared_all (FObj [(''x'', FBool True), (''n'', FObj [])]) one_patch_rows"
proof -
  have rows: "map patches_of one_patch_rows = [[Add ''/n/m'' FNull]]" by code_simp
  then obtain r where r: "one_patch_rows = [r]" "patches_of r = [Add ''/n/m'' FNull]" by (cases one_patch_rows) auto
  have p: "parsePointer ''/n/m'' = Inr [''n'', ''m'']" by code_simp
  show ?thesis by (simp add: r on_path_def p split: sum.split)
qed

lemma one_patch_quiet:
  obtains scans where
    "findConflictSeq one_patch_store (\<lambda>_. None) (FStr '''') (FStr ''of:a'') ''space'' 1 [''x''] False None = Inr (None, scans)"
proof -
  show ?thesis
    using findConflictSeq_spec [OF one_patch_readable empty_scans_ok, of "FStr ''''" "FStr ''of:a''" "''space''" 1 "[''x'']" False None]
      that unfolding one_patch_writes by blast
qed

lemma one_patch_quiet_shape:
  obtains scans where
    "findConflictSeq one_patch_store (\<lambda>_. None) (FStr '''') (FStr ''of:a'') ''space'' 1 [''x''] True None = Inr (None, scans)"
proof -
  have "conflicting_write one_patch_store (FStr '''') (FStr ''of:a'') ''space'' 1 [''x''] True None = None" by code_simp
  then show ?thesis
    using findConflictSeq_spec [OF one_patch_readable empty_scans_ok, of "FStr ''''" "FStr ''of:a''" "''space''" 1 "[''x'']" True None]
      that by fastforce
qed

theorem conflict_free_read_is_fresh_witness:
  "readAt (FObj [(''x'', FBool True), (''n'', FObj [(''m'', FNull)])]) [''x''] = readAt (FObj [(''x'', FBool True), (''n'', FObj [])]) [''x'']"
proof -
  obtain scans where s:
    "findConflictSeq one_patch_store (\<lambda>_. None) (FStr '''') (FStr ''of:a'') ''space'' 1 [''x''] False None = Inr (None, scans)"
    by (rule one_patch_quiet)
  show ?thesis
    using conflict_free_read_is_fresh [OF one_patch_readable nothing_kept s one_patch_replay(1,2) [unfolded one_patch_rows_def]] ..
qed

theorem conflict_free_shape_is_fresh_witness:
  "same_keys_at (FObj [(''x'', FBool True), (''n'', FObj [])]) (FObj [(''x'', FBool True), (''n'', FObj [(''m'', FNull)])]) [''x'']"
proof -
  obtain scans where s:
    "findConflictSeq one_patch_store (\<lambda>_. None) (FStr '''') (FStr ''of:a'') ''space'' 1 [''x''] True None = Inr (None, scans)"
    by (rule one_patch_quiet_shape)
  show ?thesis
    using conflict_free_shape_is_fresh [OF one_patch_readable nothing_kept s one_patch_replay(1) [unfolded one_patch_rows_def]
      one_patch_keys [unfolded one_patch_rows_def]] ..
qed


end
