(* ===== verification/ScopeKey.thy ===== *)
theory ScopeKey
  imports JsonPath
begin

text \<open>
  Scope keys (\<^verbatim>\<open>runtime/memory/v2.ts\<close>): the strings that name the instance of a document a principal
  or a session sees. The language's \<^verbatim>\<open>encodeURIComponent\<close> and \<^verbatim>\<open>decodeURIComponent\<close> are
  modelled on the WTF-8 bytes of a string: a sequence that is not valid UTF-8 is a lone surrogate,
  which both refuse. Every thrown error is a value.
\<close>

section \<open>The language's percent coding\<close>

datatype scope_error = UserNeedsPrincipal | SessionNeedsPrincipal | SessionNeedsSessionId | UriError

fun valid_seq :: "nat list \<Rightarrow> bool" where
  "valid_seq [a] = (a < 0x80)"
| "valid_seq [a, b] = (0xC2 \<le> a \<and> a < 0xE0 \<and> 0x80 \<le> b \<and> b < 0xC0)"
| "valid_seq [a, b, c] = (0xE0 \<le> a \<and> a < 0xF0 \<and> (if a = 0xE0 then 0xA0 else 0x80) \<le> b
     \<and> b < (if a = 0xED then 0xA0 else 0xC0) \<and> 0x80 \<le> c \<and> c < 0xC0)"
| "valid_seq [a, b, c, d] = (0xF0 \<le> a \<and> a < 0xF5 \<and> (if a = 0xF0 then 0x90 else 0x80) \<le> b
     \<and> b < (if a = 0xF4 then 0x90 else 0xC0) \<and> 0x80 \<le> c \<and> c < 0xC0 \<and> 0x80 \<le> d \<and> d < 0xC0)"
| "valid_seq _ = False"

definition seq_length :: "nat \<Rightarrow> nat" where
  "seq_length a = (if a < 0x80 then 1 else if a < 0xE0 then 2 else if a < 0xF0 then 3 else 4)"

definition unreserved :: "char \<Rightarrow> bool" where
  "unreserved c \<longleftrightarrow>
     (let n = of_char c :: nat
      in 0x30 \<le> n \<and> n \<le> 0x39 \<or> 0x41 \<le> n \<and> n \<le> 0x5A \<or> 0x61 \<le> n \<and> n \<le> 0x7A) \<or> c \<in> set ''-_.!~*'' \<or> c = CHR 0x27
      \<or> c = CHR ''('' \<or> c = CHR '')''"

definition hex_upper :: "nat \<Rightarrow> char" where
  "hex_upper n = char_of (if n < 10 then 0x30 + n else 0x37 + n)"

definition hex_code :: "char \<Rightarrow> nat option" where
  "hex_code c =
     (let n = of_char c :: nat
      in if 0x30 \<le> n \<and> n \<le> 0x39 then Some (n - 0x30)
         else if 0x41 \<le> n \<and> n \<le> 0x46 then Some (n - 0x37)
         else if 0x61 \<le> n \<and> n \<le> 0x66 then Some (n - 0x57)
         else None)"

definition escape :: "char \<Rightarrow> string" where
  "escape c = (let n = of_char c in [CHR ''%'', hex_upper (n div 16), hex_upper (n mod 16)])"

definition escape_seq :: "string \<Rightarrow> string" where
  "escape_seq s = (if list_all unreserved s then s else concat (map escape s))"

function encodeURIComponent :: "string \<Rightarrow> scope_error + string" where
  "encodeURIComponent [] = Inr []"
| "encodeURIComponent (c # cs) =
     (let n = seq_length (of_char c); s = take n (c # cs)
      in if \<not> valid_seq (map of_char s) then Inl UriError
         else bindR (encodeURIComponent (drop n (c # cs))) (\<lambda>r. Inr (escape_seq s @ r)))"
  by pat_completeness auto
termination by (relation "measure length") (auto simp: seq_length_def)

fun read_escapes :: "nat \<Rightarrow> string \<Rightarrow> (nat list \<times> string) option" where
  "read_escapes 0 s = Some ([], s)"
| "read_escapes (Suc k) (p # a # b # s) =
     (case (hex_code a, hex_code b, read_escapes k s) of
        (Some x, Some y, Some (bs, r)) \<Rightarrow> if p = CHR ''%'' then Some ((16 * x + y) # bs, r) else None
      | _ \<Rightarrow> None)"
| "read_escapes (Suc k) _ = None"

lemma read_escapes_shorter: "read_escapes k s = Some (bs, r) \<Longrightarrow> length r + 3 * k = length s"
  by (induction k s arbitrary: bs r rule: read_escapes.induct) (auto split: option.splits if_splits)

function decodeURIComponent :: "string \<Rightarrow> scope_error + string" where
  "decodeURIComponent [] = Inr []"
| "decodeURIComponent (c # cs) =
     (if c \<noteq> CHR ''%'' then bindR (decodeURIComponent cs) (\<lambda>r. Inr (c # r))
      else case read_escapes 1 (c # cs) of
          None \<Rightarrow> Inl UriError
        | Some (lead, _) \<Rightarrow>
            (case read_escapes (seq_length (hd lead)) (c # cs) of
               None \<Rightarrow> Inl UriError
             | Some (bs, rest) \<Rightarrow>
                 if valid_seq bs then bindR (decodeURIComponent rest) (\<lambda>r. Inr (map char_of bs @ r))
                 else Inl UriError))"
  by pat_completeness auto
termination
  by (relation "measure length") (auto dest!: read_escapes_shorter simp: seq_length_def split: if_splits)

section \<open>The source's operations\<close>

datatype cell_scope = Space | User | Session

record scope_identity =
  principal :: "string option"
  sessionId :: "string option"

text \<open>\<^verbatim>\<open>!component\<close>: absent or the empty string.\<close>

definition missing :: "string option \<Rightarrow> bool" where
  "missing component = (case component of None \<Rightarrow> True | Some s \<Rightarrow> s = [])"

definition startsWith :: "string \<Rightarrow> string \<Rightarrow> bool" where
  "startsWith s pre \<longleftrightarrow> take (length pre) s = pre"

definition encodeScopeKeyPart :: "string \<Rightarrow> scope_error + string" where
  "encodeScopeKeyPart part = encodeURIComponent part"

definition decodeScopeKeyPart :: "string \<Rightarrow> scope_error + string" where
  "decodeScopeKeyPart part = decodeURIComponent part"

definition isCanonicalScopeKeyPart :: "string \<Rightarrow> bool" where
  "isCanonicalScopeKeyPart part =
     (if length part = 0 then False
      else case bindR (decodeScopeKeyPart part) encodeScopeKeyPart of
          Inr s \<Rightarrow> s = part
        | Inl _ \<Rightarrow> False)"

definition resolvePrincipalSessionKey :: "string \<Rightarrow> string \<Rightarrow> scope_error + string" where
  "resolvePrincipalSessionKey p s =
     bindR (encodeScopeKeyPart p) (\<lambda>p'. bindR (encodeScopeKeyPart s) (\<lambda>s'.
       Inr (''session:'' @ p' @ '':'' @ s')))"

definition principalOfSessionKey :: "string \<Rightarrow> string option" where
  "principalOfSessionKey key =
     (if \<not> startsWith key ''session:'' then None
      else let parts = splitOn (CHR '':'') key
           in if length parts \<noteq> 3 then None
              else (case decodeURIComponent (parts ! 1) of Inr p \<Rightarrow> Some p | Inl _ \<Rightarrow> None))"

definition resolveScopeKey :: "cell_scope option \<Rightarrow> scope_identity \<Rightarrow> scope_error + string" where
  "resolveScopeKey scope who =
     (case (case scope of None \<Rightarrow> Space | Some s \<Rightarrow> s) of
        Space \<Rightarrow> Inr ''space''
      | User \<Rightarrow>
          if missing (principal who) then Inl UserNeedsPrincipal
          else bindR (encodeScopeKeyPart (the (principal who))) (\<lambda>p. Inr (''user:'' @ p))
      | Session \<Rightarrow>
          if missing (principal who) then Inl SessionNeedsPrincipal
          else if missing (sessionId who) then Inl SessionNeedsSessionId
          else resolvePrincipalSessionKey (the (principal who)) (the (sessionId who)))"

definition scopeOfScopeKey :: "string \<Rightarrow> cell_scope" where
  "scopeOfScopeKey scopeKey =
     (if startsWith scopeKey ''session:'' then Session
      else if startsWith scopeKey ''user:'' then User
      else Space)"

definition toDirtyKey :: "string \<Rightarrow> string \<Rightarrow> string" where
  "toDirtyKey ident scopeKey = scopeKey @ CHR 0x00 # ident"

definition canResolveScopeKey :: "cell_scope option \<Rightarrow> scope_identity \<Rightarrow> bool" where
  "canResolveScopeKey scope who =
     (case (case scope of None \<Rightarrow> Space | Some s \<Rightarrow> s) of
        Space \<Rightarrow> True
      | User \<Rightarrow> \<not> missing (principal who)
      | Session \<Rightarrow> \<not> missing (principal who) \<and> \<not> missing (sessionId who))"

definition scopeKeyApplicableTo :: "string \<Rightarrow> scope_identity \<Rightarrow> scope_error + bool" where
  "scopeKeyApplicableTo scopeKey who =
     (let scope = scopeOfScopeKey scopeKey
      in if scope = Space then Inr True
         else if \<not> canResolveScopeKey (Some scope) who then Inr False
         else bindR (resolveScopeKey (Some scope) who) (\<lambda>k. Inr (k = scopeKey)))"

definition isScopeKey :: "string \<Rightarrow> bool" where
  "isScopeKey value' =
     (if value' = ''space'' then True
      else if startsWith value' ''user:'' then isCanonicalScopeKeyPart (drop 5 value')
      else if startsWith value' ''session:'' then
        let parts = splitOn (CHR '':'') value'
        in length parts = 3 \<and> isCanonicalScopeKeyPart (parts ! 1) \<and> isCanonicalScopeKeyPart (parts ! 2)
      else False)"

section \<open>Percent coding\<close>

lemma of_char_less: "of_char c < (256 :: nat)"
  by (metis of_char_mod_256 mod_less_divisor zero_less_numeral)

lemma hex_code_upper: "n < 16 \<Longrightarrow> hex_code (hex_upper n) = Some n"
  by (auto simp: hex_code_def hex_upper_def Let_def of_char_of take_bit_eq_mod)

lemma of_char_div_16: "of_char c div 16 < (16 :: nat)"
  by (rule less_mult_imp_div_less) (use of_char_less [of c] in simp)

lemma read_escapes_escape:
  "read_escapes (length s) (concat (map escape s) @ r) = Some (map of_char s, r)"
proof (induction s)
  case (Cons c s)
  have "hex_code (hex_upper (of_char c div 16)) = Some (of_char c div 16)"
    "hex_code (hex_upper (of_char c mod 16)) = Some (of_char c mod 16)"
    by (simp_all only: hex_code_upper of_char_div_16 mod_less_divisor zero_less_numeral)
  then show ?case using Cons.IH by (simp add: escape_def Let_def)
qed simp

lemma valid_seq_length: "valid_seq bs \<Longrightarrow> bs \<noteq> [] \<and> length bs = seq_length (hd bs)"
  by (induction bs rule: valid_seq.induct) (auto simp: seq_length_def)

lemma unreserved_not_percent: "unreserved c \<Longrightarrow> c \<noteq> CHR ''%'' \<and> c \<noteq> CHR '':'' \<and> c \<noteq> CHR ''/'' \<and> c \<noteq> CHR 0x00"
  by (auto simp: unreserved_def)

lemma hex_upper_unreserved: "n < 16 \<Longrightarrow> unreserved (hex_upper n)"
  by (auto simp: unreserved_def hex_upper_def Let_def of_char_of take_bit_eq_mod)

lemma escape_chars: "set (escape c) \<subseteq> {d. unreserved d} \<union> {CHR ''%''}"
  by (simp add: escape_def Let_def hex_upper_unreserved of_char_div_16)

lemma escape_seq_chars: "set (escape_seq s) \<subseteq> {d. unreserved d} \<union> {CHR ''%''}"
proof (cases "list_all unreserved s")
  case False
  have "set (concat (map escape s)) \<subseteq> {d. unreserved d} \<union> {CHR ''%''}"
    unfolding set_concat set_map using escape_chars by blast
  then show ?thesis using False by (simp add: escape_seq_def)
qed (auto simp: escape_seq_def list_all_iff)

lemma unreserved_ascii: "unreserved c \<Longrightarrow> of_char c < (0x80 :: nat)"
  by (auto simp: unreserved_def Let_def)

lemma decode_escape_seq:
  assumes "valid_seq (map of_char s)"
  shows "decodeURIComponent (escape_seq s @ r) = bindR (decodeURIComponent r) (\<lambda>t. Inr (s @ t))"
proof -
  have v: "s \<noteq> []" "length s = seq_length (of_char (hd s))"
    using valid_seq_length [OF assms] by (auto simp: hd_map)
  show ?thesis
  proof (cases "list_all unreserved s")
    case True
    then have "unreserved (hd s)" using v(1) by (cases s) auto
    then have "length s = 1" using v(2) unreserved_ascii by (simp add: seq_length_def)
    then obtain c where "s = [c]" by (auto simp: length_Suc_conv)
    then show ?thesis using True unreserved_not_percent by (simp add: escape_seq_def)
  next
    case False
    obtain c cs where s: "s = c # cs" using v(1) by (cases s) auto
    define e where "e = concat (map escape s) @ r"
    have e: "escape_seq s @ r = e" using False by (simp add: escape_seq_def e_def)
    obtain e' where e': "e = CHR ''%'' # e'" by (simp add: e_def s escape_def Let_def)
    have all: "read_escapes (seq_length (of_char c)) e = Some (map of_char s, r)"
      using read_escapes_escape [of s r] v(2) by (simp add: e_def s)
    have "read_escapes 1 e = Some ([of_char c], concat (map escape cs) @ r)"
      using read_escapes_escape [of "[c]" "concat (map escape cs) @ r"] by (simp add: e_def s)
    then have "decodeURIComponent e = bindR (decodeURIComponent r) (\<lambda>t. Inr (map char_of (map of_char s :: nat list) @ t))"
      using all assms by (subst e', subst decodeURIComponent.simps(2), unfold e' [symmetric]) simp
    then show ?thesis using e by (simp add: comp_def)
  qed
qed

lemma decode_encode: "encodeURIComponent s = Inr e \<Longrightarrow> decodeURIComponent e = Inr s"
proof (induction s arbitrary: e rule: encodeURIComponent.induct)
  case (2 c cs)
  let ?n = "seq_length (of_char c)"
  obtain r where r: "valid_seq (map of_char (take ?n (c # cs)))" "encodeURIComponent (drop ?n (c # cs)) = Inr r"
    "e = escape_seq (take ?n (c # cs)) @ r"
    using "2.prems" by (auto simp: Let_def result_simps simp del: take_Suc_Cons drop_Suc_Cons split: if_splits)
  have "decodeURIComponent r = Inr (drop ?n (c # cs))" using "2.IH" [OF refl refl _ r(2)] r(1) by simp
  then show ?case using decode_escape_seq [OF r(1), of r] r(3) by simp
qed simp

lemma encode_chars: "encodeURIComponent s = Inr e \<Longrightarrow> set e \<subseteq> {d. unreserved d} \<union> {CHR ''%''}"
proof (induction s arbitrary: e rule: encodeURIComponent.induct)
  case (2 c cs)
  let ?n = "seq_length (of_char c)"
  obtain r where r: "valid_seq (map of_char (take ?n (c # cs)))" "encodeURIComponent (drop ?n (c # cs)) = Inr r"
    "e = escape_seq (take ?n (c # cs)) @ r"
    using "2.prems" by (auto simp: Let_def result_simps simp del: take_Suc_Cons drop_Suc_Cons split: if_splits)
  have "set r \<subseteq> {d. unreserved d} \<union> {CHR ''%''}" using "2.IH" [OF refl refl _ r(2)] r(1) by simp
  then show ?case using escape_seq_chars [of "take ?n (c # cs)"] by (auto simp: r(3) simp del: take_Suc_Cons)
qed simp

lemma encode_safe:
  "encodeURIComponent s = Inr e \<Longrightarrow> CHR '':'' \<notin> set e \<and> CHR ''/'' \<notin> set e \<and> CHR 0x00 \<notin> set e"
  using encode_chars unreserved_not_percent by fastforce

lemma encode_inj: "encodeURIComponent s = Inr e \<Longrightarrow> encodeURIComponent t = Inr e \<Longrightarrow> s = t"
proof -
  assume "encodeURIComponent s = Inr e" "encodeURIComponent t = Inr e"
  from this [THEN decode_encode] show "s = t" by simp
qed

lemma encode_empty: "encodeURIComponent s = Inr [] \<longleftrightarrow> s = []"
  using decode_encode [of s "[]"] by auto

lemma canonical_iff: "isCanonicalScopeKeyPart part \<longleftrightarrow> (\<exists>s. s \<noteq> [] \<and> encodeURIComponent s = Inr part)"
proof
  assume c: "isCanonicalScopeKeyPart part"
  then have "part \<noteq> []" by (auto simp: isCanonicalScopeKeyPart_def)
  moreover from c this obtain s where "encodeURIComponent s = Inr part"
    unfolding isCanonicalScopeKeyPart_def encodeScopeKeyPart_def decodeScopeKeyPart_def
    by (cases "bindR (decodeURIComponent part) encodeURIComponent"; cases "decodeURIComponent part") (simp_all add: result_simps)
  moreover from calculation have "s \<noteq> []" by (cases s) simp_all
  ultimately show "\<exists>s. s \<noteq> [] \<and> encodeURIComponent s = Inr part" by blast
next
  assume "\<exists>s. s \<noteq> [] \<and> encodeURIComponent s = Inr part"
  then obtain s where s: "s \<noteq> []" "encodeURIComponent s = Inr part" by blast
  then have "part \<noteq> []" using encode_empty by auto
  then show "isCanonicalScopeKeyPart part"
    using s decode_encode [OF s(2)] by (simp add: isCanonicalScopeKeyPart_def encodeScopeKeyPart_def decodeScopeKeyPart_def)
qed

section \<open>The keys a constructor makes\<close>

abbreviation scope_of :: "cell_scope option \<Rightarrow> cell_scope" where
  "scope_of scope \<equiv> (case scope of None \<Rightarrow> Space | Some s \<Rightarrow> s)"

lemma missing_iff: "\<not> missing component \<longleftrightarrow> (\<exists>s. component = Some s \<and> s \<noteq> [])"
  by (auto simp: missing_def split: option.splits)

text \<open>A key as the constructor builds it, by its scope.\<close>

definition builds :: "cell_scope \<Rightarrow> scope_identity \<Rightarrow> string \<Rightarrow> bool" where
  "builds scope who k =
     (case scope of
        Space \<Rightarrow> k = ''space''
      | User \<Rightarrow> \<exists>p e. principal who = Some p \<and> p \<noteq> [] \<and> encodeURIComponent p = Inr e \<and> k = ''user:'' @ e
      | Session \<Rightarrow> \<exists>p e s f. principal who = Some p \<and> p \<noteq> [] \<and> encodeURIComponent p = Inr e
          \<and> sessionId who = Some s \<and> s \<noteq> [] \<and> encodeURIComponent s = Inr f \<and> k = ''session:'' @ e @ '':'' @ f)"

lemma resolve_builds: "resolveScopeKey scope who = Inr k \<longleftrightarrow> builds (scope_of scope) who k"
proof (cases "scope_of scope")
  case User
  then show ?thesis
    by (cases "principal who") (auto simp: resolveScopeKey_def builds_def missing_def encodeScopeKeyPart_def result_simps)
next
  case Session
  then show ?thesis
    by (cases "principal who"; cases "sessionId who")
      (auto simp: resolveScopeKey_def builds_def missing_def encodeScopeKeyPart_def resolvePrincipalSessionKey_def result_simps)
qed (auto simp: resolveScopeKey_def builds_def)

lemma builds_scope: "builds scope who k \<Longrightarrow> scopeOfScopeKey k = scope"
  by (cases scope) (auto simp: builds_def scopeOfScopeKey_def startsWith_def)

lemma session_parts:
  assumes "encodeURIComponent p = Inr e" "encodeURIComponent s = Inr f"
  shows "splitOn (CHR '':'') (''session:'' @ e @ '':'' @ f) = [''session'', e, f]"
proof -
  have "splitOn (CHR '':'') (''session'' @ CHR '':'' # e @ CHR '':'' # f) = ''session'' # splitOn (CHR '':'') (e @ CHR '':'' # f)"
    by (rule splitOn_append_sep) simp
  also have "\<dots> = [''session'', e, f]"
    using encode_safe [OF assms(1)] encode_safe [OF assms(2)] by (simp add: splitOn_append_sep splitOn_no_sep)
  finally show ?thesis by simp
qed

lemma split_parts: "splitOn sep s = [a, b, c] \<Longrightarrow> s = a @ sep # b @ sep # c"
proof (induction s arbitrary: a)
  case (Cons d s)
  then obtain g gs where g: "splitOn sep s = g # gs" by (cases "splitOn sep s") auto
  show ?case
  proof (cases "d = sep")
    case True
    then have "splitOn sep s = [b, c]" "a = []" using Cons.prems g by auto
    moreover have "splitOn sep s = [b, c] \<Longrightarrow> s = b @ sep # c"
    proof (induction s arbitrary: b)
      case (Cons d s)
      then obtain g gs where g: "splitOn sep s = g # gs" by (cases "splitOn sep s") auto
      have one: "splitOn sep t = [c] \<Longrightarrow> t = c" for t
        by (induction t arbitrary: c) (auto split: list.splits if_splits)
      show ?case using Cons g one by (cases "d = sep") auto
    qed simp
    ultimately show ?thesis using True by simp
  next
    case False
    then show ?thesis using Cons g by auto
  qed
qed simp

lemma startsWith_iff: "startsWith s pre \<longleftrightarrow> (\<exists>t. s = pre @ t)"
  unfolding startsWith_def by (metis append_eq_conv_conj append_take_drop_id)

lemma session_built:
  assumes "startsWith k ''session:''" "splitOn (CHR '':'') k = [a, e, f]"
  shows "k = ''session:'' @ e @ '':'' @ f"
proof -
  obtain t where t: "k = ''session'' @ CHR '':'' # t"
    using assms(1) by (auto simp: startsWith_iff)
  have "splitOn (CHR '':'') k = ''session'' # splitOn (CHR '':'') t"
    unfolding t by (rule splitOn_append_sep) simp
  then have "a = ''session''" using assms(2) by simp
  then show ?thesis using split_parts [OF assms(2)] by simp
qed

lemma isScopeKey_iff: "isScopeKey k \<longleftrightarrow> (\<exists>scope who. builds scope who k)"
proof
  assume k: "isScopeKey k"
  then consider "k = ''space''" | e where "k = ''user:'' @ e" "isCanonicalScopeKeyPart e"
    | a e f where "startsWith k ''session:''" "splitOn (CHR '':'') k = [a, e, f]" "isCanonicalScopeKeyPart e" "isCanonicalScopeKeyPart f"
    by (auto simp: isScopeKey_def startsWith_iff Let_def length_Suc_conv eval_nat_numeral split: if_splits)
  then show "\<exists>scope who. builds scope who k"
  proof cases
    case 1
    then have "builds Space who k" for who by (simp add: builds_def)
    then show ?thesis by blast
  next
    case (2 e)
    then obtain p where p: "p \<noteq> []" "encodeURIComponent p = Inr e" by (auto simp: canonical_iff)
    then have "builds User \<lparr>principal = Some p, sessionId = None\<rparr> k" using 2(1) by (simp add: builds_def)
    then show ?thesis by blast
  next
    case (3 a e f)
    then obtain p s where p: "p \<noteq> []" "encodeURIComponent p = Inr e" "s \<noteq> []" "encodeURIComponent s = Inr f"
      by (auto simp: canonical_iff)
    then have "builds Session \<lparr>principal = Some p, sessionId = Some s\<rparr> k"
      using session_built [OF 3(1,2)] by (simp add: builds_def)
    then show ?thesis by blast
  qed
next
  assume "\<exists>scope who. builds scope who k"
  then obtain scope who where b: "builds scope who k" by blast
  show "isScopeKey k"
  proof (cases scope)
    case Space
    then show ?thesis using b by (simp add: builds_def isScopeKey_def)
  next
    case User
    then show ?thesis using b by (auto simp: builds_def isScopeKey_def startsWith_def canonical_iff)
  next
    case Session
    then obtain p e s f where s: "p \<noteq> []" "encodeURIComponent p = Inr e" "s \<noteq> []" "encodeURIComponent s = Inr f"
      "k = ''session:'' @ e @ '':'' @ f"
      using b by (auto simp: builds_def)
    have "startsWith k ''session:''" "\<not> startsWith k ''user:''" "k \<noteq> ''space''" by (simp_all add: s(5) startsWith_def)
    then show ?thesis
      using session_parts [OF s(2,4)] s by (auto simp: isScopeKey_def canonical_iff)
  qed
qed

lemma builds_same:
  assumes "builds scope who k" "builds scope who' k"
  shows "scope \<noteq> Space \<Longrightarrow> principal who' = principal who" "scope = Session \<Longrightarrow> sessionId who' = sessionId who"
proof -
  have "(scope \<noteq> Space \<longrightarrow> principal who' = principal who) \<and> (scope = Session \<longrightarrow> sessionId who' = sessionId who)"
  proof (cases scope)
    case User
    then show ?thesis using assms encode_inj by (auto simp: builds_def)
  next
    case Session
    then obtain p e s f where
      a: "principal who = Some p" "encodeURIComponent p = Inr e" "sessionId who = Some s" "encodeURIComponent s = Inr f"
        "k = ''session:'' @ e @ '':'' @ f"
      using assms(1) by (auto simp: builds_def)
    obtain p' e' s' f' where
      b: "principal who' = Some p'" "encodeURIComponent p' = Inr e'" "sessionId who' = Some s'" "encodeURIComponent s' = Inr f'"
        "k = ''session:'' @ e' @ '':'' @ f'"
      using assms(2) Session by (auto simp: builds_def)
    have "[''session'', e, f] = [''session'', e', f']"
      using session_parts [OF a(2,4)] session_parts [OF b(2,4)] unfolding a(5) [symmetric] b(5) [symmetric] by (rule trans [OF sym])
    then have "e = e'" "f = f'" by simp_all
    then have "p = p'" "s = s'" using encode_inj [OF a(2)] encode_inj [OF a(4)] b(2,4) by blast+
    then show ?thesis using a(1,3) b(1,3) by simp
  qed simp
  then show "scope \<noteq> Space \<Longrightarrow> principal who' = principal who" "scope = Session \<Longrightarrow> sessionId who' = sessionId who" by blast+
qed

lemma builds_no_nul: "builds scope who k \<Longrightarrow> CHR 0x00 \<notin> set k"
  by (cases scope) (auto simp: builds_def dest: encode_safe)

lemma split_at_first: "x \<notin> set a \<Longrightarrow> x \<notin> set b \<Longrightarrow> a @ x # c = b @ x # d \<Longrightarrow> a = b \<and> c = d"
  by (induction a arbitrary: b) (case_tac b; auto)+

section \<open>Properties\<close>

text \<open>C37. A scope key names one instance: two constructions that give the same key were of the same
  scope, for the same principal where the scope is not the space, and for the same session where it is a
  session. The key is recognised by \<^verbatim>\<open>isScopeKey\<close>, reads back as its scope, and a session's key gives
  its principal back.\<close>

theorem scope_key_names_one_instance:
  assumes "resolveScopeKey scope who = Inr k" and "resolveScopeKey scope' who' = Inr k"
  shows "scope_of scope' = scope_of scope \<and> scopeOfScopeKey k = scope_of scope \<and> isScopeKey k
    \<and> (if scope_of scope = Space then True else principal who' = principal who)
    \<and> (if scope_of scope = Session then sessionId who' = sessionId who \<and> principalOfSessionKey k = principal who else True)"
proof -
  have b: "builds (scope_of scope) who k" "builds (scope_of scope') who' k" using assms by (simp_all only: resolve_builds)
  have s: "scope_of scope' = scope_of scope" using builds_scope [OF b(1)] builds_scope [OF b(2)] by simp
  have "principalOfSessionKey k = principal who" if session: "scope_of scope = Session"
  proof -
    obtain p e s f where p: "principal who = Some p" "encodeURIComponent p = Inr e" "encodeURIComponent s = Inr f"
      "k = ''session:'' @ e @ '':'' @ f"
      using b(1) [unfolded session] by (auto simp: builds_def)
    show ?thesis
      using session_parts [OF p(2,3)] p decode_encode [OF p(2)] by (simp add: principalOfSessionKey_def startsWith_def)
  qed
  then show ?thesis
    using s builds_scope [OF b(1)] b(1) isScopeKey_iff builds_same [OF b(1) b(2) [unfolded s]] by auto
qed

theorem scope_key_names_one_instance_witness:
  "principalOfSessionKey ''session:did%3Akey:a%20b'' = Some ''did:key'' \<and> isScopeKey ''session:did%3Akey:a%20b''"
proof -
  have r: "resolveScopeKey (Some Session) \<lparr>principal = Some ''did:key'', sessionId = Some ''a b''\<rparr> = Inr ''session:did%3Akey:a%20b''"
    by code_simp
  from scope_key_names_one_instance [OF r r] show ?thesis by simp
qed

text \<open>\<^verbatim>\<open>isScopeKey\<close> accepts exactly the strings \<^verbatim>\<open>resolveScopeKey\<close> can construct: no other
  spelling of an identity, and no malformed or non-canonical escape.\<close>

theorem is_scope_key_iff_constructed:
  "isScopeKey k \<longleftrightarrow> (\<exists>scope who. resolveScopeKey scope who = Inr k)"
proof -
  have "(\<exists>scope who. resolveScopeKey scope who = Inr k) \<longleftrightarrow> (\<exists>scope who. builds scope who k)"
    unfolding resolve_builds by (metis option.simps(5))
  then show ?thesis by (simp only: isScopeKey_iff)
qed

text \<open>A scope key is applicable to an identity exactly when that identity can construct it, in
  some scope; deciding it throws only where the identity itself cannot be encoded.\<close>

theorem scope_key_applicable_iff:
  assumes "isScopeKey k"
  shows "(scopeKeyApplicableTo k who = Inr True \<longleftrightarrow> (\<exists>scope. resolveScopeKey scope who = Inr k))
    \<and> (case scopeKeyApplicableTo k who of Inl e \<Rightarrow> e = UriError | Inr _ \<Rightarrow> True)"
proof
  obtain sc w where b: "builds sc w k" using assms isScopeKey_iff by blast
  have sc: "scopeOfScopeKey k = sc" by (rule builds_scope [OF b])
  have own: "(\<exists>scope. resolveScopeKey scope who = Inr k) \<longleftrightarrow> resolveScopeKey (Some sc) who = Inr k"
    using builds_scope sc unfolding resolve_builds by (metis option.simps(5))
  have can: "canResolveScopeKey (Some sc) who" if "resolveScopeKey (Some sc) who = Inr k"
    using that by (cases sc) (auto simp: resolveScopeKey_def canResolveScopeKey_def split: if_splits)
  have space: "resolveScopeKey (Some Space) who = Inr k" if "sc = Space"
    using b that by (simp add: builds_def resolveScopeKey_def)
  show "scopeKeyApplicableTo k who = Inr True \<longleftrightarrow> (\<exists>scope. resolveScopeKey scope who = Inr k)"
    using own can space by (auto simp: scopeKeyApplicableTo_def sc Let_def result_simps)
  have enc: "encodeURIComponent s = Inl e \<Longrightarrow> e = UriError" for s e
    by (induction s arbitrary: e rule: encodeURIComponent.induct)
      (auto simp: Let_def result_simps simp del: take_Suc_Cons drop_Suc_Cons split: if_splits)
  have "canResolveScopeKey (Some sc) who \<Longrightarrow> resolveScopeKey (Some sc) who = Inl e \<Longrightarrow> e = UriError" for e
    using enc by (cases sc) (auto simp: canResolveScopeKey_def resolveScopeKey_def encodeScopeKeyPart_def
        resolvePrincipalSessionKey_def result_simps)
  then show "case scopeKeyApplicableTo k who of Inl e \<Rightarrow> e = UriError | Inr _ \<Rightarrow> True"
    by (cases "resolveScopeKey (Some sc) who") (simp_all add: scopeKeyApplicableTo_def sc Let_def)
qed

theorem scope_key_applicable_iff_witness:
  "scopeKeyApplicableTo ''user:alice'' \<lparr>principal = Some ''alice'', sessionId = None\<rparr> = Inr True"
proof -
  have k: "isScopeKey ''user:alice''" by code_simp
  have "resolveScopeKey (Some User) \<lparr>principal = Some ''alice'', sessionId = None\<rparr> = Inr ''user:alice''" by code_simp
  then show ?thesis using scope_key_applicable_iff [OF k] by blast
qed

text \<open>A dirty key determines the document and the scope key it was made of, whatever bytes the
  document's identifier holds.\<close>

theorem dirty_key_injective:
  assumes "isScopeKey k" and "isScopeKey k'" and "toDirtyKey ident k = toDirtyKey ident' k'"
  shows "k = k' \<and> ident = ident'"
proof -
  have "CHR 0x00 \<notin> set k" "CHR 0x00 \<notin> set k'" using assms(1,2) builds_no_nul unfolding isScopeKey_iff by blast+
  from split_at_first [OF this assms(3) [unfolded toDirtyKey_def]] show ?thesis .
qed

theorem dirty_key_injective_witness: "isScopeKey ''space'' \<and> toDirtyKey ''of:a'' ''space'' = ''space'' @ CHR 0x00 # ''of:a''"
proof -
  have k: "isScopeKey ''space''" by code_simp
  from dirty_key_injective [OF k k refl, of "''of:a''"] show ?thesis using k by (simp add: toDirtyKey_def)
qed

end
