(* ===== verification/ReadValidation.thy ===== *)
theory ReadValidation
  imports Conflicts ScopeKey
begin

text \<open>
  The read validation of a commit (\<^verbatim>\<open>runtime/memory/v2/engine.ts\<close>): the shape checks of its reads,
  the staleness check of its confirmed reads and the resolution of its pending ones, and the check a
  wave commit makes of a served handler's reads. A sequence number on the wire is \<open>WInt\<close> where it is
  an integer other than minus zero and \<open>WOther\<close> where it is anything else; a path on the wire is a
  value. The tables are lists of rows, and a stored commit is modelled by the layer it decodes to.
  The messages of the errors are left out; what they carry is not.
\<close>

section \<open>Reads, commits and errors\<close>

datatype wire_number = WInt int | WOther fval

datatype local_seqs = Scalar wire_number | Many "wire_number list"

record confirmed_read =
  cr_id :: string
  cr_scope :: "cell_scope option"
  cr_branch :: "string option"
  cr_path :: fval
  cr_seq :: wire_number
  cr_nonRecursive :: "bool option"

record pending_read =
  pr_id :: string
  pr_scope :: "cell_scope option"
  pr_path :: fval
  pr_localSeq :: local_seqs
  pr_basisSeq :: "wire_number option"
  pr_nonRecursive :: "bool option"

record layer_op =
  lo_op :: string
  lo_id :: string
  lo_scope :: "cell_scope option"

record layer =
  l_operations :: "layer_op list"
  l_confirmed :: "confirmed_read list"
  l_pending :: "pending_read list"

record commit_row =
  c_session :: string
  c_local_seq :: int
  c_seq :: nat
  c_branch :: string
  c_original :: layer

record engine =
  tables :: store
  branches :: "string list"
  commits :: "commit_row list"
  serverSeq :: int

record read_conflict =
  conflict_of :: string
  conflict_scope :: cell_scope
  conflict_branch :: "string option" \<comment> \<open>absent for the default branch\<close>
  conflict_read_seq :: nat
  conflictSeq :: nat

datatype commit_error =
    MalformedPath string
  | MalformedSeq string
  | MalformedBasis string
  | BasisAheadOfLog string
  | NoLocalSeq string
  | MalformedLocalSeq string
  | UnknownBranch string
  | ScopeRefused scope_error
  | UnreadablePatch patch_error
  | DependencyUnresolved int
  | StaleConfirmed "read_conflict list"
  | StalePending read_conflict

definition DEFAULT_BRANCH :: string where "DEFAULT_BRANCH = ''''"

definition liftR :: "('e \<Rightarrow> 'f) \<Rightarrow> 'e + 'a \<Rightarrow> 'f + 'a" where
  "liftR f r = (case r of Inl e \<Rightarrow> Inl (f e) | Inr x \<Rightarrow> Inr x)"

section \<open>The shape of a read\<close>

fun segments :: "fval option list \<Rightarrow> path option" where
  "segments [] = Some []"
| "segments (Some (FStr s) # xs) = map_option (\<lambda>p. s # p) (segments xs)"
| "segments (_ # xs) = None"

definition requireReadPath :: "string \<Rightarrow> fval \<Rightarrow> commit_error + path" where
  "requireReadPath ident path =
     (case path of
        FArr xs \<Rightarrow> (case segments xs of Some p \<Rightarrow> Inr p | None \<Rightarrow> Inl (MalformedPath ident))
      | _ \<Rightarrow> Inl (MalformedPath ident))"

definition isLogSeq :: "wire_number \<Rightarrow> bool" where
  "isLogSeq seq = (case seq of WInt n \<Rightarrow> 0 \<le> n \<and> n \<le> 9007199254740991 | WOther _ \<Rightarrow> False)"

definition requireConfirmedReadSeq :: "confirmed_read \<Rightarrow> commit_error + unit" where
  "requireConfirmedReadSeq read = (if isLogSeq (cr_seq read) then Inr () else Inl (MalformedSeq (cr_id read)))"

fun ahead_of :: "wire_number \<Rightarrow> int \<Rightarrow> bool" where
  "ahead_of (WInt n) m = (n > m)"
| "ahead_of (WOther _) m = False"

definition requirePendingReadBasisSeq :: "engine \<Rightarrow> pending_read \<Rightarrow> commit_error + unit" where
  "requirePendingReadBasisSeq engine read =
     (case pr_basisSeq read of
        None \<Rightarrow> Inr ()
      | Some basisSeq \<Rightarrow>
          if \<not> isLogSeq basisSeq then Inl (MalformedBasis (pr_id read))
          else if ahead_of basisSeq (serverSeq engine) then Inl (BasisAheadOfLog (pr_id read))
          else Inr ())"

fun layer_list :: "local_seqs \<Rightarrow> wire_number list" where
  "layer_list (Scalar w) = [w]"
| "layer_list (Many ws) = ws"

fun integers :: "wire_number list \<Rightarrow> int list option" where
  "integers [] = Some []"
| "integers (WInt n # ws) = map_option (\<lambda>ns. n # ns) (integers ws)"
| "integers (WOther _ # ws) = None"

definition pendingReadLayers :: "pending_read \<Rightarrow> commit_error + int list" where
  "pendingReadLayers read =
     (let layers = layer_list (pr_localSeq read)
      in if layers = [] then Inl (NoLocalSeq (pr_id read))
         else case integers layers of None \<Rightarrow> Inl (MalformedLocalSeq (pr_id read)) | Some ns \<Rightarrow> Inr ns)"

text \<open>The checks \<^verbatim>\<open>applyCommitTransaction\<close> makes of every read before any read's staleness.\<close>

definition checkReads :: "engine \<Rightarrow> confirmed_read list \<Rightarrow> pending_read list \<Rightarrow> commit_error + unit" where
  "checkReads engine confirmed pending =
     bindR (mapR (\<lambda>read. bindR (requireReadPath (cr_id read) (cr_path read)) (\<lambda>_. requireConfirmedReadSeq read)) confirmed) (\<lambda>_.
     bindR (mapR (\<lambda>read. bindR (requireReadPath (pr_id read) (pr_path read)) (\<lambda>_.
              bindR (pendingReadLayers read) (\<lambda>_. requirePendingReadBasisSeq engine read))) pending) (\<lambda>_.
     Inr ()))"

text \<open>A path and a sequence number past those checks.\<close>

definition path_of :: "fval \<Rightarrow> path" where
  "path_of v = (case requireReadPath [] v of Inr p \<Rightarrow> p | Inl _ \<Rightarrow> [])"

fun seq_of :: "wire_number \<Rightarrow> nat" where
  "seq_of (WInt n) = nat n"
| "seq_of (WOther _) = 0"

section \<open>Confirmed reads\<close>

definition requireBranch :: "engine \<Rightarrow> string \<Rightarrow> commit_error + unit" where
  "requireBranch engine branch = (if branch \<in> set (branches engine) then Inr () else Inl (UnknownBranch branch))"

fun confirmed_loop ::
    "engine \<Rightarrow> string \<Rightarrow> scope_identity \<Rightarrow> scans \<Rightarrow> (string \<times> string \<times> string) list \<Rightarrow> read_conflict list
       \<Rightarrow> confirmed_read list \<Rightarrow> commit_error + (scans \<times> read_conflict list)" where
  "confirmed_loop engine branch who scans staleInstances conflicts [] = Inr (scans, conflicts)"
| "confirmed_loop engine branch who scans staleInstances conflicts (read # reads) =
     (let readBranch = (case cr_branch read of Some b \<Rightarrow> b | None \<Rightarrow> branch) in
      bindR (requireBranch engine readBranch) (\<lambda>_.
      bindR (liftR ScopeRefused (resolveScopeKey (cr_scope read) who)) (\<lambda>scopeKey.
        if (readBranch, scopeKey, cr_id read) \<in> set staleInstances then
          confirmed_loop engine branch who scans staleInstances conflicts reads
        else
          bindR (liftR UnreadablePatch
              (findConflictSeq (tables engine) scans (FStr readBranch) (FStr (cr_id read)) scopeKey (seq_of (cr_seq read))
                 (path_of (cr_path read)) (case cr_nonRecursive read of Some b \<Rightarrow> b | None \<Rightarrow> False) None)) (\<lambda>(found, scans').
            case found of
              None \<Rightarrow> confirmed_loop engine branch who scans' staleInstances conflicts reads
            | Some s \<Rightarrow>
                confirmed_loop engine branch who scans' ((readBranch, scopeKey, cr_id read) # staleInstances)
                  (conflicts @ [\<lparr>conflict_of = cr_id read,
                                 conflict_scope = (case cr_scope read of None \<Rightarrow> Space | Some sc \<Rightarrow> sc),
                                 conflict_branch = (if readBranch = DEFAULT_BRANCH then None else Some readBranch),
                                 conflict_read_seq = seq_of (cr_seq read), conflictSeq = s\<rparr>]) reads))))"

definition validateConfirmedReads ::
    "engine \<Rightarrow> scans \<Rightarrow> string \<Rightarrow> confirmed_read list \<Rightarrow> scope_identity \<Rightarrow> commit_error + scans" where
  "validateConfirmedReads engine scans branch reads who =
     bindR (confirmed_loop engine branch who scans [] [] reads) (\<lambda>(scans', conflicts).
       if length conflicts > 0 then Inl (StaleConfirmed conflicts) else Inr scans')"

section \<open>Pending reads\<close>

text \<open>\<^verbatim>\<open>resolutions\<close> is a map from a layer to the sequence number its commit was accepted at, in the
  order the layers were first resolved.\<close>

definition selectCommit :: "engine \<Rightarrow> string \<Rightarrow> int \<Rightarrow> commit_row option" where
  "selectCommit engine session localSeq =
     find (\<lambda>c. c_session c = session \<and> c_local_seq c = localSeq) (commits engine)"

fun resolve_layers ::
    "engine \<Rightarrow> string \<Rightarrow> (int \<times> nat) list \<Rightarrow> (int \<times> nat) option \<Rightarrow> int list
       \<Rightarrow> commit_error + ((int \<times> nat) list \<times> (int \<times> nat) option)" where
  "resolve_layers engine session resolutions basis [] = Inr (resolutions, basis)"
| "resolve_layers engine session resolutions basis (localSeq # layers) =
     bindR (case map_of resolutions localSeq of
              Some seq \<Rightarrow> Inr (seq, resolutions)
            | None \<Rightarrow> (case selectCommit engine session localSeq of
                 None \<Rightarrow> Inl (DependencyUnresolved localSeq)
               | Some row \<Rightarrow> Inr (c_seq row, resolutions @ [(localSeq, c_seq row)]))) (\<lambda>(seq, resolutions').
       resolve_layers engine session resolutions'
         (case basis of
            None \<Rightarrow> Some (localSeq, seq)
          | Some (l, _) \<Rightarrow> if localSeq > l then Some (localSeq, seq) else basis) layers)"

definition sameDocument :: "pending_read \<Rightarrow> string \<Rightarrow> cell_scope option \<Rightarrow> bool" where
  "sameDocument read ident scope \<longleftrightarrow> ident = pr_id read \<and> scope_of scope = scope_of (pr_scope read)"

text \<open>The indexes of a layer's operations on the document, or nothing where one of them cannot be
  replayed.\<close>

fun replayable_ops :: "pending_read \<Rightarrow> nat \<Rightarrow> layer_op list \<Rightarrow> nat list option" where
  "replayable_ops read i [] = Some []"
| "replayable_ops read i (operation # ops) =
     (if lo_op operation = ''sqlite'' \<or> \<not> sameDocument read (lo_id operation) (lo_scope operation) then
        replayable_ops read (Suc i) ops
      else if lo_op operation \<noteq> ''set'' \<and> lo_op operation \<noteq> ''patch'' then None
      else map_option (\<lambda>is. i # is) (replayable_ops read (Suc i) ops))"

fun every_layer :: "int list \<Rightarrow> commit_error + int list \<Rightarrow> commit_error + bool" where
  "every_layer layers r = bindR r (\<lambda>named. Inr (list_all (\<lambda>n. n \<in> set layers) named))"

definition viewIsProved :: "string \<Rightarrow> pending_read \<Rightarrow> int list \<Rightarrow> layer \<Rightarrow> nat \<Rightarrow> commit_error + bool" where
  "viewIsProved branch read layers layer first =
     (let provedPending = find (\<lambda>r. sameDocument read (pr_id r) (pr_scope r)) (l_pending layer);
          provedConfirmed =
            (if provedPending = None then
               find (\<lambda>r. sameDocument read (cr_id r) (cr_scope r)
                         \<and> (case cr_branch r of Some b \<Rightarrow> b | None \<Rightarrow> branch) = branch) (l_confirmed layer)
             else None);
          confirmed = (case provedConfirmed of None \<Rightarrow> False | Some r \<Rightarrow> Some (cr_seq r) = pr_basisSeq read)
      in if lo_op (l_operations layer ! first) = ''set'' then Inr True
         else case provedPending of
             Some r \<Rightarrow>
               if pr_basisSeq r = pr_basisSeq read then
                 bindR (every_layer layers (pendingReadLayers r)) (\<lambda>all. Inr (all \<or> confirmed))
               else Inr confirmed
           | None \<Rightarrow> Inr confirmed)"

fun identity_loop ::
    "engine \<Rightarrow> string \<Rightarrow> string \<Rightarrow> pending_read \<Rightarrow> int list \<Rightarrow> nat \<Rightarrow> int list \<Rightarrow> commit_error + nat" where
  "identity_loop engine session branch read layers identityBasis [] = Inr identityBasis"
| "identity_loop engine session branch read layers identityBasis (localSeq # ls) =
     (case selectCommit engine session localSeq of
        None \<Rightarrow> identity_loop engine session branch read layers identityBasis ls
      | Some row \<Rightarrow>
          if c_seq row \<le> identityBasis \<or> (if c_branch row = [] then DEFAULT_BRANCH else c_branch row) \<noteq> branch then
            identity_loop engine session branch read layers identityBasis ls
          else
            let opIndexes = replayable_ops read 0 (l_operations (c_original row));
                written = map rev_op_index (filter (\<lambda>r. rev_commit_seq r = c_seq row) (revisions (tables engine)))
            in case opIndexes of
                None \<Rightarrow> identity_loop engine session branch read layers identityBasis ls
              | Some [] \<Rightarrow> identity_loop engine session branch read layers identityBasis ls
              | Some (i # is) \<Rightarrow>
                  if list_ex (\<lambda>j. j \<in> set written) (i # is) then
                    identity_loop engine session branch read layers identityBasis ls
                  else
                    bindR (viewIsProved branch read layers (c_original row) i) (\<lambda>proved.
                      identity_loop engine session branch read layers (if proved then c_seq row else identityBasis) ls))"

definition identityLayerBasis ::
    "engine \<Rightarrow> string \<Rightarrow> string \<Rightarrow> pending_read \<Rightarrow> int list \<Rightarrow> commit_error + nat" where
  "identityLayerBasis engine session branch read layers =
     identity_loop engine session branch read layers (case pr_basisSeq read of Some w \<Rightarrow> seq_of w | None \<Rightarrow> 0) layers"

text \<open>The staleness check of one pending read.\<close>

definition pending_scan ::
    "engine \<Rightarrow> scans \<Rightarrow> string \<Rightarrow> scope_identity \<Rightarrow> string \<Rightarrow> pending_read \<Rightarrow> nat \<Rightarrow> exclusion option
       \<Rightarrow> commit_error + (nat option \<times> scans)" where
  "pending_scan engine scans session who branch read afterSeq exclude =
     bindR (liftR ScopeRefused (resolveScopeKey (pr_scope read) who)) (\<lambda>scopeKey.
       liftR UnreadablePatch
         (findConflictSeq (tables engine) scans (FStr branch) (FStr (pr_id read)) scopeKey afterSeq (path_of (pr_path read))
            (case pr_nonRecursive read of Some b \<Rightarrow> b | None \<Rightarrow> False) exclude))"

definition pending_conflict ::
    "engine \<Rightarrow> scans \<Rightarrow> string \<Rightarrow> scope_identity \<Rightarrow> string \<Rightarrow> pending_read \<Rightarrow> int list \<Rightarrow> nat
       \<Rightarrow> commit_error + (nat option \<times> scans)" where
  "pending_conflict engine scans session who branch read layers basis =
     (let exclude = Some \<lparr>sessionKey = session, namedLocalSeqs = layers\<rparr> in
      case pr_basisSeq read of
        None \<Rightarrow> pending_scan engine scans session who branch read basis None
      | Some trueBasis \<Rightarrow>
          bindR (pending_scan engine scans session who branch read (seq_of trueBasis) exclude) (\<lambda>(found, scans').
            if found = None then Inr (found, scans')
            else
              bindR (identityLayerBasis engine session branch read layers) (\<lambda>identityBasis.
                if identityBasis > seq_of trueBasis then
                  pending_scan engine scans' session who branch read identityBasis exclude
                else Inr (found, scans'))))"

fun pending_loop ::
    "engine \<Rightarrow> scans \<Rightarrow> string \<Rightarrow> scope_identity \<Rightarrow> string \<Rightarrow> bool \<Rightarrow> (int \<times> nat) list \<Rightarrow> pending_read list
       \<Rightarrow> commit_error + ((int \<times> nat) list \<times> scans)" where
  "pending_loop engine scans session who branch checkStaleness resolutions [] = Inr (resolutions, scans)"
| "pending_loop engine scans session who branch checkStaleness resolutions (read # reads) =
     bindR (pendingReadLayers read) (\<lambda>layers.
     bindR (resolve_layers engine session resolutions None layers) (\<lambda>(resolutions', basis).
       if \<not> checkStaleness then pending_loop engine scans session who branch checkStaleness resolutions' reads
       else
         let basisSeq = snd (the basis) in
         bindR (pending_conflict engine scans session who branch read layers basisSeq) (\<lambda>(found, scans').
           case found of
             Some s \<Rightarrow>
               Inl (StalePending
                 \<lparr>conflict_of = pr_id read, conflict_scope = scope_of (pr_scope read),
                  conflict_branch = (if branch = DEFAULT_BRANCH then None else Some branch),
                  conflict_read_seq = (case pr_basisSeq read of Some w \<Rightarrow> seq_of w | None \<Rightarrow> basisSeq), conflictSeq = s\<rparr>)
           | None \<Rightarrow> pending_loop engine scans' session who branch checkStaleness resolutions' reads)))"

definition resolvePendingReads ::
    "engine \<Rightarrow> scans \<Rightarrow> string \<Rightarrow> scope_identity \<Rightarrow> string \<Rightarrow> pending_read list \<Rightarrow> bool \<Rightarrow> commit_error + (int \<times> nat) list" where
  "resolvePendingReads engine scans session who branch reads checkStaleness =
     bindR (pending_loop engine scans session who branch checkStaleness [] reads)
       (\<lambda>(resolutions, _). Inr (sort_key fst resolutions))"

section \<open>A wave's reads\<close>

text \<open>\<^verbatim>\<open>NOT (:holder IS NOT NULL AND c.class = 'derived' AND c.holder IS :holder)\<close>.\<close>

definition notHoldersOwnDerived :: "string option \<Rightarrow> revision \<Rightarrow> bool" where
  "notHoldersOwnDerived holder r \<longleftrightarrow> \<not> (holder \<noteq> None \<and> rev_class r = ''derived'' \<and> rev_holder r = holder)"

definition hasIntrusionSince :: "store \<Rightarrow> string option \<Rightarrow> string \<Rightarrow> string \<Rightarrow> nat \<Rightarrow> string option \<Rightarrow> bool" where
  "hasIntrusionSince db branch ident scopeKey sinceSeq holder =
     list_ex (notHoldersOwnDerived holder)
       (document_rows db (FStr (case branch of Some b \<Rightarrow> b | None \<Rightarrow> DEFAULT_BRANCH)) (FStr ident) scopeKey sinceSeq)"

fun stale_scan :: "path \<Rightarrow> bool \<Rightarrow> (patch_op \<Rightarrow> bool) \<Rightarrow> revision list \<Rightarrow> patch_error + nat option" where
  "stale_scan path nonRecursive commutes [] = Inr None"
| "stale_scan path nonRecursive commutes (row # rows) =
     (if \<not> isPatchRevision row then Inr (Some (rev_seq row))
      else
        let patches = filter (\<lambda>patch. \<not> commutes patch) (patches_of row) in
        bindR (if nonRecursive then patchOverlapsNonRecursiveRead patches path else patchOverlapsRead patches path) (\<lambda>overlaps.
          if overlaps then Inr (Some (rev_seq row)) else stale_scan path nonRecursive commutes rows))"

definition findStaleReadSeq ::
    "store \<Rightarrow> string option \<Rightarrow> string \<Rightarrow> string \<Rightarrow> nat \<Rightarrow> path \<Rightarrow> bool \<Rightarrow> string option \<Rightarrow> (patch_op \<Rightarrow> bool)
       \<Rightarrow> patch_error + nat option" where
  "findStaleReadSeq db branch ident scopeKey afterSeq path nonRecursive holder commutes =
     stale_scan path nonRecursive commutes
       (newest_first (filter (notHoldersOwnDerived holder)
         (document_rows db (FStr (case branch of Some b \<Rightarrow> b | None \<Rightarrow> DEFAULT_BRANCH)) (FStr ident) scopeKey afterSeq)))"

definition isStreamTailAppend :: "patch_op \<Rightarrow> patch_error + bool" where
  "isStreamTailAppend patch =
     (case patch of
        Append p _ _ \<Rightarrow> bindR (pointer p) (\<lambda>path. Inr (length path = 2 \<and> path ! 0 = ''value'' \<and> path ! 1 = ''entries''))
      | AddUnique p _ _ \<Rightarrow> bindR (pointer p) (\<lambda>path. Inr (length path = 2 \<and> path ! 0 = ''value'' \<and> path ! 1 = ''entries''))
      | _ \<Rightarrow> Inr False)"

section \<open>What the confirmed reads are checked against\<close>

definition read_branch :: "string \<Rightarrow> confirmed_read \<Rightarrow> string" where
  "read_branch branch read = (case cr_branch read of Some b \<Rightarrow> b | None \<Rightarrow> branch)"

definition read_address :: "string \<Rightarrow> scope_identity \<Rightarrow> confirmed_read \<Rightarrow> string \<times> string \<times> string" where
  "read_address branch who read =
     (read_branch branch read, case resolveScopeKey (cr_scope read) who of Inr k \<Rightarrow> k | Inl _ \<Rightarrow> [], cr_id read)"

definition addressable :: "engine \<Rightarrow> string \<Rightarrow> scope_identity \<Rightarrow> confirmed_read \<Rightarrow> bool" where
  "addressable engine branch who read \<longleftrightarrow>
     read_branch branch read \<in> set (branches engine) \<and> (case resolveScopeKey (cr_scope read) who of Inr _ \<Rightarrow> True | Inl _ \<Rightarrow> False)"

definition read_conflicts_with :: "engine \<Rightarrow> string \<Rightarrow> scope_identity \<Rightarrow> confirmed_read \<Rightarrow> nat option" where
  "read_conflicts_with engine branch who read =
     (let (b, k, i) = read_address branch who read
      in conflicting_write (tables engine) (FStr b) (FStr i) k (seq_of (cr_seq read)) (path_of (cr_path read))
           (case cr_nonRecursive read of Some n \<Rightarrow> n | None \<Rightarrow> False) None)"

definition conflict_entry :: "string \<Rightarrow> confirmed_read \<Rightarrow> nat \<Rightarrow> read_conflict" where
  "conflict_entry branch read s =
     \<lparr>conflict_of = cr_id read, conflict_scope = scope_of (cr_scope read),
      conflict_branch = (if read_branch branch read = DEFAULT_BRANCH then None else Some (read_branch branch read)),
      conflict_read_seq = seq_of (cr_seq read), conflictSeq = s\<rparr>"

text \<open>The first stale read of each document instance, in the order of the reads.\<close>

fun stale_reads ::
    "engine \<Rightarrow> string \<Rightarrow> scope_identity \<Rightarrow> (string \<times> string \<times> string) list \<Rightarrow> confirmed_read list \<Rightarrow> read_conflict list" where
  "stale_reads engine branch who seen [] = []"
| "stale_reads engine branch who seen (read # reads) =
     (case read_conflicts_with engine branch who read of
        None \<Rightarrow> stale_reads engine branch who seen reads
      | Some s \<Rightarrow>
          if read_address branch who read \<in> set seen then stale_reads engine branch who seen reads
          else conflict_entry branch read s # stale_reads engine branch who (read_address branch who read # seen) reads)"

lemma stale_reads_empty:
  "stale_reads engine branch who seen reads = [] \<longleftrightarrow>
     (\<forall>r\<in>set reads. read_conflicts_with engine branch who r = None \<or> read_address branch who r \<in> set seen)"
  by (induction reads arbitrary: seen) (auto split: option.split)

lemma liftR_simps [simp]: "liftR f (Inr x) = Inr x" "liftR f (Inl e) = Inl (f e)"
  by (simp_all add: liftR_def)

lemma liftR_eq_Inr [result_simps]: "liftR f r = Inr x \<longleftrightarrow> r = Inr x"
  by (cases r) simp_all

lemma confirmed_loop_spec:
  assumes "readable_patches (tables engine)" "kept_scans (tables engine) scans" "\<forall>r\<in>set reads. addressable engine branch who r"
  shows "\<exists>scans'. confirmed_loop engine branch who scans seen conflicts reads
      = Inr (scans', conflicts @ stale_reads engine branch who seen reads) \<and> kept_scans (tables engine) scans'"
  using assms(2,3)
proof (induction reads arbitrary: scans seen conflicts)
  case (Cons read reads)
  let ?b = "read_branch branch read"
  let ?nr = "case cr_nonRecursive read of Some n \<Rightarrow> n | None \<Rightarrow> False"
  obtain k where k: "resolveScopeKey (cr_scope read) who = Inr k" "?b \<in> set (branches engine)"
    using Cons.prems(2) by (auto simp: addressable_def split: sum.splits)
  have a: "read_address branch who read = (?b, k, cr_id read)" by (simp add: read_address_def k)
  have b: "requireBranch engine ?b = Inr ()" using k(2) by (simp add: requireBranch_def)
  obtain scans1 where s1: "findConflictSeq (tables engine) scans (FStr ?b) (FStr (cr_id read)) k (seq_of (cr_seq read))
      (path_of (cr_path read)) ?nr None = Inr (read_conflicts_with engine branch who read, scans1)"
    "kept_scans (tables engine) scans1"
    using kept_decides [OF assms(1) Cons.prems(1), of "FStr ?b" "FStr (cr_id read)" k "seq_of (cr_seq read)"
        "path_of (cr_path read)" ?nr None]
    unfolding read_conflicts_with_def a Let_def prod.case by blast
  have rest: "\<exists>scans'. confirmed_loop engine branch who sc seen' cs reads
      = Inr (scans', cs @ stale_reads engine branch who seen' reads) \<and> kept_scans (tables engine) scans'"
    if "kept_scans (tables engine) sc" for sc seen' cs
    using Cons.IH [OF that] Cons.prems(2) by simp
  have step: "confirmed_loop engine branch who scans seen conflicts (read # reads)
      = (if read_address branch who read \<in> set seen then confirmed_loop engine branch who scans seen conflicts reads
         else case read_conflicts_with engine branch who read of
             None \<Rightarrow> confirmed_loop engine branch who scans1 seen conflicts reads
           | Some s \<Rightarrow> confirmed_loop engine branch who scans1 (read_address branch who read # seen)
               (conflicts @ [conflict_entry branch read s]) reads)"
    unfolding confirmed_loop.simps Let_def read_branch_def [symmetric] b k(1) a conflict_entry_def
    by (simp add: s1(1) split: option.split)
  show ?case
  proof (cases "read_address branch who read \<in> set seen")
    case True
    then show ?thesis using rest [OF Cons.prems(1), of seen conflicts] step by (simp split: option.split)
  next
    case False
    then show ?thesis
      using step rest [OF s1(2), of seen conflicts]
        rest [OF s1(2), of "read_address branch who read # seen" "conflicts @ [conflict_entry branch read s]" for s]
      by (cases "read_conflicts_with engine branch who read") auto
  qed
qed simp

section \<open>What the pending reads are checked against\<close>

definition resolved :: "engine \<Rightarrow> string \<Rightarrow> (int \<times> nat) list \<Rightarrow> bool" where
  "resolved engine session resolutions \<longleftrightarrow>
     distinct (map fst resolutions)
     \<and> (\<forall>(n, s)\<in>set resolutions. \<exists>row. selectCommit engine session n = Some row \<and> c_seq row = s)"

lemma resolve_layers_spec:
  assumes "resolve_layers engine session resolutions basis layers = Inr (resolutions', basis')"
    and "resolved engine session resolutions" and "case basis of None \<Rightarrow> True | Some b \<Rightarrow> b \<in> set resolutions"
  shows "resolved engine session resolutions' \<and> set resolutions \<subseteq> set resolutions'
    \<and> (\<forall>n\<in>set layers. n \<in> fst ` set resolutions') \<and> (case basis' of None \<Rightarrow> layers = [] | Some b \<Rightarrow> b \<in> set resolutions')
    \<and> (\<forall>l s. basis = Some (l, s) \<longrightarrow> (\<exists>m t. basis' = Some (m, t) \<and> l \<le> m))
    \<and> (\<forall>m t. basis' = Some (m, t) \<longrightarrow> (\<forall>n\<in>set layers. n \<le> m) \<and> (m \<in> set layers \<or> basis = Some (m, t)))"
  using assms
proof (induction layers arbitrary: resolutions basis)
  case Nil
  then show ?case by (auto split: option.splits)
next
  case (Cons n layers)
  obtain s res1 where s: "(case map_of resolutions n of Some seq \<Rightarrow> Inr (seq, resolutions)
      | None \<Rightarrow> (case selectCommit engine session n of None \<Rightarrow> Inl (DependencyUnresolved n)
          | Some row \<Rightarrow> Inr (c_seq row, resolutions @ [(n, c_seq row)]))) = Inr (s, res1)"
    and rest: "resolve_layers engine session res1
        (case basis of None \<Rightarrow> Some (n, s) | Some (l, _) \<Rightarrow> if n > l then Some (n, s) else basis) layers = Inr (resolutions', basis')"
    using Cons.prems(1) by (auto simp: result_simps)
  have r1: "resolved engine session res1 \<and> set resolutions \<subseteq> set res1 \<and> (n, s) \<in> set res1"
    using s Cons.prems(2)
    by (auto simp: resolved_def map_of_eq_None_iff split: option.splits dest: map_of_SomeD)
  let ?b = "case basis of None \<Rightarrow> Some (n, s) | Some (l, _) \<Rightarrow> if n > l then Some (n, s) else basis"
  have b: "case ?b of None \<Rightarrow> True | Some b \<Rightarrow> b \<in> set res1"
    using r1 Cons.prems(3) by (auto split: option.splits)
  obtain l t where l: "?b = Some (l, t)" "n \<le> l" "l = n \<or> basis = Some (l, t)" "\<And>l' s'. basis = Some (l', s') \<Longrightarrow> l' \<le> l"
  proof (cases basis)
    case (Some a)
    then show ?thesis using that [of n s] that [of "fst a" "snd a"] by (cases a; cases "fst a < n") auto
  qed (use that [of n s] in simp)
  note IH = Cons.IH [OF rest conjunct1 [OF r1] b]
  obtain m u where m: "basis' = Some (m, u)" "l \<le> m" using IH l(1) by blast
  then have bound: "\<forall>n'\<in>set (n # layers). n' \<le> m" using IH l(2) by auto
  have "m \<in> set layers \<or> ?b = Some (m, u)" using IH m(1) by blast
  then have "m \<in> set (n # layers) \<or> basis = Some (m, u)" using l(1,3) by auto
  moreover have "n \<in> fst ` set resolutions'" using IH r1 by (metis fst_conv image_eqI subsetD)
  moreover have "(m, u) \<in> set resolutions'" using IH m(1) by simp
  moreover have "\<And>l' s'. basis = Some (l', s') \<Longrightarrow> l' \<le> m" using l(4) m(2) by fastforce
  ultimately show ?case using IH r1 m(1) bound by auto
qed

definition pending_write ::
    "engine \<Rightarrow> scope_identity \<Rightarrow> string \<Rightarrow> pending_read \<Rightarrow> nat \<Rightarrow> exclusion option \<Rightarrow> nat option" where
  "pending_write engine who branch read afterSeq exclude =
     conflicting_write (tables engine) (FStr branch) (FStr (pr_id read))
       (case resolveScopeKey (pr_scope read) who of Inr k \<Rightarrow> k | Inl _ \<Rightarrow> []) afterSeq (path_of (pr_path read))
       (case pr_nonRecursive read of Some b \<Rightarrow> b | None \<Rightarrow> False) exclude"

text \<open>A pending read that sits on the layers it names and on nothing newer: against the highest layer
  it names where it declares no basis, and otherwise against its basis, or the later one an identity
  layer proves, less the writes of the layers it names.\<close>

definition pending_fresh :: "engine \<Rightarrow> string \<Rightarrow> scope_identity \<Rightarrow> string \<Rightarrow> pending_read \<Rightarrow> int list \<Rightarrow> nat \<Rightarrow> bool" where
  "pending_fresh engine session who branch read layers highest \<longleftrightarrow>
     (case pr_basisSeq read of
        None \<Rightarrow> pending_write engine who branch read highest None = None
      | Some w \<Rightarrow>
          pending_write engine who branch read (seq_of w) (Some \<lparr>sessionKey = session, namedLocalSeqs = layers\<rparr>) = None
          \<or> (\<exists>b. identityLayerBasis engine session branch read layers = Inr b \<and> b > seq_of w
               \<and> pending_write engine who branch read b (Some \<lparr>sessionKey = session, namedLocalSeqs = layers\<rparr>) = None))"

lemma pending_scan_spec:
  assumes "pending_scan engine scans session who branch read afterSeq exclude = Inr (found, scans')"
    and db: "readable_patches (tables engine)" "kept_scans (tables engine) scans"
  shows "found = pending_write engine who branch read afterSeq exclude \<and> kept_scans (tables engine) scans'"
proof -
  let ?nr = "case pr_nonRecursive read of Some b \<Rightarrow> b | None \<Rightarrow> False"
  obtain k where k: "resolveScopeKey (pr_scope read) who = Inr k"
    "findConflictSeq (tables engine) scans (FStr branch) (FStr (pr_id read)) k afterSeq (path_of (pr_path read)) ?nr exclude
       = Inr (found, scans')"
    using assms(1) by (auto simp: pending_scan_def result_simps)
  from kept_decides [OF db, of "FStr branch" "FStr (pr_id read)" k afterSeq "path_of (pr_path read)" ?nr exclude] k
  show ?thesis by (auto simp: pending_write_def)
qed

lemma pending_conflict_spec:
  assumes "pending_conflict engine scans session who branch read layers highest = Inr (None, scans')"
    and db: "readable_patches (tables engine)" "kept_scans (tables engine) scans"
  shows "pending_fresh engine session who branch read layers highest \<and> kept_scans (tables engine) scans'"
proof (cases "pr_basisSeq read")
  case None
  then have "pending_scan engine scans session who branch read highest None = Inr (None, scans')"
    using assms(1) by (simp add: pending_conflict_def)
  from pending_scan_spec [OF this db] show ?thesis using None by (simp add: pending_fresh_def)
next
  case (Some w)
  let ?ex = "Some \<lparr>sessionKey = session, namedLocalSeqs = layers\<rparr>"
  obtain found scans1 where s: "pending_scan engine scans session who branch read (seq_of w) ?ex = Inr (found, scans1)"
    "(if found = None then Inr (found, scans1)
      else bindR (identityLayerBasis engine session branch read layers) (\<lambda>b.
        if b > seq_of w then pending_scan engine scans1 session who branch read b ?ex else Inr (found, scans1))) = Inr (None, scans')"
    using assms(1) Some by (auto simp: pending_conflict_def Let_def result_simps)
  note first = pending_scan_spec [OF s(1) db]
  show ?thesis
  proof (cases found)
    case None
    then show ?thesis using s(2) first Some by (simp add: pending_fresh_def)
  next
    case (Some f)
    then obtain b where b: "identityLayerBasis engine session branch read layers = Inr b" "b > seq_of w"
      "pending_scan engine scans1 session who branch read b ?ex = Inr (None, scans')"
      using s(2) by (auto simp: result_simps split: if_splits)
    from pending_scan_spec [OF b(3) db(1)] first b(1,2) \<open>pr_basisSeq read = Some w\<close>
    show ?thesis by (auto simp: pending_fresh_def)
  qed
qed

lemma integers_Nil: "integers ws = Some [] \<Longrightarrow> ws = []"
  by (induction ws rule: integers.induct) auto

lemma layers_nonempty: "pendingReadLayers read = Inr layers \<Longrightarrow> layers \<noteq> []"
  by (auto simp: pendingReadLayers_def Let_def dest: integers_Nil split: if_splits option.splits)

lemma pending_loop_spec:
  assumes "pending_loop engine scans session who branch True resolutions reads = Inr (resolutions', scans')"
    and db: "readable_patches (tables engine)" and "kept_scans (tables engine) scans" and "resolved engine session resolutions"
  shows "resolved engine session resolutions' \<and> set resolutions \<subseteq> set resolutions' \<and>
    (\<forall>read\<in>set reads. \<exists>layers s. pendingReadLayers read = Inr layers \<and> set layers \<subseteq> fst ` set resolutions'
       \<and> (Max (set layers), s) \<in> set resolutions' \<and> pending_fresh engine session who branch read layers s)"
  using assms(1,3,4)
proof (induction reads arbitrary: scans resolutions)
  case (Cons read reads)
  obtain layers res1 basis where l: "pendingReadLayers read = Inr layers"
    "resolve_layers engine session resolutions None layers = Inr (res1, basis)"
    using Cons.prems(1) by (auto simp: result_simps)
  then obtain found scans1 where p:
    "pending_conflict engine scans session who branch read layers (snd (the basis)) = Inr (found, scans1)"
    using Cons.prems(1) by (auto simp: result_simps Let_def)
  then have f: "found = None" using Cons.prems(1) l by (cases found) simp_all
  then have rest: "pending_loop engine scans1 session who branch True res1 reads = Inr (resolutions', scans')"
    using Cons.prems(1) l p by simp
  have "layers \<noteq> []" by (rule layers_nonempty [OF l(1)])
  note res = resolve_layers_spec [OF l(2) Cons.prems(3)]
  then obtain m s where m: "basis = Some (m, s)" using \<open>layers \<noteq> []\<close> by (auto split: option.splits)
  have max: "m = Max (set layers)" "(m, s) \<in> set res1"
    using res m \<open>layers \<noteq> []\<close> by (auto intro!: Max_eqI [symmetric])
  note fresh = pending_conflict_spec [OF p [unfolded f] db Cons.prems(2)]
  have r1: "resolved engine session res1" "set resolutions \<subseteq> set res1" "set layers \<subseteq> fst ` set res1" using res by auto
  note IH = Cons.IH [OF rest conjunct2 [OF fresh] r1(1)]
  have "fst ` set res1 \<subseteq> fst ` set resolutions'" using IH by (intro image_mono) simp
  then have "set layers \<subseteq> fst ` set resolutions'" using r1(3) by simp
  moreover have "(Max (set layers), s) \<in> set resolutions'" using IH max by auto
  moreover have "pending_fresh engine session who branch read layers s" using fresh m by simp
  ultimately have "\<exists>layers s. pendingReadLayers read = Inr layers \<and> set layers \<subseteq> fst ` set resolutions'
       \<and> (Max (set layers), s) \<in> set resolutions' \<and> pending_fresh engine session who branch read layers s"
    using l(1) by blast
  then show ?case using IH r1(2) by (simp del: pending_loop.simps) blast
qed simp

section \<open>A wave's check\<close>

lemma set_newest_first [simp]: "set (newest_first rows) = set rows"
  by (simp add: newest_first_def)

lemma newest_first_Nil [simp]: "newest_first rows = [] \<longleftrightarrow> rows = []"
  by (metis set_empty set_newest_first)

lemma stale_scan_spec:
  assumes "\<And>r op. r \<in> set rows \<Longrightarrow> op \<in> set (patches_of r) \<Longrightarrow> parses op"
  shows "stale_scan q nr (\<lambda>_. False) rows = Inr (map_option rev_seq (find (\<lambda>r. \<not> isPatchRevision r \<or> hits nr q r) rows))"
  using assms
proof (induction rows)
  case (Cons row rows)
  have "(if nr then patchOverlapsNonRecursiveRead (patches_of row) q else patchOverlapsRead (patches_of row) q) = Inr (hits nr q row)"
  proof -
    have "(if nr then patchOverlapsNonRecursiveRead else patchOverlapsRead) (patches_of row) q = Inr (hits nr q row)"
      by (rule overlap_hits) (use Cons.prems in auto)
    then show ?thesis by (cases nr) simp_all
  qed
  moreover have "stale_scan q nr (\<lambda>_. False) rows = Inr (map_option rev_seq (find (\<lambda>r. \<not> isPatchRevision r \<or> hits nr q r) rows))"
    by (rule Cons.IH) (use Cons.prems in auto)
  ultimately show ?case by simp
qed simp

lemma hits_patch: "hits nr q r \<Longrightarrow> isPatchRevision r"
  by (auto simp: hits_def patches_of_def isPatchRevision_def split: rev_op.splits)

lemma conflicting_write_None:
  assumes "readable_patches db"
  shows "conflicting_write db branch ident scopeKey afterSeq q nr None = None \<longleftrightarrow>
    (\<forall>r\<in>set (document_rows db branch ident scopeKey afterSeq). isPatchRevision r \<and> \<not> hits nr q r)"
proof -
  have "selectSetDeleteConflict db branch ident scopeKey afterSeq None = None
      \<longleftrightarrow> (\<forall>r\<in>set (document_rows db branch ident scopeKey afterSeq). isPatchRevision r)"
  proof -
    have "selectSetDeleteConflict db branch ident scopeKey afterSeq None = None
        \<longleftrightarrow> newest_first (filter (\<lambda>r. \<not> isPatchRevision r \<and> outside None r) (document_rows db branch ident scopeKey afterSeq)) = []"
      unfolding selectSetDeleteConflict_def by (simp split: list.split del: newest_first_Nil)
    then show ?thesis by (auto simp: outside_def filter_empty_conv)
  qed
  then show ?thesis
    unfolding conflicting_write_eq [OF assms]
    by (auto simp: find_None_iff selectPatchConflicts_def outside_def hits_patch split: option.split)
qed

section \<open>Properties\<close>

text \<open>C28. The check of a commit's confirmed reads is exact: it passes exactly when none of them
  conflicts with a stored write, and otherwise refuses the commit with the first stale read of every
  stale instance of a document, in the order of the reads, whatever the scans hold from reads before.
  The branches and scopes of the reads are assumed to be valid.\<close>

theorem confirmed_reads_exact:
  assumes "readable_patches (tables engine)" and "kept_scans (tables engine) scans"
    and "\<forall>r\<in>set reads. addressable engine branch who r"
  shows "if \<forall>r\<in>set reads. read_conflicts_with engine branch who r = None
    then \<exists>scans'. validateConfirmedReads engine scans branch reads who = Inr scans' \<and> kept_scans (tables engine) scans'
    else validateConfirmedReads engine scans branch reads who = Inl (StaleConfirmed (stale_reads engine branch who [] reads))"
proof -
  obtain scans' where "confirmed_loop engine branch who scans [] [] reads = Inr (scans', stale_reads engine branch who [] reads)"
    "kept_scans (tables engine) scans'"
    using confirmed_loop_spec [OF assms, of "[]" "[]"] by auto
  then show ?thesis
    using stale_reads_empty [of engine branch who "[]" reads] by (simp add: validateConfirmedReads_def)
qed

text \<open>C29. When the pending reads of a commit resolve, every layer each of them names is an accepted
  commit of the session, recorded with its sequence number, each exactly once and in the order of the
  layers; and each read is fresh: no write after the basis it is checked from conflicts with it, that
  basis being the highest layer's where the read declares none, and otherwise the declared one or a
  later identity layer's, and the writes of the layers it names being left out.\<close>

theorem pending_reads_resolved_and_fresh:
  assumes "readable_patches (tables engine)" and "kept_scans (tables engine) scans"
    and "resolvePendingReads engine scans session who branch reads True = Inr resolutions"
  shows "sorted (map fst resolutions) \<and> resolved engine session resolutions \<and>
    (\<forall>read\<in>set reads. \<exists>layers s. pendingReadLayers read = Inr layers \<and> set layers \<subseteq> fst ` set resolutions
       \<and> (Max (set layers), s) \<in> set resolutions \<and> pending_fresh engine session who branch read layers s)"
proof -
  obtain res scans' where r: "pending_loop engine scans session who branch True [] reads = Inr (res, scans')"
    "resolutions = sort_key fst res"
    using assms(3) by (auto simp: resolvePendingReads_def result_simps)
  have "resolved engine session []" by (simp add: resolved_def)
  note spec = pending_loop_spec [OF r(1) assms(1,2) this]
  have "distinct (map fst resolutions)"
    using spec by (simp add: r(2) resolved_def distinct_map)
  then show ?thesis using spec by (simp add: r(2) resolved_def)
qed

text \<open>C30. The check a wave commit makes of a served read agrees with the one a client commit's reads go
  through: without a lease holder and with no patch excepted, it finds a stale write exactly when
  \<^verbatim>\<open>findConflictSeq\<close> would.\<close>

theorem stale_read_check_agrees:
  assumes "readable_patches db"
  shows "\<exists>found. findStaleReadSeq db (Some branch) ident scopeKey afterSeq readPath nonRecursive None (\<lambda>_. False) = Inr found
    \<and> (found = None \<longleftrightarrow>
       conflicting_write db (FStr branch) (FStr ident) scopeKey afterSeq readPath nonRecursive None = None)"
proof -
  let ?rows = "document_rows db (FStr branch) (FStr ident) scopeKey afterSeq"
  have all: "filter (notHoldersOwnDerived None) ?rows = ?rows" by (simp add: notHoldersOwnDerived_def)
  have "stale_scan readPath nonRecursive (\<lambda>_. False) (newest_first ?rows)
      = Inr (map_option rev_seq (find (\<lambda>r. \<not> isPatchRevision r \<or> hits nonRecursive readPath r) (newest_first ?rows)))"
    by (rule stale_scan_spec) (use assms in \<open>auto simp: readable_patches_def document_rows_def list_all_iff\<close>)
  then show ?thesis
    unfolding findStaleReadSeq_def option.case all conflicting_write_None [OF assms] by (auto simp: find_None_iff)
qed

definition small_engine :: engine where
  "small_engine = \<lparr>tables = one_patch_store, branches = [''''],
     commits = [\<lparr>c_session = ''s'', c_local_seq = 1, c_seq = 3, c_branch = '''',
        c_original = \<lparr>l_operations = [], l_confirmed = [], l_pending = []\<rparr>\<rparr>], serverSeq = 3\<rparr>"

definition small_read :: confirmed_read where
  "small_read = \<lparr>cr_id = ''of:a'', cr_scope = None, cr_branch = None, cr_path = FArr [Some (FStr ''n'')], cr_seq = WInt 2,
     cr_nonRecursive = None\<rparr>"

definition small_pending :: pending_read where
  "small_pending = \<lparr>pr_id = ''of:a'', pr_scope = None, pr_path = FArr [Some (FStr ''n'')], pr_localSeq = Many [WInt 1],
     pr_basisSeq = None, pr_nonRecursive = None\<rparr>"

definition nobody :: scope_identity where
  "nobody = \<lparr>principal = None, sessionId = None\<rparr>"

lemma small_readable: "readable_patches (tables small_engine)"
  using one_patch_readable by (simp add: small_engine_def)

theorem confirmed_reads_exact_witness:
  "validateConfirmedReads small_engine (\<lambda>_. None) '''' [small_read, small_read] nobody
   = Inl (StaleConfirmed [\<lparr>conflict_of = ''of:a'', conflict_scope = Space, conflict_branch = None, conflict_read_seq = 2, conflictSeq = 3\<rparr>])"
proof -
  have a: "\<forall>r\<in>set [small_read, small_read]. addressable small_engine '''' nobody r" by code_simp
  have "read_conflicts_with small_engine '''' nobody small_read = Some 3" by code_simp
  then have "stale_reads small_engine '''' nobody [] [small_read, small_read]
      = [\<lparr>conflict_of = ''of:a'', conflict_scope = Space, conflict_branch = None, conflict_read_seq = 2, conflictSeq = 3\<rparr>]"
    "\<not> (\<forall>r\<in>set [small_read, small_read]. read_conflicts_with small_engine '''' nobody r = None)"
    by (simp_all add: conflict_entry_def read_branch_def small_read_def DEFAULT_BRANCH_def)
  then show ?thesis using confirmed_reads_exact [OF small_readable nothing_kept a] by simp
qed

theorem pending_reads_resolved_and_fresh_witness:
  "resolvePendingReads small_engine (\<lambda>_. None) ''s'' nobody '''' [small_pending] True = Inr [(1, 3)]
   \<and> pending_fresh small_engine ''s'' nobody '''' small_pending [1] 3"
proof -
  have r: "resolvePendingReads small_engine (\<lambda>_. None) ''s'' nobody '''' [small_pending] True = Inr [(1, 3)]" by code_simp
  have "pendingReadLayers small_pending = Inr [1]" by code_simp
  with pending_reads_resolved_and_fresh [OF small_readable nothing_kept r] r show ?thesis by auto
qed

theorem stale_read_check_agrees_witness:
  "\<exists>s. findStaleReadSeq one_patch_store (Some '''') ''of:a'' ''space'' 2 [''n''] False None (\<lambda>_. False) = Inr (Some s)"
proof -
  have "conflicting_write one_patch_store (FStr '''') (FStr ''of:a'') ''space'' 2 [''n''] False None \<noteq> None"
    by (simp add: one_patch_writes)
  then show ?thesis
    using stale_read_check_agrees [OF one_patch_readable, of "''''" "''of:a''" "''space''" 2 "[''n'']" False] by auto
qed

end
