(* ===== verification/PatchDiff.thy ===== *)
theory PatchDiff
  imports PatchMerge "HOL-Library.AList"
begin

text \<open>
  From the writes of a transaction to the patch it commits (\<^verbatim>\<open>runtime/runner/src/storage/v2-path.ts\<close>
  and the patch generator of \<^verbatim>\<open>runtime/runner/src/storage/v2-transaction.ts\<close>): reading a document by
  path, the candidate operations of a written path and of a changed array, the choice among them, and
  the assertion that none of them inserts into an array or removes from one by index. A JavaScript
  \<^verbatim>\<open>Map\<close> keyed by strings is the list of its entries in insertion order, or a function where only
  look-ups matter.
\<close>

section \<open>Reading by path\<close>

fun hasValueAtPath :: "bool \<Rightarrow> fval \<Rightarrow> path \<Rightarrow> bool" where
  "hasValueAtPath allowArrayLength current [] = True"
| "hasValueAtPath allowArrayLength current (segment # path) =
     (case current of
        FArr xs \<Rightarrow>
          if allowArrayLength \<and> segment = ''length'' then
            hasValueAtPath allowArrayLength (FNum (f64_of_int (int (length xs)))) path
          else if \<not> isArrayIndexPropertyName segment then False
          else (case arr_at xs (index_of segment) of None \<Rightarrow> False | Some v \<Rightarrow> hasValueAtPath allowArrayLength v path)
      | FObj ps \<Rightarrow> (case map_of ps segment of None \<Rightarrow> False | Some v \<Rightarrow> hasValueAtPath allowArrayLength v path)
      | _ \<Rightarrow> False)"

fun readValueAtPath :: "bool \<Rightarrow> fval \<Rightarrow> path \<Rightarrow> fval" where
  "readValueAtPath allowArrayLength current [] = current"
| "readValueAtPath allowArrayLength current (segment # path) =
     (case current of
        FArr xs \<Rightarrow>
          if allowArrayLength \<and> segment = ''length'' then
            readValueAtPath allowArrayLength (FNum (f64_of_int (int (length xs)))) path
          else if \<not> isArrayIndexPropertyName segment then FUndefined
          else (case arr_at xs (index_of segment) of None \<Rightarrow> FUndefined | Some v \<Rightarrow> readValueAtPath allowArrayLength v path)
      | FObj ps \<Rightarrow> (case map_of ps segment of None \<Rightarrow> FUndefined | Some v \<Rightarrow> readValueAtPath allowArrayLength v path)
      | _ \<Rightarrow> FUndefined)"

section \<open>Candidates\<close>

record candidate =
  cand_patch :: patch_op
  cand_path :: path
  coversDescendants :: bool
  tailSpliceStartIndex :: "nat option"

text \<open>The loop of \<^verbatim>\<open>findArrayPatchPath\<close>, from a depth to the last segment.\<close>

function array_path_loop ::
    "fval \<Rightarrow> fval \<Rightarrow> path \<Rightarrow> nat \<Rightarrow> nat option \<Rightarrow> nat option \<Rightarrow> nat option \<times> nat option" where
  "array_path_loop before after path depth arrayDepth divergedDepth =
     (if depth < length path then
        let here = take depth path;
            isArr = isArray (readValueAtPath True before here) \<or> isArray (readValueAtPath True after here);
            arrayDepth' = (if isArr then Some depth else arrayDepth)
        in if isArr \<and> divergedDepth \<noteq> None then (arrayDepth', divergedDepth)
           else
             let child = take (depth + 1) path;
                 diverges = (divergedDepth = None \<and> hasValueAtPath True before child \<noteq> hasValueAtPath True after child);
                 divergedDepth' = (if diverges then Some (depth + 1) else divergedDepth)
             in if diverges \<and> isArr then (arrayDepth', divergedDepth')
                else array_path_loop before after path (depth + 1) arrayDepth' divergedDepth'
      else (arrayDepth, divergedDepth))"
  by pat_completeness auto
termination
  by (relation "measure (\<lambda>(b, a, p, d, x, y). length p - d)") auto

declare array_path_loop.simps [simp del]

definition findArrayPatchPath :: "fval \<Rightarrow> fval \<Rightarrow> path \<Rightarrow> path option" where
  "findArrayPatchPath before after path =
     (case array_path_loop before after path 0 None None of
        (Some arrayDepth, _) \<Rightarrow> Some (take arrayDepth path)
      | (None, None) \<Rightarrow> None
      | (None, Some divergedDepth) \<Rightarrow>
          if hasValueAtPath True before (take divergedDepth path) then None
          else map_option (\<lambda>index. take index path)
                 (find (\<lambda>index. missingContainerIsArray (path ! index)) [divergedDepth..<length path]))"

definition buildValuePatchCandidate ::
    "host \<Rightarrow> path \<Rightarrow> fval \<Rightarrow> fval \<Rightarrow> bool \<Rightarrow> bool \<Rightarrow> hash_error + candidate option" where
  "buildValuePatchCandidate h path value' previousValue valuePresent previousPresent =
     bindR (if valuePresent = previousPresent then valueEqual h value' previousValue else Inr False) (\<lambda>same.
       let pointer = encodePointer path;
           cover = (\<lambda>patch. Some \<lparr>cand_patch = patch, cand_path = path, coversDescendants = True, tailSpliceStartIndex = None\<rparr>)
       in if same then Inr None
          else if \<not> valuePresent then
            if \<not> previousPresent then Inr None else Inr (cover (Remove pointer))
          else if \<not> previousPresent then Inr (cover (Add pointer value'))
          else Inr (cover (Replace pointer value')))"

definition arrayTailIsDense :: "fval option list \<Rightarrow> nat \<Rightarrow> bool" where
  "arrayTailIsDense array start = list_all (\<lambda>x. x \<noteq> None) (drop start array)"

text \<open>\<^verbatim>\<open>index.toString()\<close>.\<close>

fun decimal :: "nat \<Rightarrow> string" where
  "decimal n = (if n < 10 then [char_of (48 + n)] else decimal (n div 10) @ [char_of (48 + n mod 10)])"

declare decimal.simps [simp del]

fun element_candidates ::
    "host \<Rightarrow> path \<Rightarrow> nat \<Rightarrow> fval option list \<Rightarrow> fval option list \<Rightarrow> hash_error + candidate list" where
  "element_candidates h path index (b # before) (a # after) =
     (case (b, a) of
        (Some previousValue, Some nextValue) \<Rightarrow>
          bindR (valueEqual h nextValue previousValue) (\<lambda>same.
          bindR (element_candidates h path (Suc index) before after) (\<lambda>rest.
            Inr (if same then rest
                 else \<lparr>cand_patch = Replace (encodePointer (path @ [decimal index])) nextValue,
                       cand_path = path @ [decimal index], coversDescendants = True, tailSpliceStartIndex = None\<rparr> # rest)))
      | _ \<Rightarrow> element_candidates h path (Suc index) before after)"
| "element_candidates h path index _ _ = Inr []"

definition tail_candidates :: "path \<Rightarrow> fval option list \<Rightarrow> fval option list \<Rightarrow> candidate list" where
  "tail_candidates path before after =
     (if length after > length before then
        [\<lparr>cand_patch = Splice (encodePointer path) (int (length before)) 0 (drop (length before) after),
          cand_path = path, coversDescendants = False, tailSpliceStartIndex = Some (length before)\<rparr>]
      else if length after < length before then
        [\<lparr>cand_patch = Splice (encodePointer path) (int (length after)) (int (length before) - int (length after)) [],
          cand_path = path, coversDescendants = False, tailSpliceStartIndex = Some (length after)\<rparr>]
      else [])"

definition buildArrayPatchCandidates ::
    "host \<Rightarrow> path \<Rightarrow> fval \<Rightarrow> fval \<Rightarrow> bool \<Rightarrow> bool \<Rightarrow> hash_error + candidate list" where
  "buildArrayPatchCandidates h path before after beforePresent afterPresent =
     bindR (if beforePresent = afterPresent then valueEqual h before after else Inr False) (\<lambda>same.
       if same then Inr []
       else case (before, after) of
         (FArr bs, FArr as) \<Rightarrow>
           let fallback = bindR (buildValuePatchCandidate h path after before True True)
                 (\<lambda>c. Inr (case c of None \<Rightarrow> [] | Some c \<Rightarrow> [c]))
           in if list_ex (\<lambda>(b, a). (b \<noteq> None) \<noteq> (a \<noteq> None)) (zip bs as) then fallback
              else if length as > length bs \<and> \<not> arrayTailIsDense as (length bs) then fallback
              else
                bindR (element_candidates h path 0 bs as) (\<lambda>elems.
                  let candidates = elems @ tail_candidates path bs as
                  in if candidates = [] then fallback else Inr candidates)
       | _ \<Rightarrow>
           bindR (buildValuePatchCandidate h path after before afterPresent beforePresent)
             (\<lambda>c. Inr (case c of None \<Rightarrow> [] | Some c \<Rightarrow> [c])))"

section \<open>The assertion\<close>

definition pointerNamesArrayElement :: "fval \<Rightarrow> fval \<Rightarrow> string \<Rightarrow> pointer_error + bool" where
  "pointerNamesArrayElement before after ptr =
     bindR (parsePointer ptr) (\<lambda>segments.
       if segments = [] \<or> \<not> isArraySegment (last segments) then Inr False
       else Inr (isArray (readValueAtPath False before (butlast segments))
                 \<or> isArray (readValueAtPath False after (butlast segments))))"

datatype diff_error = DiffPointer pointer_error | DiffHash hash_error | IndexedArrayOp patch_op

fun assertNoIndexedArrayStructuralOps :: "patch_op list \<Rightarrow> fval \<Rightarrow> fval \<Rightarrow> diff_error + unit" where
  "assertNoIndexedArrayStructuralOps [] before after = Inr ()"
| "assertNoIndexedArrayStructuralOps (patch # patches) before after =
     (if \<not> patchOpIsStructural patch then assertNoIndexedArrayStructuralOps patches before after
      else case someR (pointerNamesArrayElement before after) (pointerFields patch) of
          Inl e \<Rightarrow> Inl (DiffPointer e)
        | Inr True \<Rightarrow> Inl (IndexedArrayOp patch)
        | Inr False \<Rightarrow> assertNoIndexedArrayStructuralOps patches before after)"

section \<open>The choice among the candidates\<close>

record suppression =
  supp_path :: path
  tailStart :: "nat option"
  subtree :: bool

text \<open>The \<^verbatim>\<open>isPrefixPath\<close> of the generator.\<close>

definition prefixOverlap :: "path \<Rightarrow> path \<Rightarrow> bool" where
  "prefixOverlap pre path \<longleftrightarrow> length pre \<le> length path \<and> pathsOverlap pre path"

definition isSubsumedByTailSplice :: "candidate \<Rightarrow> path \<Rightarrow> bool" where
  "isSubsumedByTailSplice spliceCandidate candidatePath =
     (case tailSpliceStartIndex spliceCandidate of
        None \<Rightarrow> False
      | Some start \<Rightarrow>
          if \<not> prefixOverlap (cand_path spliceCandidate) candidatePath
             \<or> length candidatePath \<le> length (cand_path spliceCandidate) then False
          else
            let childSegment = candidatePath ! length (cand_path spliceCandidate)
            in isArrayIndexPropertyName childSegment \<and> index_of childSegment \<ge> start)"

text \<open>A map from pointers to the items filed under them, in order.\<close>

definition file_under :: "('a \<Rightarrow> string) \<Rightarrow> 'a list \<Rightarrow> (string \<Rightarrow> 'a list)" where
  "file_under key items = foldl (\<lambda>m x. m(key x := m (key x) @ [x])) (\<lambda>_. []) items"

definition subsumedByAnyTailSplice :: "(string \<Rightarrow> candidate list) \<Rightarrow> path \<Rightarrow> bool" where
  "subsumedByAnyTailSplice tailSplices candidatePath =
     list_ex (\<lambda>pointer. list_ex (\<lambda>spliceCandidate. isSubsumedByTailSplice spliceCandidate candidatePath) (tailSplices pointer))
       (butlast (prefixPointers candidatePath))"

definition isUnderCover :: "string list \<Rightarrow> path \<Rightarrow> bool" where
  "isUnderCover coverPointers path = list_ex (\<lambda>pointer. pointer \<in> set coverPointers) (prefixPointers path)"

fun keep_covers :: "string list \<Rightarrow> candidate list \<Rightarrow> candidate list \<times> string list" where
  "keep_covers coverPointers [] = ([], coverPointers)"
| "keep_covers coverPointers (detail # details) =
     (if isUnderCover coverPointers (cand_path detail) then keep_covers coverPointers details
      else
        let (kept, pointers) = keep_covers (coverPointers @ [encodePointer (cand_path detail)]) details
        in (detail # kept, pointers))"

definition suppresses :: "path \<Rightarrow> nat \<Rightarrow> suppression \<Rightarrow> bool" where
  "suppresses candidatePath len s =
     (if len = length candidatePath then True
      else if subtree s then True
      else case tailStart s of
          None \<Rightarrow> False
        | Some start \<Rightarrow> isArrayIndexPropertyName (candidatePath ! len) \<and> index_of (candidatePath ! len) \<ge> start)"

definition isSuppressed :: "(string \<Rightarrow> suppression list) \<Rightarrow> path \<Rightarrow> bool" where
  "isSuppressed suppressions candidatePath =
     list_ex (\<lambda>(len, pointer). list_ex (suppresses candidatePath len) (suppressions pointer))
       (enumerate 0 (prefixPointers candidatePath))"

definition selectPatchOps :: "candidate list \<Rightarrow> candidate list \<Rightarrow> suppression list \<Rightarrow> patch_op list" where
  "selectPatchOps fullCover nonCover suppress =
     (let tailSplices = file_under (encodePointer \<circ> cand_path) (filter (\<lambda>c. tailSpliceStartIndex c \<noteq> None) nonCover);
          retained = sort_key (length \<circ> cand_path)
            (filter (\<lambda>c. \<not> subsumedByAnyTailSplice tailSplices (cand_path c)) fullCover);
          (covers, coverPointers) = keep_covers [] retained;
          retainedNonCover = filter (\<lambda>c. \<not> isUnderCover coverPointers (cand_path c)
              \<and> \<not> subsumedByAnyTailSplice tailSplices (cand_path c)) nonCover;
          suppressions = file_under (encodePointer \<circ> supp_path) suppress
      in map cand_patch (filter (\<lambda>c. \<not> isSuppressed suppressions (cand_path c)) covers)
         @ map cand_patch (filter (\<lambda>c. \<not> isSuppressed suppressions (cand_path c)) retainedNonCover))"

section \<open>The patch of a commit\<close>

record patch_detail =
  pd_path :: path
  pd_value :: fval
  pd_previous :: fval
  pd_present :: bool
  pd_previousPresent :: bool

text \<open>\<^verbatim>\<open>path.join("\0")\<close>, the key the details and the arrays are kept under.\<close>

fun joinNul :: "path \<Rightarrow> string" where
  "joinNul [] = ''''"
| "joinNul [s] = s"
| "joinNul (s # t # path) = s @ CHR 0x00 # joinNul (t # path)"

fun collect_details ::
    "host \<Rightarrow> fval \<Rightarrow> fval \<Rightarrow> (string \<times> patch_detail) list \<Rightarrow> (string \<times> path) list \<Rightarrow> path list
       \<Rightarrow> hash_error + (patch_detail list \<times> path list)" where
  "collect_details h base patched details groups [] = Inr (map snd details, map snd groups)"
| "collect_details h base patched details groups (path # paths) =
     (let value' = readValueAtPath True patched path;
          previous = readValueAtPath True base path;
          present = hasValueAtPath True patched path;
          previousPresent = hasValueAtPath True base path
      in bindR (if present = previousPresent then valueEqual h value' previous else Inr False) (\<lambda>same.
           if same then collect_details h base patched details groups paths
           else case findArrayPatchPath base patched path of
               Some arrayPath \<Rightarrow>
                 collect_details h base patched details (AList.update (joinNul arrayPath) arrayPath groups) paths
             | None \<Rightarrow>
                 collect_details h base patched
                   (AList.update (joinNul path) \<lparr>pd_path = path, pd_value = value', pd_previous = previous,
                      pd_present = present, pd_previousPresent = previousPresent\<rparr> details) groups paths))"

definition detail_candidate :: "host \<Rightarrow> patch_detail \<Rightarrow> hash_error + candidate option" where
  "detail_candidate h d =
     buildValuePatchCandidate h (pd_path d) (pd_value d) (pd_previous d) (pd_present d) (pd_previousPresent d)"

definition group_candidates :: "host \<Rightarrow> fval \<Rightarrow> fval \<Rightarrow> path \<Rightarrow> hash_error + candidate list" where
  "group_candidates h base patched arrayPath =
     buildArrayPatchCandidates h arrayPath (readValueAtPath True base arrayPath) (readValueAtPath True patched arrayPath)
       (hasValueAtPath True base arrayPath) (hasValueAtPath True patched arrayPath)"

definition buildPatchOperation ::
    "host \<Rightarrow> fval \<Rightarrow> fval \<Rightarrow> path list \<Rightarrow> suppression list \<Rightarrow> diff_error + patch_op list option" where
  "buildPatchOperation h base patched written suppress =
     (if base = FUndefined \<or> patched = FUndefined then Inr None
      else
        case bindR (collect_details h base patched [] [] written) (\<lambda>(details, groups).
               bindR (mapR (detail_candidate h) details) (\<lambda>covers.
               bindR (mapR (group_candidates h base patched) groups) (\<lambda>grouped.
                 Inr (concat (map (\<lambda>c. case c of None \<Rightarrow> [] | Some c \<Rightarrow> [c]) covers), concat grouped)))) of
          Inl e \<Rightarrow> Inl (DiffHash e)
        | Inr (covers, grouped) \<Rightarrow>
            let patches = selectPatchOps (covers @ filter coversDescendants grouped)
                  (filter (\<lambda>c. \<not> coversDescendants c) grouped) suppress
            in if patches = [] then Inr None
               else bindR (assertNoIndexedArrayStructuralOps patches base patched) (\<lambda>_. Inr (Some patches)))"

section \<open>Index names\<close>

lemma digit_of_char: "d < 10 \<Longrightarrow> digit_of (char_of (48 + d)) = Some d"
  by (simp add: digit_of_def Let_def of_char_of take_bit_eq_mod)

lemma decimal_value: "digits_value 0 (decimal n) = Some n"
proof (induction n rule: less_induct)
  case (less n)
  show ?case
  proof (cases "n < 10")
    case True
    then show ?thesis by (simp add: decimal.simps digit_of_char)
  next
    case False
    then have "digits_value 0 (decimal (n div 10)) = Some (n div 10)" by (intro less) simp
    moreover have "digit_of (char_of (48 + n mod 10)) = Some (n mod 10)" by (rule digit_of_char) simp
    ultimately show ?thesis using False by (subst decimal.simps) (simp add: digits_value_snoc del: digits_value.simps)
  qed
qed

lemma index_of_decimal [simp]: "index_of (decimal n) = n"
  by (simp add: index_of_def decimal_value)

lemma decimal_segment: "isArraySegment (decimal n)"
proof -
  have "decimal n \<noteq> [] \<and> (hd (decimal n) = CHR ''0'' \<longrightarrow> decimal n = ''0'')"
  proof (induction n rule: less_induct)
    case (less n)
    show ?case
    proof (cases "n < 10")
      case True
      then show ?thesis by (simp add: decimal.simps)
    next
      case False
      then have IH: "decimal (n div 10) \<noteq> [] \<and> (hd (decimal (n div 10)) = CHR ''0'' \<longrightarrow> decimal (n div 10) = ''0'')"
        by (intro less) simp
      have "decimal (n div 10) \<noteq> ''0''"
      proof
        assume "decimal (n div 10) = ''0''"
        then have "index_of ''0'' = n div 10" using index_of_decimal [of "n div 10"] by simp
        moreover have "index_of ''0'' = 0" by code_simp
        ultimately show False using False by simp
      qed
      then show ?thesis using IH False by (subst (1 2 3) decimal.simps) auto
    qed
  qed
  moreover have "list_all (\<lambda>d. digit_of d \<noteq> None) (decimal n)" using digits_all [of 0 "decimal n"] decimal_value [of n] by simp
  ultimately show ?thesis by (cases "decimal n") (auto simp: isArraySegment_def)
qed

lemma decimal_index_name: "isArrayIndexPropertyName (decimal n) \<longleftrightarrow> n \<le> MAX_ARRAY_INDEX"
  by (simp add: index_name_iff decimal_segment)

section \<open>Replacing and splicing what is there\<close>

lemma replace_present:
  assumes "readAt root p = Some v"
  shows "\<exists>s. replaceAtPath root p w = Inr s \<and> readAt s p = Some w \<and> edits p root s"
proof (cases "p = []")
  case True
  then show ?thesis by (simp add: replaceAtPath_def)
next
  case False
  then obtain c where c: "readAt root (butlast p) = Some c" "child c (last p) = Some v"
    using assms butlast_last_read [OF False, of root] by (auto split: option.splits)
  have "isFabricPlainContainer c" using child_container [OF c(2)] .
  then have t: "thawSpine root (butlast p) p None = Inr (root, c)" using c(1) by (simp add: thaw_None)
  have "\<exists>c'. (case c of
        FArr xs \<Rightarrow> bindR (requireExistingArrayIndex xs (last p) p) (\<lambda>i. Inr (FArr (set_elem i w xs)))
      | FObj ps \<Rightarrow> Inr (FObj (set_prop (last p) w ps)) | _ \<Rightarrow> Inl OutsideModel) = Inr c'"
    using c(2) by (cases c) (auto simp: result_simps split: if_splits)
  then obtain c' where c': "(case c of
        FArr xs \<Rightarrow> bindR (requireExistingArrayIndex xs (last p) p) (\<lambda>i. Inr (FArr (set_elem i w xs)))
      | FObj ps \<Rightarrow> Inr (FObj (set_prop (last p) w ps)) | _ \<Rightarrow> Inl OutsideModel) = Inr c'" by blast
  obtain s where "mutated root (butlast p) c' = Inr s" using mutated_total [OF c(1)] by blast
  then have "replaceAtPath root p w = Inr s" using False t c' by (simp add: replaceAtPath_def Let_def)
  then show ?thesis using sets_slot_reads(1,2) [OF replace_sets] by blast
qed

lemma readAt_snoc: "readAt v (p @ [k]) = (case readAt v p of None \<Rightarrow> None | Some c \<Rightarrow> child c k)"
  by (simp add: tree.get_path_append split: option.split)

lemma replace_element:
  assumes r: "readAt root p = Some (FArr zs)" and i: "i < length zs" "zs ! i = Some v" "i \<le> MAX_ARRAY_INDEX"
  shows "\<exists>s. replaceAtPath root (p @ [decimal i]) w = Inr s \<and> readAt s p = Some (FArr (zs[i := Some w])) \<and> edits p root s"
proof -
  have "isFabricPlainContainer (FArr zs)" by (simp add: isFabricPlainContainer_def)
  then have t: "thawSpine root p (p @ [decimal i]) None = Inr (root, FArr zs)" using r by (simp add: thaw_None)
  obtain s where s: "mutated root p (FArr (zs[i := Some w])) = Inr s" using mutated_total [OF r] by blast
  have req: "requireExistingArrayIndex zs (decimal i) (p @ [decimal i]) = Inr i"
    using i by (simp add: decimal_index_name arr_at_def)
  then have "replaceAtPath root (p @ [decimal i]) w = Inr s"
    using t s i(1) by (simp add: replaceAtPath_def Let_def set_elem_def req)
  moreover have "edits p root s" using edits_parent [of "p @ [decimal i]"] sets_slot_reads(2) [OF replace_sets] calculation by simp
  ultimately show ?thesis using mutated_edits(2) [OF s] by blast
qed

lemma splice_present:
  assumes r: "readAt root p = Some (FArr zs)" and i: "0 \<le> index" "index \<le> int (length zs)" "0 \<le> remove"
  shows "\<exists>s. spliceAtPath root p index remove add = Inr s
    \<and> readAt s p = Some (FArr (take (nat index) zs @ map Some (iterate add) @ drop (nat index + nat remove) zs))
    \<and> edits p root s"
proof -
  have "isFabricPlainContainer (FArr zs)" by (simp add: isFabricPlainContainer_def)
  then have t: "thawSpine root p p None = Inr (root, FArr zs)" using r by (simp add: thaw_None)
  obtain s where s: "mutated root p (FArr (take (nat index) zs @ map Some (iterate add) @ drop (nat index + nat remove) zs)) = Inr s"
    using mutated_total [OF r] by blast
  then have "spliceAtPath root p index remove add = Inr s" using t i by (simp add: spliceAtPath_def spliceAll_eq)
  then show ?thesis using mutated_edits(2) [OF s] splice_edits by blast
qed

section \<open>A changed array\<close>

lemma applyOp_pointer:
  "applyOp h s (Replace (encodePointer p) v) = replaceAtPath s p v"
  "applyOp h s (Splice (encodePointer p) i n add) = spliceAtPath s p i n add"
  by (simp_all add: pointer_def)

text \<open>Slots of the same content: both holes, or elements that compare equal.\<close>

definition same_slots :: "fval option list \<Rightarrow> fval option list \<Rightarrow> bool" where
  "same_slots xs ys \<longleftrightarrow> map (map_option canon) xs = map (map_option canon) ys"

lemma elements_apply:
  assumes "element_candidates h path k bs as = Inr cs"
    and "\<forall>(b, a)\<in>set (zip bs as). (b \<noteq> None) = (a \<noteq> None)"
    and "comparable h ({v. Some v \<in> set bs} \<union> {v. Some v \<in> set as})"
    and "readAt s path = Some (FArr (pre @ bs))" and "length pre = k" and "k + length bs \<le> Suc MAX_ARRAY_INDEX"
  shows "\<exists>s' bs'. applyPatch h s (map cand_patch cs) = Inr s' \<and> readAt s' path = Some (FArr (pre @ bs')) \<and> edits path s s'
    \<and> length bs' = length bs \<and> same_slots (take (length as) bs') (take (length bs) as) \<and> drop (length as) bs' = drop (length as) bs"
  using assms
proof (induction bs arbitrary: as k cs s pre)
  case Nil
  then show ?case by (auto simp: applyPatch_def same_slots_def)
next
  case (Cons b bs as)
  show ?case
  proof (cases as)
    case Nil
    then show ?thesis using Cons.prems by (auto simp: applyPatch_def same_slots_def)
  next
    case (Cons a as')
    note prems = Cons.prems [unfolded \<open>as = a # as'\<close>]
    have sub: "comparable h ({v. Some v \<in> set bs} \<union> {v. Some v \<in> set as'})"
      by (rule comparable_subset [OF prems(3)]) auto
    have zip: "\<forall>(b, a)\<in>set (zip bs as'). (b \<noteq> None) = (a \<noteq> None)" using prems(2) by simp
    have rest: "\<exists>s' bs'. applyPatch h t (map cand_patch cs') = Inr s' \<and> readAt s' path = Some (FArr (pre @ b' # bs')) \<and> edits path t s'
        \<and> length bs' = length bs \<and> same_slots (take (length as') bs') (take (length bs) as') \<and> drop (length as') bs' = drop (length as') bs"
      if "readAt t path = Some (FArr (pre @ b' # bs))" "element_candidates h path (Suc k) bs as' = Inr cs'" for t b' cs'
      using Cons.IH [OF that(2) zip sub, of t "pre @ [b']"] that(1) prems(5,6) by simp
    have fin: ?thesis
      if "applyPatch h s (map cand_patch cs) = Inr s'" "readAt s' path = Some (FArr (pre @ b' # bs'))" "edits path s s'"
        "length bs' = length bs" "same_slots (take (length as') bs') (take (length bs) as')" "drop (length as') bs' = drop (length as') bs"
        "map_option canon b' = map_option canon a" for s' b' bs'
      using that \<open>as = a # as'\<close> by (intro exI [of _ s'] exI [of _ "b' # bs'"]) (simp add: same_slots_def)
    show ?thesis
    proof (cases b)
      case None
      then have a: "a = None" using prems(2) by simp
      then have "element_candidates h path (Suc k) bs as' = Inr cs" using prems(1) None by simp
      from rest [OF prems(4) this] show ?thesis using fin None a by auto
    next
      case (Some u)
      then obtain w where uw: "b = Some u" "a = Some w" using prems(2) by auto
      have eq: "valueEqual h w u = Inr (canon w = canon u)"
        by (rule comparable_equal [OF prems(3)]) (simp_all add: uw)
      obtain cs' where cs': "element_candidates h path (Suc k) bs as' = Inr cs'"
        "cs = (if canon w = canon u then cs' else \<lparr>cand_patch = Replace (encodePointer (path @ [decimal k])) w,
                         cand_path = path @ [decimal k], coversDescendants = True, tailSpliceStartIndex = None\<rparr> # cs')"
        using prems(1) by (auto simp: uw eq result_simps)
      show ?thesis
      proof (cases "canon w = canon u")
        case True
        from rest [OF prems(4) cs'(1)] show ?thesis using fin True uw cs'(2) by auto
      next
        case False
        have at: "k < length (pre @ b # bs)" "(pre @ b # bs) ! k = Some u" "k \<le> MAX_ARRAY_INDEX"
          using prems(5,6) uw by (auto simp: nth_append)
        obtain t where t: "replaceAtPath s (path @ [decimal k]) w = Inr t" "readAt t path = Some (FArr ((pre @ b # bs)[k := Some w]))"
          "edits path s t"
          using replace_element [OF prems(4) at] by blast
        have "(pre @ b # bs)[k := Some w] = pre @ a # bs" using prems(5) uw by (simp add: list_update_append)
        then have rt: "readAt t path = Some (FArr (pre @ a # bs))" using t(2) by simp
        have step: "applyPatch h s (map cand_patch cs) = applyPatch h t (map cand_patch cs')"
          using t(1) cs'(2) False by (simp add: applyPatch_def applyOp_pointer del: applyOp.simps)
        from rest [OF rt cs'(1)] show ?thesis using fin step edits_trans [OF t(3)] by metis
      qed
    qed
  qed
qed

lemma dense_iterate: "list_all (\<lambda>x. x \<noteq> None) xs \<Longrightarrow> map Some (iterate xs) = xs"
  by (induction xs) (auto simp: iterate_def)

lemma tail_apply:
  assumes "readAt s path = Some (FArr bs')" "length bs' = length bs" "same_slots (take (length as) bs') (take (length bs) as)"
    and "length as > length bs \<Longrightarrow> arrayTailIsDense as (length bs)"
  shows "\<exists>s' ys. applyPatch h s (map cand_patch (tail_candidates path bs as)) = Inr s' \<and> readAt s' path = Some (FArr ys)
    \<and> same_slots ys as \<and> edits path s s'"
proof -
  consider "length as > length bs" | "length as < length bs" | "length as = length bs" by linarith
  then show ?thesis
  proof cases
    case 1
    then have d: "map Some (iterate (drop (length bs) as)) = drop (length bs) as"
      using assms(4) by (intro dense_iterate) (simp add: arrayTailIsDense_def)
    obtain s' where s': "spliceAtPath s path (int (length bs)) 0 (drop (length bs) as) = Inr s'"
      "readAt s' path = Some (FArr (take (length bs) bs' @ drop (length bs) as @ drop (length bs) bs'))" "edits path s s'"
      using splice_present [OF assms(1), of "int (length bs)" 0 "drop (length bs) as"] assms(2) d by auto
    have "same_slots bs' (take (length bs) as)" using assms(2,3) 1 by simp
    then have "map (map_option canon) (bs' @ drop (length bs) as) = map (map_option canon) (take (length bs) as @ drop (length bs) as)"
      by (simp only: same_slots_def map_append)
    then have "same_slots (bs' @ drop (length bs) as) as" by (simp only: same_slots_def append_take_drop_id)
    then show ?thesis
      using s' 1 assms(2) by (simp add: tail_candidates_def applyPatch_def applyOp_pointer del: applyOp.simps)
  next
    case 2
    obtain s' where s': "spliceAtPath s path (int (length as)) (int (length bs) - int (length as)) [] = Inr s'"
      "readAt s' path = Some (FArr (take (length as) bs'))" "edits path s s'"
      using splice_present [OF assms(1), of "int (length as)" "int (length bs) - int (length as)" "[]"] assms(2) 2
      by (auto simp: iterate_def nat_diff_distrib)
    then show ?thesis
      using 2 assms(3) by (simp add: tail_candidates_def applyPatch_def applyOp_pointer del: applyOp.simps)
  next
    case 3
    then show ?thesis using assms(1-3) by (simp add: tail_candidates_def applyPatch_def)
  qed
qed

definition content_of :: "fval \<Rightarrow> fval set" where
  "content_of v = insert v (case v of FArr xs \<Rightarrow> {e. Some e \<in> set xs} | _ \<Rightarrow> {})"

text \<open>What a list of candidates does: it makes the path hold a value of the content wanted and
  changes nothing beside it, with no structural operation.\<close>

definition carries :: "host \<Rightarrow> fval \<Rightarrow> path \<Rightarrow> fval \<Rightarrow> candidate list \<Rightarrow> bool" where
  "carries h root path after cs \<longleftrightarrow>
     (\<exists>s w. applyPatch h root (map cand_patch cs) = Inr s \<and> readAt s path = Some w \<and> canon w = canon after \<and> edits path root s)
     \<and> list_all (\<lambda>c. \<not> patchOpIsStructural (cand_patch c)) cs"

lemma carries_nothing: "readAt root path = Some before \<Longrightarrow> canon before = canon after \<Longrightarrow> carries h root path after []"
  by (simp add: carries_def applyPatch_def)

lemma carries_value:
  assumes "buildValuePatchCandidate h path after before True True = Inr c" "comparable h {before, after}"
    and "readAt root path = Some before"
  shows "carries h root path after (case c of None \<Rightarrow> [] | Some c \<Rightarrow> [c])"
proof -
  have eq: "valueEqual h after before = Inr (canon after = canon before)" by (rule comparable_equal [OF assms(2)]) simp_all
  show ?thesis
  proof (cases "canon after = canon before")
    case True
    then have "c = None" using assms(1) eq by (simp add: buildValuePatchCandidate_def)
    then show ?thesis using carries_nothing [OF assms(3)] True by simp
  next
    case False
    obtain s where "replaceAtPath root path after = Inr s \<and> readAt s path = Some after \<and> edits path root s"
      using replace_present [OF assms(3)] by blast
    then show ?thesis using False assms(1) eq
      by (auto simp: buildValuePatchCandidate_def Let_def carries_def applyPatch_def applyOp_pointer simp del: applyOp.simps)
  qed
qed

lemma element_structural:
  "element_candidates h path k bs as = Inr cs \<Longrightarrow> list_all (\<lambda>c. \<not> patchOpIsStructural (cand_patch c)) cs"
proof (induction bs arbitrary: as k cs)
  case (Cons b bs)
  then show ?case by (cases as; cases b) (auto simp: result_simps split: option.splits)
qed simp

lemma foldR_two: "applyPatch h s (xs @ ys) = bindR (applyPatch h s xs) (\<lambda>t. applyPatch h t ys)"
  by (simp add: applyPatch_def foldR_append)

lemma carries_array:
  assumes "buildArrayPatchCandidates h path before after True True = Inr cs"
    and c: "comparable h (content_of before \<union> content_of after)" and r: "readAt root path = Some before"
    and len: "case before of FArr xs \<Rightarrow> length xs \<le> Suc MAX_ARRAY_INDEX | _ \<Rightarrow> True"
  shows "carries h root path after cs"
proof -
  have pair: "comparable h {before, after}" by (rule comparable_subset [OF c]) (simp add: content_of_def)
  have eq: "valueEqual h before after = Inr (canon before = canon after)" by (rule comparable_equal [OF pair]) simp_all
  have value_case: "carries h root path after cs"
    if "bindR (buildValuePatchCandidate h path after before True True) (\<lambda>c. Inr (case c of None \<Rightarrow> [] | Some c \<Rightarrow> [c])) = Inr cs"
    using that carries_value [OF _ pair r] by (auto simp: result_simps)
  show ?thesis
  proof (cases "canon before = canon after")
    case True
    then have "cs = []" using assms(1) eq by (simp add: buildArrayPatchCandidates_def)
    then show ?thesis using carries_nothing [OF r True] by simp
  next
    case ne: False
    show ?thesis
    proof (cases "\<exists>bs as. before = FArr bs \<and> after = FArr as")
      case False
      then have "bindR (buildValuePatchCandidate h path after before True True) (\<lambda>c. Inr (case c of None \<Rightarrow> [] | Some c \<Rightarrow> [c])) = Inr cs"
        using assms(1) False unfolding buildArrayPatchCandidates_def by (simp add: eq ne split: fval.splits)
      then show ?thesis by (rule value_case)
    next
      case True
      then obtain bs as where arr: "before = FArr bs" "after = FArr as" by blast
      let ?fallback = "bindR (buildValuePatchCandidate h path after before True True) (\<lambda>c. Inr (case c of None \<Rightarrow> [] | Some c \<Rightarrow> [c]))"
      have split: "(if list_ex (\<lambda>(b, a). (b \<noteq> None) \<noteq> (a \<noteq> None)) (zip bs as) then ?fallback
          else if length as > length bs \<and> \<not> arrayTailIsDense as (length bs) then ?fallback
          else bindR (element_candidates h path 0 bs as) (\<lambda>elems.
              if elems @ tail_candidates path bs as = [] then ?fallback else Inr (elems @ tail_candidates path bs as))) = Inr cs"
        using assms(1) eq ne unfolding buildArrayPatchCandidates_def Let_def arr by simp
      show ?thesis
      proof (cases "?fallback = Inr cs")
        case True
        then show ?thesis by (rule value_case)
      next
        case False
        then have ok: "\<not> list_ex (\<lambda>(b, a). (b \<noteq> None) \<noteq> (a \<noteq> None)) (zip bs as)"
          "length as > length bs \<Longrightarrow> arrayTailIsDense as (length bs)"
          using split by (auto split: if_splits)
        obtain elems where elems: "element_candidates h path 0 bs as = Inr elems" "cs = elems @ tail_candidates path bs as"
          using split False ok by (auto simp: result_simps split: if_splits)
        have z: "\<forall>(b, a)\<in>set (zip bs as). (b \<noteq> None) = (a \<noteq> None)" using ok(1) by (auto simp: list_ex_iff)
        have cmp: "comparable h ({v. Some v \<in> set bs} \<union> {v. Some v \<in> set as})"
          by (rule comparable_subset [OF c]) (auto simp: content_of_def arr)
        have len': "0 + length bs \<le> Suc MAX_ARRAY_INDEX" using len arr by simp
        have r0: "readAt root path = Some (FArr ([] @ bs))" using r arr by simp
        obtain s bs' where s: "applyPatch h root (map cand_patch elems) = Inr s" "readAt s path = Some (FArr bs')" "edits path root s"
          "length bs' = length bs" "same_slots (take (length as) bs') (take (length bs) as)"
          using elements_apply [OF elems(1) z cmp r0 _ len'] by auto
        obtain s' ys where s': "applyPatch h s (map cand_patch (tail_candidates path bs as)) = Inr s'" "readAt s' path = Some (FArr ys)"
          "same_slots ys as" "edits path s s'"
          using tail_apply [OF s(2,4,5) ok(2)] by blast
        have "applyPatch h root (map cand_patch cs) = Inr s'" using s(1) s'(1) elems(2) by (simp add: foldR_two)
        moreover have "canon (FArr ys) = canon after" using s'(3) arr by (simp add: same_slots_def)
        moreover have "list_all (\<lambda>c. \<not> patchOpIsStructural (cand_patch c)) cs"
          using element_structural [OF elems(1)] elems(2) by (simp add: tail_candidates_def)
        ultimately show ?thesis using s'(2) edits_trans [OF s(3) s'(4)] unfolding carries_def by blast
      qed
    qed
  qed
qed

section \<open>The choice, by scanning\<close>

text \<open>The same choice with every question about pointers put to all the candidates: \<open>subsumed\<close> by some
  tail splice strictly above, \<open>covered\<close> by some kept path, \<open>withheld\<close> by some suppression.\<close>

definition subsumed :: "candidate list \<Rightarrow> path \<Rightarrow> bool" where
  "subsumed splices p \<longleftrightarrow> (\<exists>c\<in>set splices. isSubsumedByTailSplice c p)"

definition covered :: "path list \<Rightarrow> path \<Rightarrow> bool" where
  "covered covers p \<longleftrightarrow> (\<exists>q\<in>set covers. prefix q p)"

definition withheld :: "suppression list \<Rightarrow> path \<Rightarrow> bool" where
  "withheld suppress p \<longleftrightarrow> (\<exists>s\<in>set suppress. prefix (supp_path s) p \<and>
     (supp_path s = p \<or> subtree s \<or>
      (case tailStart s of None \<Rightarrow> False
       | Some start \<Rightarrow> isArrayIndexPropertyName (p ! length (supp_path s)) \<and> index_of (p ! length (supp_path s)) \<ge> start)))"

fun first_covers :: "path list \<Rightarrow> candidate list \<Rightarrow> candidate list" where
  "first_covers paths [] = []"
| "first_covers paths (c # cs) =
     (if covered paths (cand_path c) then first_covers paths cs
      else c # first_covers (paths @ [cand_path c]) cs)"

definition scan_patch_ops :: "candidate list \<Rightarrow> candidate list \<Rightarrow> suppression list \<Rightarrow> patch_op list" where
  "scan_patch_ops fullCover nonCover suppress =
     (let covers = first_covers [] (sort_key (length \<circ> cand_path) (filter (\<lambda>c. \<not> subsumed nonCover (cand_path c)) fullCover));
          others = filter (\<lambda>c. \<not> covered (map cand_path covers) (cand_path c) \<and> \<not> subsumed nonCover (cand_path c)) nonCover
      in map cand_patch (filter (\<lambda>c. \<not> withheld suppress (cand_path c)) (covers @ others)))"

lemma file_under_eq: "file_under key items k = filter (\<lambda>x. key x = k) items"
proof -
  have "foldl (\<lambda>m x. m(key x := m (key x) @ [x])) m items k = m k @ filter (\<lambda>x. key x = k) items" for m
    by (induction items arbitrary: m) auto
  then show ?thesis by (simp add: file_under_def)
qed

lemma in_prefix_pointers: "encodePointer q \<in> set (prefixPointers p) \<longleftrightarrow> prefix q p"
  by (simp add: prefixPointers_prefix)

lemma prefixOverlap_iff: "prefixOverlap q p \<longleftrightarrow> prefix q p"
  unfolding prefixOverlap_def pathsOverlap_iff by (auto simp: prefix_def)

lemma strict_prefix_take: "strict_prefix q p \<longleftrightarrow> (\<exists>i<length p. q = take i p)"
proof
  assume "strict_prefix q p"
  then have "q = take (length q) p" "length q < length p" by (auto simp: strict_prefix_def prefix_def)
  then show "\<exists>i<length p. q = take i p" by blast
next
  assume "\<exists>i<length p. q = take i p"
  then obtain i where "i < length p" "q = take i p" by blast
  then have "prefix q p" "length q < length p" by (simp_all add: take_is_prefix)
  then show "strict_prefix q p" by (auto simp: strict_prefix_def)
qed

lemma pointers_above: "set (butlast (prefixPointers p)) = {encodePointer q | q. strict_prefix q p}"
proof -
  have "butlast (prefixPointers p) = map (\<lambda>i. encodePointer (take i p)) [0..<length p]"
    by (simp add: prefixPointers_eq)
  then show ?thesis by (auto simp: strict_prefix_take encodePointer_inj)
qed

lemma subsumed_above:
  "isSubsumedByTailSplice c p \<Longrightarrow> tailSpliceStartIndex c \<noteq> None \<and> strict_prefix (cand_path c) p"
  by (auto simp: isSubsumedByTailSplice_def prefixOverlap_iff strict_prefix_def split: option.splits if_splits)

lemma subsumed_iff:
  "subsumedByAnyTailSplice (file_under (encodePointer \<circ> cand_path) (filter (\<lambda>c. tailSpliceStartIndex c \<noteq> None) cs)) p
     \<longleftrightarrow> subsumed cs p"
  (is "?filed \<longleftrightarrow> _")
proof
  assume ?filed
  then show "subsumed cs p"
    unfolding subsumedByAnyTailSplice_def file_under_eq list_ex_iff subsumed_def by auto
next
  assume "subsumed cs p"
  then obtain c where c: "c \<in> set cs" "isSubsumedByTailSplice c p" unfolding subsumed_def by blast
  with subsumed_above have "tailSpliceStartIndex c \<noteq> None" "strict_prefix (cand_path c) p" by blast+
  then have "encodePointer (cand_path c) \<in> set (butlast (prefixPointers p))" unfolding pointers_above by blast
  then show ?filed
    unfolding subsumedByAnyTailSplice_def file_under_eq list_ex_iff
    using c \<open>tailSpliceStartIndex c \<noteq> None\<close>
    by (intro bexI [of _ "encodePointer (cand_path c)"] bexI [of _ c]) simp_all
qed

lemma cover_iff: "isUnderCover (map encodePointer paths) p \<longleftrightarrow> covered paths p"
proof -
  have "isUnderCover (map encodePointer paths) p \<longleftrightarrow> (\<exists>q\<in>set paths. encodePointer q \<in> set (prefixPointers p))"
    unfolding isUnderCover_def list_ex_iff by auto
  then show ?thesis unfolding covered_def in_prefix_pointers .
qed

lemma covers_iff: "isUnderCover (map (encodePointer \<circ> cand_path) cs) p \<longleftrightarrow> covered (map cand_path cs) p"
  using cover_iff [of "map cand_path cs"] by simp

lemma keep_covers_eq:
  "keep_covers (map encodePointer paths) cs = (first_covers paths cs, map encodePointer (paths @ map cand_path (first_covers paths cs)))"
proof (induction cs arbitrary: paths)
  case (Cons c cs)
  show ?case
    using Cons.IH [of paths] Cons.IH [of "paths @ [cand_path c]"] by (simp add: cover_iff)
qed simp

lemma numbered_pointers:
  "set (enumerate 0 (prefixPointers p)) = {(len, encodePointer (take len p)) | len. len \<le> length p}"
  by (auto simp: prefixPointers_eq in_set_enumerate_eq less_Suc_eq_le simp del: upt_Suc)

lemma suppressed_iff: "isSuppressed (file_under (encodePointer \<circ> supp_path) ss) p \<longleftrightarrow> withheld ss p"
proof -
  have "isSuppressed (file_under (encodePointer \<circ> supp_path) ss) p
      \<longleftrightarrow> (\<exists>len\<le>length p. \<exists>s\<in>set ss. supp_path s = take len p \<and> suppresses p len s)"
    unfolding isSuppressed_def file_under_eq list_ex_iff numbered_pointers
    by (auto simp: encodePointer_inj Bex_def)
  also have "\<dots> \<longleftrightarrow> withheld ss p"
  proof
    assume "\<exists>len\<le>length p. \<exists>s\<in>set ss. supp_path s = take len p \<and> suppresses p len s"
    then obtain len s where s: "len \<le> length p" "s \<in> set ss" "supp_path s = take len p" "suppresses p len s" by blast
    then have "length (supp_path s) = len" "prefix (supp_path s) p" by (simp_all add: take_is_prefix)
    then show "withheld ss p" using s unfolding withheld_def suppresses_def by (intro bexI [of _ s]) (auto split: if_splits option.splits)
  next
    assume "withheld ss p"
    then obtain s where s: "s \<in> set ss" "prefix (supp_path s) p" "supp_path s = p \<or> subtree s \<or>
      (case tailStart s of None \<Rightarrow> False
       | Some start \<Rightarrow> isArrayIndexPropertyName (p ! length (supp_path s)) \<and> index_of (p ! length (supp_path s)) \<ge> start)"
      unfolding withheld_def by blast
    then have "supp_path s = take (length (supp_path s)) p" "length (supp_path s) \<le> length p"
      by (auto simp: prefix_def)
    then show "\<exists>len\<le>length p. \<exists>s\<in>set ss. supp_path s = take len p \<and> suppresses p len s"
      using s unfolding suppresses_def by (intro exI [of _ "length (supp_path s)"]) auto
  qed
  finally show ?thesis .
qed

section \<open>Properties\<close>

lemma mapR_image: "mapR f xs = Inr ys \<Longrightarrow> (\<forall>x\<in>set xs. \<exists>y\<in>set ys. f x = Inr y)"
  by (induction xs arbitrary: ys) (auto simp: result_simps)

lemma comparable_feeds:
  assumes "mapR (feedValue padding_host) vs = Inr xs" "list_all (\<lambda>v. long_strings v = []) vs"
    and "inj_on (sha256 padding_host) (set xs)"
  shows "comparable padding_host (set vs)"
proof -
  have feeds: "\<exists>x\<in>set xs. feedValue padding_host v = Inr x \<and> long_strings v = []" if "v \<in> set vs" for v
    using mapR_image [OF assms(1)] assms(2) that by (auto simp: list_all_iff)
  have "set (hashed_bytes padding_host v) \<subseteq> set xs" if "v \<in> set vs" for v
    using feeds [OF that] by (auto simp: hashed_bytes_def)
  then have "(\<Union>v\<in>set vs. set (hashed_bytes padding_host v)) \<subseteq> set xs" by blast
  then have "sha_ok padding_host (\<Union>v\<in>set vs. set (hashed_bytes padding_host v))"
    using assms(3) inj_on_subset by (intro padding_host_ok) blast
  moreover have "hashable padding_host v" if "v \<in> set vs" for v using feeds [OF that] by (auto simp: hashable_def)
  ultimately show ?thesis by (simp add: comparable_def)
qed

text \<open>C35. The patch a changed array is sent as carries the change: replayed over a document that holds
  the array as it was, it always succeeds and leaves the path reading a value of the new content, and
  it changes nothing beside that path. It holds no structural operation, so that it shifts no element
  the conflict check does not see, and it is whole whatever the lengths and the holes of the two arrays
  and where one of them is no array at all.\<close>

theorem array_patch_carries_change:
  assumes "buildArrayPatchCandidates h path before after True True = Inr cs"
    and "comparable h (content_of before \<union> content_of after)" and "readAt root path = Some before"
    and "case before of FArr xs \<Rightarrow> length xs \<le> Suc MAX_ARRAY_INDEX | _ \<Rightarrow> True"
  shows "(\<exists>s w. applyPatch h root (map cand_patch cs) = Inr s \<and> readAt s path = Some w \<and> canon w = canon after
      \<and> (\<forall>q. \<not> pathsOverlap path q \<longrightarrow> readAt s q = readAt root q))
    \<and> list_all (\<lambda>c. \<not> patchOpIsStructural (cand_patch c)) cs"
  using carries_array [OF assms] unfolding carries_def edits_def .

theorem array_patch_carries_change_witness:
  "buildArrayPatchCandidates padding_host [''a''] (FArr [Some (FBool True)]) (FArr [Some FNull, Some FUndefined]) True True
     = Inr [\<lparr>cand_patch = Replace ''/a/0'' FNull, cand_path = [''a'', ''0''], coversDescendants = True, tailSpliceStartIndex = None\<rparr>,
            \<lparr>cand_patch = Splice ''/a'' 1 0 [Some FUndefined], cand_path = [''a''], coversDescendants = False,
              tailSpliceStartIndex = Some 1\<rparr>]
   \<and> (\<exists>s w. applyPatch padding_host (FObj [(''a'', FArr [Some (FBool True)])])
          [Replace ''/a/0'' FNull, Splice ''/a'' 1 0 [Some FUndefined]] = Inr s
        \<and> readAt s [''a''] = Some w \<and> canon w = canon (FArr [Some FNull, Some FUndefined]))"
proof -
  let ?before = "FArr [Some (FBool True)]" and ?after = "FArr [Some FNull, Some FUndefined]"
  have b: "buildArrayPatchCandidates padding_host [''a''] ?before ?after True True
     = Inr [\<lparr>cand_patch = Replace ''/a/0'' FNull, cand_path = [''a'', ''0''], coversDescendants = True, tailSpliceStartIndex = None\<rparr>,
            \<lparr>cand_patch = Splice ''/a'' 1 0 [Some FUndefined], cand_path = [''a''], coversDescendants = False,
              tailSpliceStartIndex = Some 1\<rparr>]"
    by code_simp
  let ?feeds = "[[16, 34, 1, 0], [34, 1], [16, 32, 33, 0], [32], [33]]"
  have "mapR (feedValue padding_host) [?before, FBool True, ?after, FNull, FUndefined] = Inr ?feeds" by code_simp
  moreover have "list_all (\<lambda>v. long_strings v = []) [?before, FBool True, ?after, FNull, FUndefined]" by simp
  moreover have "inj_on (sha256 padding_host) (set ?feeds)" by (simp add: padding_host_def)
  ultimately have "comparable padding_host (set [?before, FBool True, ?after, FNull, FUndefined])"
    by (rule comparable_feeds)
  then have c: "comparable padding_host (content_of ?before \<union> content_of ?after)"
    by (rule comparable_subset) (auto simp: content_of_def)
  have r: "readAt (FObj [(''a'', ?before)]) [''a''] = Some ?before" by code_simp
  show ?thesis using array_patch_carries_change [OF b c r] b by auto
qed

text \<open>The keys the details are kept under are not injective where a segment holds a NUL: two writes that
  both change the document are filed under one key, and the patch sent carries the last of them alone,
  while the operation's value holds both.\<close>

lemma nul_segments_collide:
  "buildPatchOperation padding_host
     (FObj [(''a'', FObj [(''b'', FBool True)]), ([CHR ''a'', CHR 0x00, CHR ''b''], FBool True)])
     (FObj [(''a'', FObj [(''b'', FNull)]), ([CHR ''a'', CHR 0x00, CHR ''b''], FNull)])
     [[''a'', ''b''], [[CHR ''a'', CHR 0x00, CHR ''b'']]] []
   = Inr (Some [Replace [CHR ''/'', CHR ''a'', CHR 0x00, CHR ''b''] FNull])"
  by code_simp

text \<open>The choice among a commit's candidates, made by looking pointers up, is the one scanning all of
  them would make: a covering candidate stays unless a tail splice above it subsumes it or a kept
  one, shorter paths first, sits at or above its path; another stays unless one of those covers it;
  and neither is sent where a suppression names it.\<close>

theorem select_patch_ops_scans:
  "selectPatchOps fullCover nonCover suppress = scan_patch_ops fullCover nonCover suppress"
  unfolding selectPatchOps_def scan_patch_ops_def Let_def subsumed_iff
  using keep_covers_eq [of "[]"] by (simp add: covers_iff suppressed_iff)

end
