(* ===== verification/DocumentCache.thy ===== *)
theory DocumentCache
  imports PatchMerge "HOL-Library.AList"
begin

text \<open>
  The cache of decoded documents (\<^verbatim>\<open>runtime/memory/v2/engine.ts\<close>): what an engine keeps between reads,
  and the coordinator that bounds what all engines of a process keep together. An engine is a number; a
  process holds the cache of every engine and the one coordinator. A JavaScript \<^verbatim>\<open>Map\<close> or \<^verbatim>\<open>Set\<close>
  is the list of its entries in insertion order, so that the head is the least recently used. The
  counters of hits, misses and replays are not modelled.
\<close>

section \<open>The interface of a memo table\<close>

text \<open>What a client of a memo table relies on: looking up adds no entry, storing adds at most the one
  entry. Whatever a client keeps true of the entries it stores is then true of the ones it finds.\<close>

locale memo_table =
  fixes look :: "'c \<Rightarrow> 'k \<Rightarrow> 'e option \<times> 'c"
    and store :: "'c \<Rightarrow> 'k \<Rightarrow> 'e \<Rightarrow> 'c"
    and content :: "'e \<Rightarrow> 'v"
    and entries :: "'c \<Rightarrow> ('k \<times> 'v) set"
  assumes look_entries: "look c k = (r, c') \<Longrightarrow> entries c' \<subseteq> entries c"
    and look_found: "look c k = (Some e, c') \<Longrightarrow> (k, content e) \<in> entries c"
    and store_entries: "entries (store c k e) \<subseteq> insert (k, content e) (entries c)"
begin

definition sound :: "('k \<Rightarrow> 'v \<Rightarrow> bool) \<Rightarrow> 'c \<Rightarrow> bool" where
  "sound P c \<longleftrightarrow> (\<forall>(k, v)\<in>entries c. P k v)"

lemma look_sound: "look c k = (r, c') \<Longrightarrow> sound P c \<Longrightarrow> sound P c'"
  using look_entries by (fastforce simp: sound_def)

lemma found_sound: "look c k = (Some e, c') \<Longrightarrow> sound P c \<Longrightarrow> P k (content e)"
  using look_found by (fastforce simp: sound_def)

lemma store_sound: "sound P c \<Longrightarrow> P k (content e) \<Longrightarrow> sound P (store c k e)"
  using store_entries by (fastforce simp: sound_def)

lemma sound_mono: "sound P c \<Longrightarrow> (\<And>k v. (k, v) \<in> entries c \<Longrightarrow> P k v \<Longrightarrow> Q k v) \<Longrightarrow> sound Q c"
  by (auto simp: sound_def)

end

section \<open>The caches of a process\<close>

record cache_entry =
  cached_document :: "fval option"
  weight :: int

record doc_cache =
  documentCache :: "(string \<times> cache_entry) list"
  documentCacheBytes :: int
  documentCacheBudgetBytes :: int
  documentCacheMaxEntries :: int
  stagedDocumentCache :: "(string \<times> cache_entry) list option"
  inTransaction :: bool
  evictions :: nat
  coordinated :: bool \<comment> \<open>the engine was opened with the coordinator\<close>

record process =
  engine_caches :: "nat \<Rightarrow> doc_cache"
  coord_engines :: "nat list"
  coord_bytes :: int
  coord_budget :: int
  coord_evictions :: nat

definition cache_size :: "doc_cache \<Rightarrow> int" where
  "cache_size c = int (length (documentCache c))"

definition set_cache :: "nat \<Rightarrow> doc_cache \<Rightarrow> process \<Rightarrow> process" where
  "set_cache i c p = p\<lparr>engine_caches := (engine_caches p)(i := c)\<rparr>"

definition touched :: "nat \<Rightarrow> process \<Rightarrow> process" where
  "touched i p = p\<lparr>coord_engines := removeAll i (coord_engines p) @ [i]\<rparr>"

definition released :: "int \<Rightarrow> process \<Rightarrow> process" where
  "released w p = p\<lparr>coord_bytes := coord_bytes p - w\<rparr>"

definition dropOldestDocumentCacheEntry :: "nat \<Rightarrow> process \<Rightarrow> int \<times> process" where
  "dropOldestDocumentCacheEntry i p =
     (let c = engine_caches p i; oldest = snd (hd (documentCache c));
          c' = c\<lparr>documentCache := tl (documentCache c), documentCacheBytes := documentCacheBytes c - weight oldest,
                 evictions := evictions c + 1\<rparr>;
          p' = set_cache i c' p
      in (weight oldest, if coordinated c then released (weight oldest) p' else p'))"

lemma drop_shortens [termination_simp]:
  "documentCache (engine_caches p i) \<noteq> [] \<Longrightarrow>
   length (documentCache (engine_caches (snd (dropOldestDocumentCacheEntry i p)) i)) < length (documentCache (engine_caches p i))"
  by (simp add: dropOldestDocumentCacheEntry_def set_cache_def released_def Let_def)

function evict_loop :: "nat \<Rightarrow> int \<Rightarrow> int \<Rightarrow> process \<Rightarrow> int \<times> process" where
  "evict_loop i bytes freed p =
     (if freed < bytes \<and> documentCache (engine_caches p i) \<noteq> [] then
        let dropped = dropOldestDocumentCacheEntry i p in evict_loop i bytes (freed + fst dropped) (snd dropped)
      else (freed, p))"
  by pat_completeness auto
termination
  by (relation "measure (\<lambda>(i, b, f, p). length (documentCache (engine_caches p i)))") (auto simp: drop_shortens)

declare evict_loop.simps [simp del]

definition evictDocumentCacheEntries :: "nat \<Rightarrow> int \<Rightarrow> process \<Rightarrow> int \<times> process" where
  "evictDocumentCacheEntries i bytes p = evict_loop i bytes 0 p"

fun trim :: "nat list \<Rightarrow> process \<Rightarrow> process" where
  "trim [] p = p"
| "trim (victim # victims) p =
     (if coord_bytes p \<le> coord_budget p then p
      else
        let before = evictions (engine_caches p victim);
            p' = snd (evictDocumentCacheEntries victim (coord_bytes p - coord_budget p) p)
        in trim victims (p'\<lparr>coord_evictions := coord_evictions p' + (evictions (engine_caches p' victim) - before)\<rparr>))"

definition admitted :: "nat \<Rightarrow> int \<Rightarrow> process \<Rightarrow> process" where
  "admitted i w p =
     (let p' = touched i (p\<lparr>coord_bytes := coord_bytes p + w\<rparr>) in
      if coord_bytes p' \<le> coord_budget p' then p' else trim (coord_engines p') p')"

definition removed :: "nat \<Rightarrow> process \<Rightarrow> process" where
  "removed i p =
     (if i \<in> set (coord_engines p)
      then p\<lparr>coord_engines := removeAll i (coord_engines p), coord_bytes := coord_bytes p - documentCacheBytes (engine_caches p i)\<rparr>
      else p)"

definition close_cache :: "nat \<Rightarrow> process \<Rightarrow> process" where
  "close_cache i p =
     (let p' = (if coordinated (engine_caches p i) then removed i p else p)
      in set_cache i ((engine_caches p' i)\<lparr>documentCache := [], documentCacheBytes := 0\<rparr>) p')"

definition cachedDocumentForRevision :: "nat \<Rightarrow> string \<Rightarrow> process \<Rightarrow> cache_entry option \<times> process" where
  "cachedDocumentForRevision i key p =
     (let c = engine_caches p i in
      case (case stagedDocumentCache c of None \<Rightarrow> None | Some staged \<Rightarrow> map_of staged key) of
        Some e \<Rightarrow> (Some e, p)
      | None \<Rightarrow>
          (case map_of (documentCache c) key of
             None \<Rightarrow> (None, p)
           | Some e \<Rightarrow>
               let p' = set_cache i (c\<lparr>documentCache := AList.delete key (documentCache c) @ [(key, e)]\<rparr>) p
               in (Some e, if coordinated c then touched i p' else p')))"

function make_room :: "nat \<Rightarrow> int \<Rightarrow> process \<Rightarrow> process" where
  "make_room i w p =
     (let c = engine_caches p i in
      if documentCache c \<noteq> [] \<and>
         (cache_size c \<ge> documentCacheMaxEntries c \<or> documentCacheBytes c + w > documentCacheBudgetBytes c)
      then make_room i w (snd (dropOldestDocumentCacheEntry i p))
      else p)"
  by pat_completeness auto
termination
  by (relation "measure (\<lambda>(i, w, p). length (documentCache (engine_caches p i)))") (auto simp: drop_shortens)

declare make_room.simps [simp del]

definition cacheDocumentForRevision :: "nat \<Rightarrow> string \<Rightarrow> cache_entry \<Rightarrow> process \<Rightarrow> process" where
  "cacheDocumentForRevision i key entry p =
     (let c = engine_caches p i in
      case stagedDocumentCache c of
        Some staged \<Rightarrow> set_cache i (c\<lparr>stagedDocumentCache := Some (AList.update key entry staged)\<rparr>) p
      | None \<Rightarrow>
          if inTransaction c then p
          else
            let w = max (weight entry) 1 in
            if w > documentCacheBudgetBytes c then p
            else
              let p' = make_room i w p; c' = engine_caches p' i;
                  p'' = set_cache i (c'\<lparr>documentCache := AList.update key \<lparr>cached_document = cached_document entry, weight = w\<rparr> (documentCache c'),
                                         documentCacheBytes := documentCacheBytes c' + w\<rparr>) p'
              in if coordinated c' then admitted i w p'' else p'')"

section \<open>What the caches hold\<close>

definition staged_entries :: "doc_cache \<Rightarrow> (string \<times> cache_entry) list" where
  "staged_entries c = (case stagedDocumentCache c of None \<Rightarrow> [] | Some staged \<Rightarrow> staged)"

definition cache_entries :: "nat \<Rightarrow> process \<Rightarrow> (string \<times> fval option) set" where
  "cache_entries i p =
     (\<lambda>(k, e). (k, cached_document e)) ` (set (staged_entries (engine_caches p i)) \<union> set (documentCache (engine_caches p i)))"

text \<open>Evicting takes entries away and changes nothing else of a cache but its counts.\<close>

definition shrinks :: "process \<Rightarrow> process \<Rightarrow> bool" where
  "shrinks p q \<longleftrightarrow> (\<forall>j. set (documentCache (engine_caches q j)) \<subseteq> set (documentCache (engine_caches p j))
     \<and> stagedDocumentCache (engine_caches q j) = stagedDocumentCache (engine_caches p j)
     \<and> inTransaction (engine_caches q j) = inTransaction (engine_caches p j)
     \<and> coordinated (engine_caches q j) = coordinated (engine_caches p j))"

lemma shrinks_refl [simp]: "shrinks p p"
  by (simp add: shrinks_def)

lemma shrinks_trans: "shrinks p q \<Longrightarrow> shrinks q r \<Longrightarrow> shrinks p r"
  unfolding shrinks_def by (metis subset_trans)

lemma shrinks_entries: "shrinks p q \<Longrightarrow> cache_entries j q \<subseteq> cache_entries j p"
  unfolding shrinks_def cache_entries_def staged_entries_def by (metis (no_types, lifting) Un_mono image_mono subset_refl)

lemma drop_shrinks: "documentCache (engine_caches p i) \<noteq> [] \<Longrightarrow> shrinks p (snd (dropOldestDocumentCacheEntry i p))"
  by (auto simp: shrinks_def dropOldestDocumentCacheEntry_def set_cache_def released_def Let_def dest: list.set_sel(2))

text \<open>The loops only ever drop oldest entries and count what the coordinator evicted.\<close>

inductive drops :: "process \<Rightarrow> process \<Rightarrow> bool" where
  nothing: "drops p p"
| oldest: "documentCache (engine_caches p i) \<noteq> [] \<Longrightarrow> drops (snd (dropOldestDocumentCacheEntry i p)) q \<Longrightarrow> drops p q"
| counted: "drops (p\<lparr>coord_evictions := n\<rparr>) q \<Longrightarrow> drops p q"

lemma drops_trans: "drops p q \<Longrightarrow> drops q r \<Longrightarrow> drops p r"
  by (induction rule: drops.induct) (auto intro: drops.intros)

lemma evict_drops: "drops p (snd (evict_loop i b f p))"
proof (induction i b f p rule: evict_loop.induct)
  case (1 i b f p)
  show ?case
    by (subst evict_loop.simps) (use 1 [OF _ refl] in \<open>auto simp: Let_def intro: drops.nothing drops.oldest\<close>)
qed

lemma make_room_drops: "drops p (make_room i w p)"
proof (induction i w p rule: make_room.induct)
  case (1 i w p)
  show ?case
    by (subst make_room.simps) (use 1 [OF refl] in \<open>auto simp: Let_def intro: drops.nothing drops.oldest\<close>)
qed

lemma trim_drops: "drops p (trim vs p)"
proof (induction vs arbitrary: p)
  case (Cons v vs)
  show ?case
  proof (cases "coord_bytes p \<le> coord_budget p")
    case True
    then show ?thesis by (simp add: drops.nothing)
  next
    case False
    let ?q = "snd (evictDocumentCacheEntries v (coord_bytes p - coord_budget p) p)"
    have "drops p ?q" by (simp add: evictDocumentCacheEntries_def evict_drops)
    moreover have "drops ?q (trim vs (?q\<lparr>coord_evictions := n\<rparr>))" for n by (rule drops.counted, rule Cons.IH)
    ultimately show ?thesis using False by (simp add: Let_def drops_trans)
  qed
qed (simp add: drops.nothing)

lemma drops_shrinks: "drops p q \<Longrightarrow> shrinks p q"
proof (induction rule: drops.induct)
  case (oldest p i q)
  then show ?case using drop_shrinks shrinks_trans by blast
next
  case (counted p n q)
  then show ?case by (simp add: shrinks_def)
qed simp

lemma admitted_shrinks: "shrinks p (admitted i w p)"
proof -
  let ?q = "touched i (p\<lparr>coord_bytes := coord_bytes p + w\<rparr>)"
  have "shrinks p ?q" by (simp add: shrinks_def touched_def)
  moreover have "shrinks ?q (trim vs ?q)" for vs by (rule drops_shrinks, rule trim_drops)
  ultimately show ?thesis unfolding admitted_def Let_def by (auto intro: shrinks_trans)
qed

lemma map_of_documents: "map_of xs k = Some e \<Longrightarrow> (k, cached_document e) \<in> (\<lambda>(k, e). (k, cached_document e)) ` set xs"
  by (force dest: map_of_SomeD)

lemma moved_last_subset: "map_of xs k = Some e \<Longrightarrow> set (AList.delete k xs @ [(k, e)]) \<subseteq> set xs"
  by (auto simp: AList.delete_eq dest: map_of_SomeD)

lemma look_shrinks: "cachedDocumentForRevision i k c = (r, c') \<Longrightarrow> shrinks c c'"
proof -
  assume "cachedDocumentForRevision i k c = (r, c')"
  then show "shrinks c c'"
    using moved_last_subset [of "documentCache (engine_caches c i)" k]
    by (auto simp: cachedDocumentForRevision_def Let_def shrinks_def set_cache_def touched_def split: option.splits if_splits)
qed

lemma set_update_subset: "set (AList.update k v xs) \<subseteq> insert (k, v) (set xs)"
  by (induction xs) auto

interpretation cache: memo_table "\<lambda>p k. cachedDocumentForRevision i k p" "\<lambda>p k e. cacheDocumentForRevision i k e p"
    cached_document "cache_entries i" for i
proof
  fix c k r c'
  assume "cachedDocumentForRevision i k c = (r, c')"
  then have "shrinks c c'" by (rule look_shrinks)
  then show "cache_entries i c' \<subseteq> cache_entries i c" by (rule shrinks_entries)
next
  fix c k e c'
  assume "cachedDocumentForRevision i k c = (Some e, c')"
  then show "(k, cached_document e) \<in> cache_entries i c"
    by (auto simp: cachedDocumentForRevision_def Let_def cache_entries_def staged_entries_def
        split: option.splits if_splits dest: map_of_documents)
next
  fix c k e
  show "cache_entries i (cacheDocumentForRevision i k e c) \<subseteq> insert (k, cached_document e) (cache_entries i c)"
  proof -
    let ?c = "engine_caches c i"
    show ?thesis
    proof (cases "stagedDocumentCache ?c")
      case (Some staged)
      have "set (AList.update k e staged) \<subseteq> insert (k, e) (set staged)" by (rule set_update_subset)
      then show ?thesis using Some
        by (auto simp: cacheDocumentForRevision_def Let_def cache_entries_def staged_entries_def set_cache_def)
    next
      case None
      let ?w = "max (weight e) 1" and ?e = "\<lparr>cached_document = cached_document e, weight = max (weight e) 1\<rparr>"
      let ?p = "make_room i ?w c"
      let ?q = "set_cache i ((engine_caches ?p i)\<lparr>documentCache := AList.update k ?e (documentCache (engine_caches ?p i)),
          documentCacheBytes := documentCacheBytes (engine_caches ?p i) + ?w\<rparr>) ?p"
      have "set (AList.update k ?e xs) \<subseteq> insert (k, ?e) (set xs)" for xs by (rule set_update_subset)
      then have "cache_entries i ?q \<subseteq> insert (k, cached_document e) (cache_entries i ?p)"
        by (fastforce simp: cache_entries_def staged_entries_def set_cache_def)
      moreover have "cache_entries i ?p \<subseteq> cache_entries i c"
        by (rule shrinks_entries, rule drops_shrinks, rule make_room_drops)
      moreover have "cache_entries i (admitted i ?w ?q) \<subseteq> cache_entries i ?q"
        by (rule shrinks_entries, rule admitted_shrinks)
      ultimately show ?thesis using None by (auto simp: cacheDocumentForRevision_def Let_def)
    qed
  qed
qed

section \<open>The bounds\<close>

definition total_weight :: "(string \<times> cache_entry) list \<Rightarrow> int" where
  "total_weight xs = sum_list (map (weight \<circ> snd) xs)"

text \<open>What is counted is what is there, for every engine and for the coordinator.\<close>

definition entries_counted :: "doc_cache \<Rightarrow> bool" where
  "entries_counted c \<longleftrightarrow> distinct (map fst (documentCache c)) \<and> documentCacheBytes c = total_weight (documentCache c)
     \<and> (\<forall>(k, e)\<in>set (documentCache c). 1 \<le> weight e)"

definition listed :: "process \<Rightarrow> nat \<Rightarrow> bool" where
  "listed p i \<longleftrightarrow> (i \<in> set (coord_engines p) \<longrightarrow> coordinated (engine_caches p i))
     \<and> (coordinated (engine_caches p i) \<and> i \<notin> set (coord_engines p) \<longrightarrow> documentCache (engine_caches p i) = [])"

definition counted :: "process \<Rightarrow> bool" where
  "counted p \<longleftrightarrow> (\<forall>i. entries_counted (engine_caches p i)) \<and> (\<forall>i. listed p i) \<and> distinct (coord_engines p)
     \<and> coord_bytes p = (\<Sum>i\<in>set (coord_engines p). documentCacheBytes (engine_caches p i))"

text \<open>Every engine keeps to its byte budget and its number of entries, and all together to the
  coordinator's.\<close>

definition within_bounds :: "doc_cache \<Rightarrow> bool" where
  "within_bounds c \<longleftrightarrow> documentCacheBytes c \<le> documentCacheBudgetBytes c \<and> cache_size c \<le> documentCacheMaxEntries c
     \<and> 1 \<le> documentCacheMaxEntries c"

definition bounded :: "process \<Rightarrow> bool" where
  "bounded p \<longleftrightarrow> counted p \<and> (\<forall>i. within_bounds (engine_caches p i)) \<and> coord_bytes p \<le> coord_budget p \<and> 0 \<le> coord_budget p"

lemma total_weight_simps [simp]:
  "total_weight [] = 0"
  "total_weight (x # xs) = weight (snd x) + total_weight xs"
  "total_weight (xs @ ys) = total_weight xs + total_weight ys"
  by (simp_all add: total_weight_def)

lemma total_weight_nonneg: "(\<forall>(k, e)\<in>set xs. 1 \<le> weight e) \<Longrightarrow> int (length xs) \<le> total_weight xs"
  by (induction xs) fastforce+

lemma sum_fun_upd:
  fixes f :: "'i \<Rightarrow> int"
  assumes "finite A" "i \<in> A"
  shows "sum (f(i := x)) A = sum f A - f i + x"
proof -
  have "sum (f(i := x)) A = x + sum (f(i := x)) (A - {i})" using sum.remove [OF assms, of "f(i := x)"] by simp
  moreover have "sum (f(i := x)) (A - {i}) = sum f (A - {i})" by (rule sum.cong) auto
  moreover have "sum f A = f i + sum f (A - {i})" by (rule sum.remove [OF assms])
  ultimately show ?thesis by simp
qed

lemma set_cache_simps [simp]:
  "engine_caches (set_cache i c p) = (engine_caches p)(i := c)"
  "coord_engines (set_cache i c p) = coord_engines p" "coord_bytes (set_cache i c p) = coord_bytes p"
  "coord_budget (set_cache i c p) = coord_budget p"
  by (simp_all add: set_cache_def)

lemma set_cache_same [simp]: "(set_cache i c p)\<lparr>coord_bytes := coord_bytes p\<rparr> = set_cache i c p"
  by (cases p) (simp add: set_cache_def)

text \<open>Putting a cache in an engine's place keeps the counts if the coordinator hears of the difference.\<close>

lemma counted_set:
  assumes "counted p" and "entries_counted c" and "coordinated c = coordinated (engine_caches p i)"
    and "coordinated c \<Longrightarrow> i \<notin> set (coord_engines p) \<Longrightarrow> documentCache c = []"
    and "b = (if coordinated c then coord_bytes p - documentCacheBytes (engine_caches p i) + documentCacheBytes c else coord_bytes p)"
  shows "counted ((set_cache i c p)\<lparr>coord_bytes := b\<rparr>)"
proof -
  let ?bytes = "\<lambda>j. documentCacheBytes (engine_caches p j)"
  have e: "entries_counted (engine_caches p j)" and l: "listed p j" for j using assms(1) by (simp_all add: counted_def)
  have total: "coord_bytes p = sum ?bytes (set (coord_engines p))" using assms(1) by (simp add: counted_def)
  have "b = sum (?bytes(i := documentCacheBytes c)) (set (coord_engines p))"
  proof (cases "i \<in> set (coord_engines p)")
    case True
    then show ?thesis using sum_fun_upd [OF _ True, of ?bytes] total assms(3,5) l [of i] by (simp add: listed_def)
  next
    case False
    have "sum (?bytes(i := documentCacheBytes c)) (set (coord_engines p)) = coord_bytes p"
      unfolding total by (rule sum.cong) (use False in auto)
    moreover have "coordinated c \<Longrightarrow> documentCacheBytes c = 0 \<and> ?bytes i = 0"
      using assms(2,3,4) False e [of i] l [of i] by (simp add: entries_counted_def listed_def)
    ultimately show ?thesis using assms(5) by auto
  qed
  moreover have "?bytes(i := documentCacheBytes c) = (\<lambda>j. documentCacheBytes (((engine_caches p)(i := c)) j))" by auto
  ultimately have sums: "b = (\<Sum>j\<in>set (coord_engines p). documentCacheBytes (((engine_caches p)(i := c)) j))" by simp
  have "listed ((set_cache i c p)\<lparr>coord_bytes := b\<rparr>) j" for j
    using l [of j] assms(3,4) by (auto simp: listed_def)
  moreover have "entries_counted (engine_caches ((set_cache i c p)\<lparr>coord_bytes := b\<rparr>) j)" for j
    using e [of j] assms(2) by simp
  moreover have "distinct (coord_engines p)" using assms(1) by (simp add: counted_def)
  ultimately show ?thesis unfolding counted_def by (intro conjI allI) (simp_all add: sums del: fun_upd_apply)
qed

lemma drop_counted:
  assumes "counted p" "documentCache (engine_caches p i) \<noteq> []"
  shows "counted (snd (dropOldestDocumentCacheEntry i p))"
proof -
  obtain k e rest where c: "documentCache (engine_caches p i) = (k, e) # rest"
    using assms(2) by (cases "documentCache (engine_caches p i)") auto
  let ?c = "engine_caches p i"
  let ?c' = "?c\<lparr>documentCache := rest, documentCacheBytes := documentCacheBytes ?c - weight e, evictions := evictions ?c + 1\<rparr>"
  have ok: "entries_counted ?c" "listed p i" using assms(1) by (simp_all add: counted_def)
  have "counted ((set_cache i ?c' p)\<lparr>coord_bytes := if coordinated ?c then coord_bytes p - weight e else coord_bytes p\<rparr>)"
    by (rule counted_set [OF assms(1)]) (use ok c in \<open>simp_all add: entries_counted_def listed_def\<close>)
  then show ?thesis using c
    by (cases "coordinated ?c") (simp_all add: dropOldestDocumentCacheEntry_def Let_def released_def)
qed

lemma drops_counted: "drops p q \<Longrightarrow> counted p \<Longrightarrow> counted q"
proof (induction rule: drops.induct)
  case (oldest p i q)
  then show ?case using drop_counted by blast
next
  case (counted p n q)
  then show ?case by (simp add: DocumentCache.counted_def listed_def)
qed simp

lemma entries_counted_nonneg: "entries_counted c \<Longrightarrow> 0 \<le> documentCacheBytes c"
  using total_weight_nonneg [of "documentCache c"] by (simp add: entries_counted_def)

lemma dropped_bytes:
  assumes "counted p" "documentCache (engine_caches p i) \<noteq> []" "dropOldestDocumentCacheEntry i p = (w, q)"
  shows "documentCacheBytes (engine_caches q i) = documentCacheBytes (engine_caches p i) - w"
    and "coord_bytes q = (if coordinated (engine_caches p i) then coord_bytes p - w else coord_bytes p)"
  using assms(3) by (auto simp: dropOldestDocumentCacheEntry_def Let_def released_def split: if_splits)

text \<open>Dropping leaves the bounds an engine is held to as they are.\<close>

lemma drops_limits:
  "drops p q \<Longrightarrow> documentCacheBudgetBytes (engine_caches q j) = documentCacheBudgetBytes (engine_caches p j)
     \<and> documentCacheMaxEntries (engine_caches q j) = documentCacheMaxEntries (engine_caches p j)
     \<and> coord_budget q = coord_budget p \<and> coord_engines q = coord_engines p"
  by (induction rule: drops.induct) (simp_all add: dropOldestDocumentCacheEntry_def Let_def released_def)

lemma drops_smaller:
  "drops p q \<Longrightarrow> counted p \<Longrightarrow>
     documentCacheBytes (engine_caches q j) \<le> documentCacheBytes (engine_caches p j)
     \<and> cache_size (engine_caches q j) \<le> cache_size (engine_caches p j) \<and> coord_bytes q \<le> coord_bytes p"
proof (induction rule: drops.induct)
  case (oldest p i q)
  obtain k e rest where c: "documentCache (engine_caches p i) = (k, e) # rest"
    using oldest.hyps(1) by (cases "documentCache (engine_caches p i)") auto
  let ?r = "snd (dropOldestDocumentCacheEntry i p)"
  have "entries_counted (engine_caches p i)" using oldest.prems by (simp add: counted_def)
  then have "1 \<le> weight e" using c by (simp add: entries_counted_def)
  then have "documentCacheBytes (engine_caches ?r j) \<le> documentCacheBytes (engine_caches p j)
      \<and> cache_size (engine_caches ?r j) \<le> cache_size (engine_caches p j) \<and> coord_bytes ?r \<le> coord_bytes p"
    using c by (simp add: dropOldestDocumentCacheEntry_def Let_def released_def cache_size_def)
  then show ?case using oldest.IH [OF drop_counted [OF oldest.prems oldest.hyps(1)]] by linarith
next
  case (counted p n q)
  then show ?case by (simp add: DocumentCache.counted_def listed_def)
qed simp

lemma drops_within: "drops p q \<Longrightarrow> counted p \<Longrightarrow> within_bounds (engine_caches p j) \<Longrightarrow> within_bounds (engine_caches q j)"
  using drops_smaller [of p q j] drops_limits [of p q j] by (simp add: within_bounds_def)

text \<open>Evicting frees what is asked for or everything.\<close>

lemma evict_frees:
  assumes "counted p" "coordinated (engine_caches p i)"
  shows "coord_bytes (snd (evict_loop i b f p)) \<le> coord_bytes p - (b - f) \<or> documentCache (engine_caches (snd (evict_loop i b f p)) i) = []"
  using assms
proof (induction i b f p rule: evict_loop.induct)
  case (1 i b f p)
  show ?case
  proof (cases "f < b \<and> documentCache (engine_caches p i) \<noteq> []")
    case True
    obtain w q where d: "dropOldestDocumentCacheEntry i p = (w, q)" by fastforce
    have q: "counted q" "coordinated (engine_caches q i)"
      using drop_counted [OF 1(2), of i] drop_shrinks [of p i] True d 1(3) by (simp_all add: shrinks_def)
    have "coord_bytes q = coord_bytes p - w" using dropped_bytes [OF 1(2) _ d] True 1(3) by simp
    then show ?thesis
      using 1(1) [OF True refl] q True d by (subst (1 2) evict_loop.simps) (auto simp: Let_def algebra_simps)
  next
    case False
    then show ?thesis by (subst (1 2) evict_loop.simps) auto
  qed
qed

lemma trim_frees:
  assumes "counted p" "\<forall>v\<in>set vs. coordinated (engine_caches p v)"
  shows "coord_bytes (trim vs p) \<le> coord_budget p \<or> (\<forall>v\<in>set vs. documentCache (engine_caches (trim vs p) v) = [])"
  using assms
proof (induction vs arbitrary: p)
  case (Cons v vs)
  show ?case
  proof (cases "coord_bytes p \<le> coord_budget p")
    case True
    then show ?thesis by simp
  next
    case False
    define q where "q = snd (evictDocumentCacheEntries v (coord_bytes p - coord_budget p) p)"
    define r where "r = q\<lparr>coord_evictions := coord_evictions q + (evictions (engine_caches q v) - evictions (engine_caches p v))\<rparr>"
    have t: "trim (v # vs) p = trim vs r" using False by (simp add: Let_def q_def r_def)
    have d: "drops p q" by (simp add: q_def evictDocumentCacheEntries_def evict_drops)
    have q: "counted q" by (rule drops_counted [OF d Cons.prems(1)])
    then have r: "counted r" "coord_budget r = coord_budget p"
      using drops_limits [OF d] by (simp_all add: r_def counted_def listed_def)
    have co: "\<forall>v\<in>set vs. coordinated (engine_caches r v)"
      using Cons.prems(2) drops_shrinks [OF d] by (simp add: r_def shrinks_def)
    have dr: "drops r (trim vs r)" by (rule trim_drops)
    have "coord_bytes q \<le> coord_budget p \<or> documentCache (engine_caches q v) = []"
      using evict_frees [OF Cons.prems(1), of v "coord_bytes p - coord_budget p" 0] Cons.prems(2)
      by (simp add: q_def evictDocumentCacheEntries_def)
    then show ?thesis
    proof
      assume "coord_bytes q \<le> coord_budget p"
      then have "coord_bytes r \<le> coord_budget p" by (simp add: r_def)
      then show ?thesis using drops_smaller [OF dr r(1)] unfolding t by (meson order_trans)
    next
      assume "documentCache (engine_caches q v) = []"
      then have "documentCache (engine_caches (trim vs r) v) = []"
        using drops_shrinks [OF dr] by (simp add: r_def shrinks_def) (metis subset_empty set_empty)
      then show ?thesis using Cons.IH [OF r(1) co] r(2) unfolding t by auto
    qed
  qed
qed simp

text \<open>A lookup moves an entry to the end; an insertion makes room first.\<close>

lemma moved_last_counted:
  assumes "distinct (map fst xs)" "map_of xs k = Some e"
  shows "distinct (map fst (AList.delete k xs @ [(k, e)]))" "total_weight (AList.delete k xs @ [(k, e)]) = total_weight xs"
    "length (AList.delete k xs @ [(k, e)]) = length xs"
proof -
  obtain ys zs where xs: "xs = ys @ (k, e) # zs" using assms(2) by (meson map_of_SomeD split_list)
  have "AList.delete k us = us" if "k \<notin> fst ` set us" for us :: "(string \<times> cache_entry) list" using that by simp
  moreover have "k \<notin> fst ` set ys" "k \<notin> fst ` set zs" using assms(1) xs by auto
  moreover have "AList.delete k xs = AList.delete k ys @ AList.delete k zs" by (simp add: xs AList.delete_eq)
  ultimately have "AList.delete k xs = ys @ zs" by simp
  then show "distinct (map fst (AList.delete k xs @ [(k, e)]))" "total_weight (AList.delete k xs @ [(k, e)]) = total_weight xs"
    "length (AList.delete k xs @ [(k, e)]) = length xs"
    using assms(1) xs by auto
qed

lemma coord_fields [simp]:
  "counted (p\<lparr>coord_evictions := n\<rparr>) = counted p"
  by (simp add: counted_def listed_def)

lemma touched_counted:
  assumes "counted p" "coordinated (engine_caches p i)"
  shows "counted (touched i p)"
proof -
  let ?es = "removeAll i (coord_engines p) @ [i]" and ?bytes = "\<lambda>j. documentCacheBytes (engine_caches p j)"
  have fields: "engine_caches (touched i p) = engine_caches p" "coord_bytes (touched i p) = coord_bytes p"
    "coord_engines (touched i p) = ?es"
    by (simp_all add: touched_def)
  have set: "set ?es = insert i (set (coord_engines p))" by auto
  have ok: "entries_counted (engine_caches p i)" "listed p j" for j using assms(1) by (simp_all add: counted_def)
  then have "i \<notin> set (coord_engines p) \<Longrightarrow> ?bytes i = 0" using assms(2) by (simp add: entries_counted_def listed_def)
  then have "sum ?bytes (insert i (set (coord_engines p))) = sum ?bytes (set (coord_engines p))"
    by (cases "i \<in> set (coord_engines p)") (simp_all add: insert_absorb)
  moreover have "listed (touched i p) j" for j using ok(2) [of j] assms(2) by (auto simp: listed_def touched_def)
  moreover have "distinct ?es" using assms(1) by (simp add: counted_def distinct_removeAll)
  ultimately show ?thesis using assms(1) unfolding counted_def fields set by (intro conjI allI) simp_all
qed

lemma look_bounded:
  assumes "bounded p" "cachedDocumentForRevision i key p = (r, q)"
  shows "bounded q"
proof (cases "q = p")
  case True
  then show ?thesis using assms(1) by simp
next
  case False
  let ?c = "engine_caches p i"
  obtain e where e: "map_of (documentCache ?c) key = Some e"
    and q: "q = (if coordinated ?c then touched i (set_cache i (?c\<lparr>documentCache := AList.delete key (documentCache ?c) @ [(key, e)]\<rparr>) p)
        else set_cache i (?c\<lparr>documentCache := AList.delete key (documentCache ?c) @ [(key, e)]\<rparr>) p)"
    using assms(2) False by (auto simp: cachedDocumentForRevision_def Let_def split: option.splits if_splits)
  let ?c' = "?c\<lparr>documentCache := AList.delete key (documentCache ?c) @ [(key, e)]\<rparr>"
  have p: "counted p" "\<And>j. within_bounds (engine_caches p j)" "coord_bytes p \<le> coord_budget p" "0 \<le> coord_budget p"
    using assms(1) by (simp_all add: bounded_def)
  have c: "entries_counted ?c" "listed p i" using p(1) by (simp_all add: counted_def)
  then have d: "distinct (map fst (documentCache ?c))" by (simp add: entries_counted_def)
  have c': "entries_counted ?c'"
    unfolding entries_counted_def using c(1) moved_last_counted [OF d e] moved_last_subset [OF e]
    by (auto simp: entries_counted_def)
  have nonempty: "documentCache ?c \<noteq> []" using e by auto
  have "counted ((set_cache i ?c' p)\<lparr>coord_bytes := coord_bytes p\<rparr>)"
    by (rule counted_set [OF p(1) c']) (use c(2) nonempty in \<open>auto simp: listed_def\<close>)
  then have s: "counted (set_cache i ?c' p)" by simp
  have "counted q"
  proof (cases "coordinated ?c")
    case True
    then show ?thesis using touched_counted [OF s] q by simp
  next
    case False
    then show ?thesis using s q by simp
  qed
  moreover have "within_bounds (engine_caches q j)" for j
    using p(2) [of j] moved_last_counted(3) [OF d e] q by (auto simp: within_bounds_def cache_size_def touched_def)
  ultimately show ?thesis using p(3,4) q by (auto simp: bounded_def touched_def)
qed

lemma make_room_fits:
  "counted p \<Longrightarrow> within_bounds (engine_caches p i) \<Longrightarrow> w \<le> documentCacheBudgetBytes (engine_caches p i) \<Longrightarrow>
     documentCacheBytes (engine_caches (make_room i w p) i) + w \<le> documentCacheBudgetBytes (engine_caches p i)
     \<and> cache_size (engine_caches (make_room i w p) i) < documentCacheMaxEntries (engine_caches p i)"
proof (induction i w p rule: make_room.induct)
  case (1 i w p)
  let ?c = "engine_caches p i"
  show ?case
  proof (cases "documentCache ?c \<noteq> [] \<and> (cache_size ?c \<ge> documentCacheMaxEntries ?c \<or> documentCacheBytes ?c + w > documentCacheBudgetBytes ?c)")
    case True
    let ?q = "snd (dropOldestDocumentCacheEntry i p)"
    have d: "drops p ?q" using True by (auto intro: drops.oldest drops.nothing)
    have "make_room i w p = make_room i w ?q" using True by (subst make_room.simps) simp
    then show ?thesis
      using 1(1) [OF refl True] drops_counted [OF d 1(2)] drops_within [OF d 1(2) 1(3)] drops_limits [OF d, of i] 1(4) by simp
  next
    case False
    have "entries_counted ?c" using 1(2) by (simp add: counted_def)
    then have "documentCache ?c = [] \<Longrightarrow> documentCacheBytes ?c = 0" by (simp add: entries_counted_def)
    then show ?thesis using False 1(3,4) by (subst (1 2) make_room.simps) (auto simp: within_bounds_def cache_size_def)
  qed
qed

lemma update_absent: "k \<notin> fst ` set xs \<Longrightarrow> AList.update k v xs = xs @ [(k, v)]"
  by (induction xs) auto

lemma trim_bounded:
  assumes "counted p" "\<And>j. within_bounds (engine_caches p j)" "0 \<le> coord_budget p"
  shows "bounded (trim (coord_engines p) p)"
proof -
  let ?q = "trim (coord_engines p) p"
  have d: "drops p ?q" by (rule trim_drops)
  have q: "counted ?q" "coord_budget ?q = coord_budget p" "coord_engines ?q = coord_engines p"
    using drops_counted [OF d assms(1)] drops_limits [OF d] by simp_all
  have "\<forall>v\<in>set (coord_engines p). coordinated (engine_caches p v)" using assms(1) by (simp add: counted_def listed_def)
  from trim_frees [OF assms(1) this] have "coord_bytes ?q \<le> coord_budget p"
  proof
    assume "\<forall>v\<in>set (coord_engines p). documentCache (engine_caches ?q v) = []"
    then have "\<forall>v\<in>set (coord_engines p). documentCacheBytes (engine_caches ?q v) = 0"
      using q(1) by (simp add: counted_def entries_counted_def)
    then have "coord_bytes ?q = 0" using q(1,3) by (simp add: counted_def)
    then show ?thesis using assms(3) by simp
  qed
  then show ?thesis using q drops_within [OF d assms(1,2)] assms(3) by (simp add: bounded_def)
qed

lemma store_bounded:
  assumes "bounded p" "key \<notin> fst ` set (documentCache (engine_caches p i))"
  shows "bounded (cacheDocumentForRevision i key entry p)"
proof -
  let ?c = "engine_caches p i" and ?w = "max (weight entry) 1"
  have p: "counted p" "\<And>j. within_bounds (engine_caches p j)" "coord_bytes p \<le> coord_budget p" "0 \<le> coord_budget p"
    using assms(1) by (simp_all add: bounded_def)
  show ?thesis
  proof (cases "stagedDocumentCache ?c = None \<and> \<not> inTransaction ?c \<and> ?w \<le> documentCacheBudgetBytes ?c")
    case False
    define c' where "c' = (case stagedDocumentCache ?c of None \<Rightarrow> ?c
        | Some staged \<Rightarrow> ?c\<lparr>stagedDocumentCache := Some (AList.update key entry staged)\<rparr>)"
    have r: "cacheDocumentForRevision i key entry p = set_cache i c' p"
      using False by (auto simp: cacheDocumentForRevision_def Let_def c'_def set_cache_def split: option.splits)
    have c': "entries_counted c' = entries_counted ?c" "within_bounds c' = within_bounds ?c" "coordinated c' = coordinated ?c"
      "documentCache c' = documentCache ?c" "documentCacheBytes c' = documentCacheBytes ?c"
      by (simp_all add: c'_def entries_counted_def within_bounds_def cache_size_def split: option.split)
    have "counted ((set_cache i c' p)\<lparr>coord_bytes := coord_bytes p\<rparr>)"
      by (rule counted_set [OF p(1)]) (use p(1) c' in \<open>auto simp: counted_def listed_def\<close>)
    then show ?thesis using p c'(2) unfolding r bounded_def by simp
  next
    case True
    define q where "q = make_room i ?w p"
    define c' where "c' = (engine_caches q i)\<lparr>documentCache := AList.update key \<lparr>cached_document = cached_document entry, weight = ?w\<rparr> (documentCache (engine_caches q i)),
        documentCacheBytes := documentCacheBytes (engine_caches q i) + ?w\<rparr>"
    have d: "drops p q" by (simp add: q_def make_room_drops)
    have q: "counted q" "within_bounds (engine_caches q j)" "coord_bytes q \<le> coord_budget q" "0 \<le> coord_budget q" for j
      using drops_counted [OF d p(1)] drops_within [OF d p(1,2)] drops_smaller [OF d p(1), of i] drops_limits [OF d, of i] p(3,4) by auto
    have fits: "documentCacheBytes (engine_caches q i) + ?w \<le> documentCacheBudgetBytes (engine_caches q i)"
      "cache_size (engine_caches q i) < documentCacheMaxEntries (engine_caches q i)"
      using make_room_fits [OF p(1,2)] True drops_limits [OF d, of i] by (simp_all add: q_def)
    have absent: "key \<notin> fst ` set (documentCache (engine_caches q i))"
      using assms(2) drops_shrinks [OF d] unfolding shrinks_def by (metis image_mono subsetD)
    have c: "entries_counted c'" "coordinated c' = coordinated (engine_caches q i)" "within_bounds c'"
      using q(1) q(2) [of i] fits absent
      by (auto simp: c'_def update_absent counted_def entries_counted_def within_bounds_def cache_size_def)
    have r: "cacheDocumentForRevision i key entry p
        = (if coordinated (engine_caches q i) then admitted i ?w (set_cache i c' q) else set_cache i c' q)"
      using True by (simp add: cacheDocumentForRevision_def Let_def q_def c'_def less_max_iff_disj)
    show ?thesis
    proof (cases "coordinated (engine_caches q i)")
      case False
      have "counted ((set_cache i c' q)\<lparr>coord_bytes := coord_bytes q\<rparr>)"
        by (rule counted_set [OF q(1) c(1)]) (use False c(2) in simp_all)
      then show ?thesis using False q(2-4) c(3) unfolding r bounded_def by simp
    next
      case co: True
      define t where "t = (set_cache i c' (touched i q))\<lparr>coord_bytes := coord_bytes q + ?w\<rparr>"
      have tq: "touched i ((set_cache i c' q)\<lparr>coord_bytes := coord_bytes q + ?w\<rparr>) = t"
        by (simp add: t_def touched_def set_cache_def)
      have "counted t" unfolding t_def
        by (rule counted_set [OF touched_counted [OF q(1) co] c(1)]) (use c(2) co in \<open>simp_all add: touched_def c'_def\<close>)
      moreover have "within_bounds (engine_caches t j)" for j using q(2) c(3) by (simp add: t_def touched_def)
      moreover have "0 \<le> coord_budget t" using q(4) by (simp add: t_def touched_def)
      ultimately have "bounded (if coord_bytes t \<le> coord_budget t then t else trim (coord_engines t) t)"
        using trim_bounded by (auto simp: bounded_def)
      then show ?thesis unfolding r admitted_def Let_def by (simp only: co tq if_True set_cache_simps)
    qed
  qed
qed

lemma close_bounded:
  assumes "bounded p"
  shows "bounded (close_cache i p)"
proof -
  let ?c = "engine_caches p i"
  let ?c' = "?c\<lparr>documentCache := [], documentCacheBytes := 0\<rparr>"
  have p: "counted p" "\<And>j. within_bounds (engine_caches p j)" "coord_bytes p \<le> coord_budget p" "0 \<le> coord_budget p"
    using assms(1) by (simp_all add: bounded_def)
  have nonneg: "0 \<le> documentCacheBytes (engine_caches p j)" for j
    using p(1) entries_counted_nonneg by (simp add: counted_def)
  have within: "within_bounds ?c'" using p(2) [of i] nonneg [of i] by (simp add: within_bounds_def cache_size_def)
  have empty: "entries_counted ?c'" by (simp add: entries_counted_def)
  define b where "b = (if coordinated ?c then coord_bytes p - documentCacheBytes ?c else coord_bytes p)"
  define q where "q = (set_cache i ?c' p)\<lparr>coord_bytes := b\<rparr>"
  have q: "counted q" unfolding q_def by (rule counted_set [OF p(1) empty]) (simp_all add: b_def)
  have le: "b \<le> coord_bytes p" using nonneg [of i] by (simp add: b_def)
  have l: "listed p i" using p(1) by (simp add: counted_def)
  show ?thesis
  proof (cases "i \<in> set (coord_engines p)")
    case True
    then have co: "coordinated ?c" using l by (simp add: listed_def)
    have r: "close_cache i p = q\<lparr>coord_engines := removeAll i (coord_engines q)\<rparr>"
      using True co by (simp add: close_cache_def removed_def Let_def q_def b_def set_cache_def)
    have "documentCacheBytes (engine_caches q i) = 0" by (simp add: q_def)
    then have sums: "(\<Sum>j\<in>set (coord_engines q) - {i}. documentCacheBytes (engine_caches q j)) = coord_bytes q"
      using q by (simp add: counted_def sum_diff1)
    have "listed (q\<lparr>coord_engines := removeAll i (coord_engines q)\<rparr>) j" for j
      using q by (cases "j = i") (auto simp: counted_def listed_def q_def)
    then have "counted (q\<lparr>coord_engines := removeAll i (coord_engines q)\<rparr>)"
      using q sums unfolding counted_def by (intro conjI allI) (simp_all add: distinct_removeAll)
    then show ?thesis using p(2-4) within le unfolding r bounded_def by (simp add: q_def)
  next
    case False
    then have "documentCacheBytes ?c = 0 \<or> \<not> coordinated ?c"
      using p(1) l by (auto simp: counted_def entries_counted_def listed_def)
    then have "close_cache i p = q" using False by (auto simp: close_cache_def removed_def Let_def q_def b_def)
    then show ?thesis using q p(2-4) within le by (simp add: bounded_def q_def)
  qed
qed

section \<open>Properties\<close>

text \<open>C12. The bounds hold at every return: from a process that keeps them, a lookup, the retention of a
  document not yet retained, an eviction on demand and the closing of an engine lead to one in which
  every engine counts the bytes it retains exactly and stays within its byte budget and its number of
  entries, the coordinator's total is the sum over its engines, and the total stays within its budget.\<close>

theorem document_caches_bounded:
  assumes "bounded p"
  shows "bounded (snd (cachedDocumentForRevision i key p))
    \<and> (key \<notin> fst ` set (documentCache (engine_caches p i)) \<longrightarrow> bounded (cacheDocumentForRevision i key entry p))
    \<and> bounded (snd (evictDocumentCacheEntries i bytes p)) \<and> bounded (close_cache i p)"
proof -
  have "bounded (snd (cachedDocumentForRevision i key p))" using look_bounded [OF assms] by (metis prod.collapse)
  moreover have d: "drops p (snd (evictDocumentCacheEntries i bytes p))" by (simp add: evictDocumentCacheEntries_def evict_drops)
  have "bounded (snd (evictDocumentCacheEntries i bytes p))"
    using assms drops_counted [OF d] drops_within [OF d] drops_smaller [OF d, of i] drops_limits [OF d, of i] by (auto simp: bounded_def)
  ultimately show ?thesis using assms store_bounded close_bounded by blast
qed

definition small_cache :: doc_cache where
  "small_cache = \<lparr>documentCache = [], documentCacheBytes = 0, documentCacheBudgetBytes = 10, documentCacheMaxEntries = 2,
     stagedDocumentCache = None, inTransaction = False, evictions = 0, coordinated = True\<rparr>"

definition fresh_process :: process where
  "fresh_process = \<lparr>engine_caches = \<lambda>_. small_cache, coord_engines = [], coord_bytes = 0, coord_budget = 12, coord_evictions = 0\<rparr>"

lemma fresh_bounded: "bounded fresh_process"
  by (simp add: bounded_def counted_def listed_def entries_counted_def within_bounds_def cache_size_def fresh_process_def small_cache_def)

theorem document_caches_bounded_witness:
  "bounded (cacheDocumentForRevision 0 ''k'' \<lparr>cached_document = Some FNull, weight = 7\<rparr> fresh_process)"
  using document_caches_bounded [OF fresh_bounded, of 0 "''k''" "\<lparr>cached_document = Some FNull, weight = 7\<rparr>" 0]
  by (simp add: fresh_process_def small_cache_def)

end
