(* ===== verification/DocumentStore.thy ===== *)
theory DocumentStore
  imports ConflictSound ReadValidation PatchDiff DocumentCache
begin

text \<open>
  The documents of an engine (\<^verbatim>\<open>runtime/memory/v2/engine.ts\<close>): the tables \<^verbatim>\<open>revision\<close>, \<^verbatim>\<open>head\<close>,
  \<^verbatim>\<open>snapshot\<close> and \<^verbatim>\<open>branch\<close>, reading a document at a sequence number or at a row, replaying
  patches over the newest base, snapshot or cached revision, writing operations, materializing
  snapshots, and the transaction around a commit. Tables are lists of rows; a statement is the filter,
  the order and the limit of its text. A row holds the operation it decodes to, and what the engine
  measures of the encoded text is the parameter \<open>codec\<close>. A function that looks documents up in the
  cache returns the process it leaves beside its result, also where it throws. The rows of \<^verbatim>\<open>branch\<close> are
  read from the table here; what an engine keeps of them is in \<open>BranchStates\<close>.
\<close>

section \<open>Tables\<close>

type_synonym doc_key = "string \<times> string \<times> string" \<comment> \<open>branch, entity, scope key\<close>

record branch_row =
  branch_name :: string
  parentBranch :: "string option"
  forkSeq :: "nat option"
  createdSeq :: nat
  headSeq :: nat
  branch_status :: string

record doc_tables =
  revision_rows :: "revision list"
  head_rows :: "(doc_key \<times> nat \<times> nat \<times> string) list"
  snapshot_rows :: "(doc_key \<times> nat \<times> fval) list"
  branch_rows :: "branch_row list"
  commit_seqs :: "nat list"
  snapshotInterval :: int
  snapshotRetention :: int

record codec =
  row_length :: "rev_op \<Rightarrow> int" \<comment> \<open>\<^verbatim>\<open>row.data?.length ?? -1\<close>\<close>
  row_bytes :: "rev_op \<Rightarrow> int" \<comment> \<open>\<^verbatim>\<open>storedByteLength(row.data)\<close>\<close>
  document_bytes :: "fval \<Rightarrow> int" \<comment> \<open>\<^verbatim>\<open>encodedByteLength\<close>\<close>
  growth :: "fval \<Rightarrow> fval \<Rightarrow> int option" \<comment> \<open>\<^verbatim>\<open>replayedGrowth\<close>\<close>

datatype content_refusal =
    OnlySet | OnlySpaceScope | OnlyDocument | ConflictingSets | ContentChanged | ContentUnverified

datatype store_error =
    UnknownBranchName string
  | InactiveBranch string
  | SeqOutOfRange nat string
  | NoReturn \<comment> \<open>not an error of the code: its recursion does not end\<close>
  | NoSuchRevision string nat nat
  | ReplayFailed patch_error
  | NotADocument
  | RowExists
  | BranchExists string
  | ScopeUnresolved scope_error
  | NestedTransaction
  | ReadsRefused commit_error
  | ReplayMismatch string int
  | EnvelopeMismatch string int
  | NothingToCommit
  | AddressingRefused string nat
  | ContentRefused content_refusal string
  | HashFailed hash_error
  | DerivedRefused string
  | PreconditionMalformed
  | PreconditionFailed string
  | RewrittenDocument string \<comment> \<open>the commit leaves the model\<close>

definition MAX_SAFE_INTEGER :: nat where "MAX_SAFE_INTEGER = 2 ^ 53 - 1"

definition DEFAULT_SCOPE_KEY :: string where "DEFAULT_SCOPE_KEY = ''space''"

fun op_name :: "rev_op \<Rightarrow> string" where
  "op_name (RSet _) = ''set''"
| "op_name RDelete = ''delete''"
| "op_name (RPatch _) = ''patch''"

definition row_key :: "revision \<Rightarrow> doc_key" where
  "row_key r = (rev_branch r, rev_id r, rev_scope_key r)"

definition row_pos :: "revision \<Rightarrow> nat \<times> nat" where
  "row_pos r = (rev_seq r, rev_op_index r)"

definition doc_rows :: "doc_tables \<Rightarrow> doc_key \<Rightarrow> revision list" where
  "doc_rows db key = filter (\<lambda>r. row_key r = key) (revision_rows db)"

text \<open>The one row of a \<^verbatim>\<open>LIMIT 1\<close>, if there is one.\<close>

definition first_row :: "'a list \<Rightarrow> 'a option" where
  "first_row rows = (case rows of [] \<Rightarrow> None | r # _ \<Rightarrow> Some r)"

definition selectCurrentLocal :: "doc_tables \<Rightarrow> doc_key \<Rightarrow> revision option" where
  "selectCurrentLocal db key =
     (case map_of (head_rows db) key of
        None \<Rightarrow> None
      | Some (seq, opIndex, _) \<Rightarrow> find (\<lambda>r. row_pos r = (seq, opIndex)) (doc_rows db key))"

definition selectAtSeqLocal :: "doc_tables \<Rightarrow> doc_key \<Rightarrow> nat \<Rightarrow> revision option" where
  "selectAtSeqLocal db key seq = first_row (newest_first (filter (\<lambda>r. rev_seq r \<le> seq) (doc_rows db key)))"

definition upto :: "nat \<Rightarrow> nat \<Rightarrow> revision \<Rightarrow> bool" where
  "upto seq opIndex r \<longleftrightarrow> rev_seq r < seq \<or> rev_seq r = seq \<and> rev_op_index r \<le> opIndex"

definition selectLatestBase :: "doc_tables \<Rightarrow> doc_key \<Rightarrow> nat \<Rightarrow> nat \<Rightarrow> nat \<Rightarrow> revision option" where
  "selectLatestBase db key seq opIndex floor =
     first_row (newest_first (filter (\<lambda>r. \<not> isPatchRevision r \<and> rev_seq r \<ge> floor \<and> upto seq opIndex r) (doc_rows db key)))"

definition doc_snapshots :: "doc_tables \<Rightarrow> doc_key \<Rightarrow> (nat \<times> fval) list" where
  "doc_snapshots db key = map snd (filter (\<lambda>(k, _). k = key) (snapshot_rows db))"

definition selectLatestSnapshot :: "doc_tables \<Rightarrow> doc_key \<Rightarrow> nat \<Rightarrow> (nat \<times> fval) option" where
  "selectLatestSnapshot db key seq =
     first_row (rev (sort_key fst (filter (\<lambda>(s, _). s \<le> seq) (doc_snapshots db key))))"

definition selectLatestSnapshotBelow :: "doc_tables \<Rightarrow> doc_key \<Rightarrow> nat \<Rightarrow> (nat \<times> fval) option" where
  "selectLatestSnapshotBelow db key seq =
     first_row (rev (sort_key fst (filter (\<lambda>(s, _). s < seq) (doc_snapshots db key))))"

definition selectRevisionRow :: "doc_tables \<Rightarrow> doc_key \<Rightarrow> nat \<Rightarrow> nat \<Rightarrow> revision option" where
  "selectRevisionRow db key seq opIndex = find (\<lambda>r. row_pos r = (seq, opIndex)) (doc_rows db key)"

definition selectPatches :: "doc_tables \<Rightarrow> doc_key \<Rightarrow> nat \<Rightarrow> int \<Rightarrow> nat \<Rightarrow> nat \<Rightarrow> revision list" where
  "selectPatches db key baseSeq baseOpIndex seq opIndex =
     sort_key row_pos (filter (\<lambda>r. isPatchRevision r
       \<and> (rev_seq r > baseSeq \<or> rev_seq r = baseSeq \<and> int (rev_op_index r) > baseOpIndex)
       \<and> upto seq opIndex r) (doc_rows db key))"

definition selectPatchCount :: "doc_tables \<Rightarrow> doc_key \<Rightarrow> nat \<Rightarrow> nat \<Rightarrow> nat" where
  "selectPatchCount db key afterSeq seq =
     length (filter (\<lambda>r. isPatchRevision r \<and> rev_seq r > afterSeq \<and> rev_seq r \<le> seq) (doc_rows db key))"

definition insertRevision :: "doc_tables \<Rightarrow> revision \<Rightarrow> store_error + doc_tables" where
  "insertRevision db r =
     (if list_ex (\<lambda>r'. row_key r' = row_key r \<and> row_pos r' = row_pos r) (revision_rows db) then Inl RowExists
      else Inr (db\<lparr>revision_rows := revision_rows db @ [r]\<rparr>))"

definition upsertHead :: "doc_tables \<Rightarrow> revision \<Rightarrow> doc_tables" where
  "upsertHead db r =
     db\<lparr>head_rows := AList.update (row_key r) (rev_seq r, rev_op_index r, op_name (rev_operation r)) (head_rows db)\<rparr>"

definition insertSnapshot :: "doc_tables \<Rightarrow> doc_key \<Rightarrow> nat \<Rightarrow> fval \<Rightarrow> doc_tables" where
  "insertSnapshot db key seq document =
     db\<lparr>snapshot_rows := filter (\<lambda>(k, s, _). \<not> (k = key \<and> s = seq)) (snapshot_rows db) @ [(key, seq, document)]\<rparr>"

definition deleteOldSnapshots :: "doc_tables \<Rightarrow> doc_key \<Rightarrow> nat \<Rightarrow> doc_tables" where
  "deleteOldSnapshots db key retention =
     (let kept = take retention (rev (sort (map fst (doc_snapshots db key)))) in
      db\<lparr>snapshot_rows := filter (\<lambda>(k, s, _). \<not> (k = key \<and> s \<notin> set kept)) (snapshot_rows db)\<rparr>)"

definition updateBranchHead :: "doc_tables \<Rightarrow> string \<Rightarrow> nat \<Rightarrow> doc_tables" where
  "updateBranchHead db branch seq =
     db\<lparr>branch_rows := map (\<lambda>b. if branch_name b = branch then b\<lparr>headSeq := if headSeq b < seq then seq else headSeq b\<rparr> else b)
       (branch_rows db)\<rparr>"

definition selectNextSeq :: "doc_tables \<Rightarrow> nat" where
  "selectNextSeq db = (if commit_seqs db = [] then 0 else Max (set (commit_seqs db))) + 1"

section \<open>Branches\<close>

definition getBranch :: "doc_tables \<Rightarrow> string \<Rightarrow> branch_row option" where
  "getBranch db branch = find (\<lambda>b. branch_name b = branch) (branch_rows db)"

definition branch_of :: "doc_tables \<Rightarrow> string \<Rightarrow> store_error + branch_row" where
  "branch_of db branch = (case getBranch db branch of None \<Rightarrow> Inl (UnknownBranchName branch) | Some b \<Rightarrow> Inr b)"

definition createBranch :: "doc_tables \<Rightarrow> string \<Rightarrow> string option \<Rightarrow> nat option \<Rightarrow> store_error + (doc_tables \<times> branch_row)" where
  "createBranch db name parent fork =
     (if name = DEFAULT_BRANCH then bindR (branch_of db DEFAULT_BRANCH) (\<lambda>b. Inr (db, b))
      else
        case getBranch db name of
          Some existing \<Rightarrow> Inr (db, existing)
        | None \<Rightarrow>
            let parentName = (case parent of None \<Rightarrow> DEFAULT_BRANCH | Some n \<Rightarrow> n) in
            bindR (branch_of db parentName) (\<lambda>parentRow.
              let fork' = (case fork of None \<Rightarrow> headSeq parentRow | Some s \<Rightarrow> s);
                  db' = db\<lparr>branch_rows := branch_rows db @ [\<lparr>branch_name = name, parentBranch = Some parentName,
                    forkSeq = Some fork', createdSeq = fork', headSeq = fork', branch_status = ''active''\<rparr>]\<rparr>
              in bindR (branch_of db' name) (\<lambda>b. Inr (db', b))))"

definition deleteBranch :: "doc_tables \<Rightarrow> string \<Rightarrow> store_error + doc_tables" where
  "deleteBranch db branch =
     bindR (branch_of db branch) (\<lambda>_.
       Inr (db\<lparr>branch_rows := map (\<lambda>b. if branch_name b = branch \<and> branch_name b \<noteq> '''' then b\<lparr>branch_status := ''deleted''\<rparr> else b)
         (branch_rows db)\<rparr>))"

definition listBranches :: "doc_tables \<Rightarrow> branch_row list" where
  "listBranches db = sort_key branch_name (branch_rows db)"

definition head_seq_of :: "doc_tables \<Rightarrow> string \<Rightarrow> nat" where
  "head_seq_of db branch = (case getBranch db branch of None \<Rightarrow> 0 | Some b \<Rightarrow> headSeq b)"

definition listEntityIds :: "doc_tables \<Rightarrow> string list" where
  "listEntityIds db =
     sort (map (\<lambda>((_, i, _), _). i)
       (filter (\<lambda>((b, _, k), _, _, operation). b = DEFAULT_BRANCH \<and> k = DEFAULT_SCOPE_KEY \<and> operation \<noteq> ''delete'') (head_rows db)))"

definition listEntityIdPage :: "doc_tables \<Rightarrow> string option \<Rightarrow> nat \<Rightarrow> string list" where
  "listEntityIdPage db after limit =
     take limit (filter (\<lambda>i. case after of None \<Rightarrow> True | Some a \<Rightarrow> i > a) (listEntityIds db))"

definition entityIdExists :: "doc_tables \<Rightarrow> string \<Rightarrow> bool" where
  "entityIdExists db ident =
     list_ex (\<lambda>((b, i, k), _, _, operation). b = DEFAULT_BRANCH \<and> k = DEFAULT_SCOPE_KEY \<and> i = ident \<and> operation \<noteq> ''delete'')
       (head_rows db)"

text \<open>The row a read resolves to, on the branch or on one it descends from. The recursion follows the
  parents of branches; its bound is the number of branches and one more.\<close>

fun readRowForBranch ::
    "nat \<Rightarrow> doc_tables \<Rightarrow> string \<Rightarrow> string \<Rightarrow> string \<Rightarrow> nat option \<Rightarrow> store_error + (revision \<times> string) option" where
  "readRowForBranch 0 db ident scopeKey branch seqOption = Inl NoReturn"
| "readRowForBranch (Suc n) db ident scopeKey branch seqOption =
     bindR (branch_of db branch) (\<lambda>state.
       let seq = (case seqOption of None \<Rightarrow> headSeq state | Some s \<Rightarrow> s);
           minSeq = (if branch = DEFAULT_BRANCH then 0 else createdSeq state)
       in if seq < minSeq \<or> seq > headSeq state then Inl (SeqOutOfRange seq branch)
          else
            case (if seq = headSeq state then selectCurrentLocal db (branch, ident, scopeKey)
                  else selectAtSeqLocal db (branch, ident, scopeKey) seq) of
              Some row \<Rightarrow> Inr (Some (row, branch))
            | None \<Rightarrow>
                (case parentBranch state of
                   None \<Rightarrow> Inr None
                 | Some parent \<Rightarrow>
                     readRowForBranch n db ident scopeKey parent
                       (Some (min seq (case forkSeq state of None \<Rightarrow> 0 | Some s \<Rightarrow> s)))))"

definition read_row :: "doc_tables \<Rightarrow> string \<Rightarrow> string \<Rightarrow> string \<Rightarrow> nat option \<Rightarrow> store_error + (revision \<times> string) option" where
  "read_row db = readRowForBranch (Suc (length (branch_rows db))) db"

section \<open>Reading documents\<close>

fun int_decimal :: "int \<Rightarrow> string" where
  "int_decimal n = (if n < 0 then CHR ''-'' # decimal (nat (- n)) else decimal (nat n))"

definition documentCacheKey :: "doc_key \<Rightarrow> nat \<Rightarrow> nat \<Rightarrow> string \<Rightarrow> int \<Rightarrow> string" where
  "documentCacheKey key seq opIndex operation dataLength =
     (case key of (branch, ident, scopeKey) \<Rightarrow>
        branch @ CHR 0x00 # ident @ CHR 0x00 # scopeKey @ CHR 0x00 # decimal seq @ CHR 0x00 # decimal opIndex
          @ CHR 0x00 # operation @ CHR 0x00 # int_decimal dataLength)"

definition row_cache_key :: "codec \<Rightarrow> doc_key \<Rightarrow> revision \<Rightarrow> string" where
  "row_cache_key cd key r =
     documentCacheKey key (rev_seq r) (rev_op_index r) (op_name (rev_operation r)) (row_length cd (rev_operation r))"

definition latestBaseAndSnapshot ::
    "doc_tables \<Rightarrow> doc_key \<Rightarrow> nat \<Rightarrow> nat \<Rightarrow> bool \<Rightarrow> revision option \<times> (nat \<times> fval) option" where
  "latestBaseAndSnapshot db key seq opIndex snapshotBelow =
     (let snapshotRow = (if snapshotBelow then selectLatestSnapshotBelow db key seq else selectLatestSnapshot db key seq);
          baseRow = selectLatestBase db key seq opIndex (case snapshotRow of None \<Rightarrow> 0 | Some (s, _) \<Rightarrow> s)
      in (baseRow, snapshotRow))"

definition latestMaterializationSeq :: "doc_tables \<Rightarrow> doc_key \<Rightarrow> nat \<Rightarrow> nat" where
  "latestMaterializationSeq db key seq =
     (let (baseRow, snapshotRow) = latestBaseAndSnapshot db key seq MAX_SAFE_INTEGER False
      in max (case baseRow of None \<Rightarrow> 0 | Some r \<Rightarrow> rev_seq r) (case snapshotRow of None \<Rightarrow> 0 | Some (s, _) \<Rightarrow> s))"

text \<open>Where a replay starts: the position after which patches are replayed.\<close>

definition replay_start :: "revision option \<Rightarrow> (nat \<times> fval) option \<Rightarrow> nat \<times> int" where
  "replay_start baseRow snapshotRow =
     (case (baseRow, snapshotRow) of
        (None, None) \<Rightarrow> (0, -1)
      | (None, Some (s, _)) \<Rightarrow> (s, int MAX_SAFE_INTEGER)
      | (Some b, None) \<Rightarrow> (rev_seq b, int (rev_op_index b))
      | (Some b, Some (s, _)) \<Rightarrow>
          if s \<ge> rev_seq b then (s, int MAX_SAFE_INTEGER) else (rev_seq b, int (rev_op_index b)))"

text \<open>The newest of the patches whose document is cached, looked for from the last: the document, its
  weight, and how many of the patches it already holds.\<close>

fun resume :: "nat \<Rightarrow> codec \<Rightarrow> doc_key \<Rightarrow> revision list \<Rightarrow> process \<Rightarrow> (fval \<times> int \<times> nat) option \<times> process" where
  "resume i cd key [] p = (None, p)"
| "resume i cd key (patch # earlier) p =
     (let (cached, p') = cachedDocumentForRevision i (row_cache_key cd key patch) p in
      case cached of
        None \<Rightarrow> resume i cd key earlier p'
      | Some e \<Rightarrow>
          (case cached_document e of
             None \<Rightarrow> resume i cd key earlier p'
           | Some document \<Rightarrow> (Some (document, weight e, Suc (length earlier)), p')))"

definition cachedSnapshottedRevision :: "nat \<Rightarrow> codec \<Rightarrow> doc_tables \<Rightarrow> doc_key \<Rightarrow> nat \<Rightarrow> process \<Rightarrow> fval option \<times> process" where
  "cachedSnapshottedRevision i cd db key seq p =
     (case selectAtSeqLocal db key seq of
        None \<Rightarrow> (None, p)
      | Some row \<Rightarrow>
          if rev_seq row = seq then
            let (cached, p') = cachedDocumentForRevision i (row_cache_key cd key row) p
            in (case cached of None \<Rightarrow> None | Some e \<Rightarrow> cached_document e, p')
          else (None, p))"

text \<open>The document a replay starts from where no patch's document is cached, and its weight.\<close>

definition starting_document ::
    "nat \<Rightarrow> codec \<Rightarrow> doc_tables \<Rightarrow> doc_key \<Rightarrow> revision option \<Rightarrow> (nat \<times> fval) option \<Rightarrow> nat \<Rightarrow> process
       \<Rightarrow> (fval \<times> int) \<times> process" where
  "starting_document i cd db key baseRow snapshotRow baseSeq p =
     (let from_base =
        (case baseRow of
           None \<Rightarrow> ((emptyEntityDocument, document_bytes cd emptyEntityDocument), p)
         | Some b \<Rightarrow>
             (case rev_operation b of
                RSet v \<Rightarrow>
                  let (cached, p') = cachedDocumentForRevision i (row_cache_key cd key b) p
                  in (case cached of
                        None \<Rightarrow> ((v, row_bytes cd (rev_operation b)), p')
                      | Some e \<Rightarrow> ((case cached_document e of None \<Rightarrow> v | Some d \<Rightarrow> d, weight e), p'))
              | _ \<Rightarrow> ((emptyEntityDocument, document_bytes cd emptyEntityDocument), p)))
      in case snapshotRow of
        Some (s, value') \<Rightarrow>
          if s = baseSeq then
            let (snapshotted, p') = cachedSnapshottedRevision i cd db key s p
            in ((case snapshotted of None \<Rightarrow> value' | Some d \<Rightarrow> d, document_bytes cd value'), p')
          else from_base
      | None \<Rightarrow> from_base)"

fun replay_weighed :: "host \<Rightarrow> codec \<Rightarrow> fval \<Rightarrow> int \<Rightarrow> bool \<Rightarrow> revision list \<Rightarrow> store_error + (fval \<times> int)" where
  "replay_weighed h cd document encodedBytes carried [] =
     Inr (document, if carried then encodedBytes else document_bytes cd document)"
| "replay_weighed h cd previous encodedBytes carried (patch # patchRows) =
     (case applyPatchToDocument h (Some previous) (patches_of patch) of
        Inl e \<Rightarrow> Inl (ReplayFailed e)
      | Inr document \<Rightarrow>
          (case (if carried then growth cd previous document else None) of
             None \<Rightarrow> replay_weighed h cd document encodedBytes False patchRows
           | Some g \<Rightarrow> replay_weighed h cd document (encodedBytes + g) carried patchRows))"

definition reconstructPatchedDocument ::
    "host \<Rightarrow> nat \<Rightarrow> codec \<Rightarrow> doc_tables \<Rightarrow> doc_key \<Rightarrow> nat \<Rightarrow> nat \<Rightarrow> bool \<Rightarrow> process
       \<Rightarrow> (store_error + (fval \<times> int)) \<times> process" where
  "reconstructPatchedDocument h i cd db key seq opIndex exact p =
     (let (baseRow, snapshotRow) = latestBaseAndSnapshot db key seq opIndex exact;
          (baseSeq, baseOpIndex) = replay_start baseRow snapshotRow;
          patchRows = selectPatches db key baseSeq baseOpIndex seq opIndex;
          (resumed, p1) = resume i cd key (rev patchRows) p
      in case resumed of
        Some (document, w, replayFrom) \<Rightarrow> (replay_weighed h cd document w True (drop replayFrom patchRows), p1)
      | None \<Rightarrow>
          let ((document, w), p2) = starting_document i cd db key baseRow snapshotRow baseSeq p1
          in (replay_weighed h cd document w True patchRows, p2))"

record entity_state =
  es_id :: string
  es_scope :: cell_scope
  es_scopeKey :: string
  es_branch :: string
  es_seq :: nat
  es_opIndex :: nat
  es_op :: rev_op
  es_document :: "fval option"

text \<open>What a row decodes to, and its weight.\<close>

definition decode_row ::
    "host \<Rightarrow> nat \<Rightarrow> codec \<Rightarrow> doc_tables \<Rightarrow> doc_key \<Rightarrow> revision \<Rightarrow> process \<Rightarrow> (store_error + cache_entry) \<times> process" where
  "decode_row h i cd db key row p =
     (case rev_operation row of
        RSet v \<Rightarrow> (Inr \<lparr>cached_document = Some v, weight = row_bytes cd (rev_operation row)\<rparr>, p)
      | RDelete \<Rightarrow> (Inr \<lparr>cached_document = None, weight = row_bytes cd (rev_operation row)\<rparr>, p)
      | RPatch _ \<Rightarrow>
          let (r, p') = reconstructPatchedDocument h i cd db key (rev_seq row) (rev_op_index row) False p
          in (bindR r (\<lambda>(document, w). Inr \<lparr>cached_document = Some document, weight = w\<rparr>), p'))"

definition readStateForScopeKey ::
    "host \<Rightarrow> nat \<Rightarrow> codec \<Rightarrow> doc_tables \<Rightarrow> string \<Rightarrow> cell_scope option \<Rightarrow> string \<Rightarrow> string \<Rightarrow> nat option \<Rightarrow> process
       \<Rightarrow> (store_error + entity_state option) \<times> process" where
  "readStateForScopeKey h i cd db ident scope scopeKey branch seq p =
     (let declaredScope = (case scope of None \<Rightarrow> scopeOfScopeKey scopeKey | Some s \<Rightarrow> s) in
      case read_row db ident scopeKey branch seq of
        Inl e \<Rightarrow> (Inl e, p)
      | Inr None \<Rightarrow> (Inr None, p)
      | Inr (Some (row, resolvedBranch)) \<Rightarrow>
          let key = (resolvedBranch, ident, scopeKey);
              cacheKey = row_cache_key cd key row;
              state = (\<lambda>document. \<lparr>es_id = ident, es_scope = declaredScope, es_scopeKey = scopeKey, es_branch = resolvedBranch,
                 es_seq = rev_seq row, es_opIndex = rev_op_index row, es_op = rev_operation row, es_document = document\<rparr>);
              (cached, p1) = cachedDocumentForRevision i cacheKey p
          in case cached of
            Some e \<Rightarrow> (Inr (Some (state (cached_document e))), p1)
          | None \<Rightarrow>
              let (decoded, p2) = decode_row h i cd db key row p1
              in (case decoded of
                    Inl err \<Rightarrow> (Inl err, p2)
                  | Inr entry \<Rightarrow>
                      (Inr (Some (state (cached_document entry))), cacheDocumentForRevision i cacheKey entry p2)))"

definition readState ::
    "host \<Rightarrow> nat \<Rightarrow> codec \<Rightarrow> doc_tables \<Rightarrow> string \<Rightarrow> string \<Rightarrow> nat option \<Rightarrow> cell_scope option \<Rightarrow> scope_identity \<Rightarrow> string option
       \<Rightarrow> process \<Rightarrow> (store_error + entity_state option) \<times> process" where
  "readState h i cd db ident branch seq scope who explicitScopeKey p =
     (let declaredScope = (case explicitScopeKey of
            Some k \<Rightarrow> scopeOfScopeKey k | None \<Rightarrow> (case scope of None \<Rightarrow> Space | Some s \<Rightarrow> s))
      in case (case explicitScopeKey of Some k \<Rightarrow> Inr k | None \<Rightarrow> resolveScopeKey scope who) of
        Inl e \<Rightarrow> (Inl (ScopeUnresolved e), p)
      | Inr scopeKey \<Rightarrow> readStateForScopeKey h i cd db ident (Some declaredScope) scopeKey branch seq p)"

definition readDocument ::
    "host \<Rightarrow> nat \<Rightarrow> codec \<Rightarrow> doc_tables \<Rightarrow> string \<Rightarrow> string \<Rightarrow> nat option \<Rightarrow> cell_scope option \<Rightarrow> scope_identity \<Rightarrow> string option
       \<Rightarrow> process \<Rightarrow> (store_error + fval option) \<times> process" where
  "readDocument h i cd db ident branch seq scope who explicitScopeKey p =
     (let (r, p') = readState h i cd db ident branch seq scope who explicitScopeKey p
      in (bindR r (\<lambda>state. Inr (case state of None \<Rightarrow> None | Some s \<Rightarrow> es_document s)), p'))"

definition readRevision ::
    "host \<Rightarrow> nat \<Rightarrow> codec \<Rightarrow> doc_tables \<Rightarrow> string \<Rightarrow> string \<Rightarrow> string \<Rightarrow> nat \<Rightarrow> nat \<Rightarrow> process
       \<Rightarrow> (store_error + fval option) \<times> process" where
  "readRevision h i cd db branch ident scopeKey seq opIndex p =
     (case selectRevisionRow db (branch, ident, scopeKey) seq opIndex of
        None \<Rightarrow> (Inl (NoSuchRevision ident seq opIndex), p)
      | Some row \<Rightarrow>
          (case rev_operation row of
             RSet v \<Rightarrow> (Inr (Some v), p)
           | RDelete \<Rightarrow> (Inr None, p)
           | RPatch _ \<Rightarrow>
               let (r, p') = reconstructPatchedDocument h i cd db (branch, ident, scopeKey) (rev_seq row) (rev_op_index row) True p
               in (bindR r (\<lambda>(document, _). Inr (Some document)), p')))"

section \<open>Snapshots\<close>

definition compactSnapshots :: "doc_tables \<Rightarrow> doc_key \<Rightarrow> doc_tables" where
  "compactSnapshots db key =
     (if snapshotRetention db \<le> 0 then db else deleteOldSnapshots db key (nat (snapshotRetention db)))"

definition maybeMaterializeSnapshot ::
    "host \<Rightarrow> nat \<Rightarrow> codec \<Rightarrow> doc_tables \<Rightarrow> string \<Rightarrow> string \<Rightarrow> string \<Rightarrow> process \<Rightarrow> (store_error + doc_tables) \<times> process" where
  "maybeMaterializeSnapshot h i cd db branch ident scopeKey p =
     (case readStateForScopeKey h i cd db ident None scopeKey branch None p of
        (Inl e, p') \<Rightarrow> (Inl e, p')
      | (Inr None, p') \<Rightarrow> (Inr db, p')
      | (Inr (Some current), p') \<Rightarrow>
          (case es_document current of
             None \<Rightarrow> (Inr db, p')
           | Some document \<Rightarrow>
               if op_name (es_op current) \<noteq> ''patch'' then (Inr db, p')
               else
                 let key = (branch, ident, scopeKey);
                     baseSeq = latestMaterializationSeq db key (es_seq current);
                     patchCount = selectPatchCount db key baseSeq (es_seq current)
                 in if int patchCount < snapshotInterval db then (Inr db, p')
                    else (Inr (compactSnapshots (insertSnapshot db key (es_seq current) document) key), p')))"

definition revisionKey :: "string \<Rightarrow> string \<Rightarrow> string \<Rightarrow> string" where
  "revisionKey branch ident scopeKey = branch @ CHR 0x00 # scopeKey @ CHR 0x00 # ident"

fun materialize_loop ::
    "host \<Rightarrow> nat \<Rightarrow> codec \<Rightarrow> string \<Rightarrow> string list \<Rightarrow> revision list \<Rightarrow> doc_tables \<Rightarrow> process
       \<Rightarrow> (store_error + doc_tables) \<times> process" where
  "materialize_loop h i cd branch seen [] db p = (Inr db, p)"
| "materialize_loop h i cd branch seen (revision # written) db p =
     (let key = revisionKey branch (rev_id revision) (rev_scope_key revision) in
      if key \<in> set seen then materialize_loop h i cd branch seen written db p
      else
        case maybeMaterializeSnapshot h i cd db branch (rev_id revision) (rev_scope_key revision) p of
          (Inl e, p') \<Rightarrow> (Inl e, p')
        | (Inr db', p') \<Rightarrow> materialize_loop h i cd branch (key # seen) written db' p')"

definition materializeSnapshots ::
    "host \<Rightarrow> nat \<Rightarrow> codec \<Rightarrow> doc_tables \<Rightarrow> string \<Rightarrow> revision list \<Rightarrow> process \<Rightarrow> (store_error + doc_tables) \<times> process" where
  "materializeSnapshots h i cd db branch written p =
     (if snapshotInterval db \<le> 0 then (Inr db, p) else materialize_loop h i cd branch [] written db p)"

section \<open>Writing\<close>

record doc_operation =
  dop_id :: string
  dop_scope :: "cell_scope option"
  dop_body :: rev_op

text \<open>What the row of the commit holds beside its number.\<close>

record commit_meta =
  cm_session :: string
  cm_local_seq :: int
  cm_class :: string
  cm_holder :: "string option"

definition writeOperation ::
    "doc_tables \<Rightarrow> commit_meta \<Rightarrow> string \<Rightarrow> nat \<Rightarrow> nat \<Rightarrow> doc_operation \<Rightarrow> scope_identity \<Rightarrow> string option
       \<Rightarrow> store_error + (doc_tables \<times> revision)" where
  "writeOperation db meta branch seq opIndex operation who scopeKeyOverride =
     bindR (case scopeKeyOverride of
              Some k \<Rightarrow> Inr k
            | None \<Rightarrow> (case resolveScopeKey (dop_scope operation) who of
                         Inl e \<Rightarrow> Inl (ScopeUnresolved e) | Inr k \<Rightarrow> Inr k)) (\<lambda>scopeKey.
       let r = \<lparr>rev_branch = branch, rev_id = dop_id operation, rev_scope_key = scopeKey, rev_seq = seq, rev_op_index = opIndex,
                rev_operation = dop_body operation, rev_commit_seq = seq, rev_session = cm_session meta,
                rev_local_seq = cm_local_seq meta, rev_class = cm_class meta, rev_holder = cm_holder meta\<rparr>
       in if (case dop_body operation of RSet v \<Rightarrow> \<not> isEntityDocument v | _ \<Rightarrow> False) then Inl NotADocument
          else bindR (insertRevision db r) (\<lambda>db'. Inr (upsertHead db' r, r)))"

text \<open>The loop over a commit's operations; an elided one is passed over and keeps its index.\<close>

fun write_operations ::
    "doc_tables \<Rightarrow> commit_meta \<Rightarrow> string \<Rightarrow> nat \<Rightarrow> scope_identity \<Rightarrow> (nat \<Rightarrow> string option) \<Rightarrow> nat list \<Rightarrow> nat
       \<Rightarrow> doc_operation list \<Rightarrow> store_error + (doc_tables \<times> revision list)" where
  "write_operations db meta branch seq who scopeKeyByOpIndex elided opIndex [] = Inr (db, [])"
| "write_operations db meta branch seq who scopeKeyByOpIndex elided opIndex (operation # operations) =
     (if opIndex \<in> set elided then
        write_operations db meta branch seq who scopeKeyByOpIndex elided (Suc opIndex) operations
      else
        bindR (writeOperation db meta branch seq opIndex operation who (scopeKeyByOpIndex opIndex)) (\<lambda>(db', revision).
        bindR (write_operations db' meta branch seq who scopeKeyByOpIndex elided (Suc opIndex) operations) (\<lambda>(db'', written).
          Inr (db'', revision # written))))"

text \<open>The writing part of a commit of \<^verbatim>\<open>set\<close>, \<^verbatim>\<open>patch\<close> and \<^verbatim>\<open>delete\<close> operations, from the check of its branch on.\<close>

definition commit_operations ::
    "host \<Rightarrow> nat \<Rightarrow> codec \<Rightarrow> commit_meta \<Rightarrow> string \<Rightarrow> scope_identity \<Rightarrow> (nat \<Rightarrow> string option) \<Rightarrow> nat list \<Rightarrow> doc_operation list
       \<Rightarrow> doc_tables \<Rightarrow> process \<Rightarrow> (store_error + (nat \<times> revision list) \<times> doc_tables) \<times> process" where
  "commit_operations h i cd meta branch who scopeKeyByOpIndex elided operations db p =
     (case branch_of db branch of
        Inl e \<Rightarrow> (Inl e, p)
      | Inr state \<Rightarrow>
          if branch_status state \<noteq> ''active'' then (Inl (InactiveBranch branch), p)
          else
            let seq = selectNextSeq db; db1 = db\<lparr>commit_seqs := commit_seqs db @ [seq]\<rparr> in
            case write_operations db1 meta branch seq who scopeKeyByOpIndex elided 0 operations of
              Inl e \<Rightarrow> (Inl e, p)
            | Inr (db2, written) \<Rightarrow>
                (case materializeSnapshots h i cd (updateBranchHead db2 branch seq) branch written p of
                   (Inl e, p') \<Rightarrow> (Inl e, p')
                 | (Inr db3, p') \<Rightarrow> (Inr ((seq, written), db3), p')))"

text \<open>The transaction around a commit: what it read is staged, and published once it is durable.\<close>

definition end_transaction :: "nat \<Rightarrow> process \<Rightarrow> process" where
  "end_transaction i p = set_cache i ((engine_caches p i)\<lparr>stagedDocumentCache := None, inTransaction := False\<rparr>) p"

definition publish :: "nat \<Rightarrow> (string \<times> cache_entry) list \<Rightarrow> process \<Rightarrow> process" where
  "publish i staged p =
     fold (\<lambda>(key, entry) p.
       if key \<in> fst ` set (documentCache (engine_caches p i)) then p else cacheDocumentForRevision i key entry p) staged p"

definition runAtomicCommit ::
    "nat \<Rightarrow> (doc_tables \<Rightarrow> process \<Rightarrow> (store_error + 'a \<times> doc_tables) \<times> process) \<Rightarrow> doc_tables \<Rightarrow> process
       \<Rightarrow> (store_error + 'a) \<times> doc_tables \<times> process" where
  "runAtomicCommit i operation db p =
     (let c = engine_caches p i in
      if inTransaction c then (Inl NestedTransaction, db, p)
      else
        case operation db (set_cache i (c\<lparr>stagedDocumentCache := Some [], inTransaction := True\<rparr>) p) of
          (Inl e, p') \<Rightarrow> (Inl e, db, end_transaction i p')
        | (Inr (x, db'), p') \<Rightarrow>
            (Inr x, db', publish i (staged_entries (engine_caches p' i)) (end_transaction i p')))"

end
