(* ===== verification/DocumentHistory.thy ===== *)
theory DocumentHistory
  imports DocumentStore
begin

text \<open>
  What a document is: the fold of its rows, oldest first. A \<^verbatim>\<open>set\<close> starts it anew, a \<^verbatim>\<open>delete\<close> takes
  it away, a patch is applied to what there is, and a patch that cannot be applied makes it unreadable
  until the next \<^verbatim>\<open>set\<close> or \<^verbatim>\<open>delete\<close>. Reading through heads, snapshots and the cache is proved to return
  this fold, for tables and caches that keep the invariant stated here.
\<close>

section \<open>The fold\<close>

definition run_row :: "host \<Rightarrow> store_error + fval option \<Rightarrow> revision \<Rightarrow> store_error + fval option" where
  "run_row h acc r =
     (case rev_operation r of
        RSet v \<Rightarrow> Inr (Some v)
      | RDelete \<Rightarrow> Inr None
      | RPatch ops \<Rightarrow> bindR acc (\<lambda>d. case applyPatchToDocument h d ops of
          Inl e \<Rightarrow> Inl (ReplayFailed e) | Inr v \<Rightarrow> Inr (Some v)))"

definition run_rows :: "host \<Rightarrow> store_error + fval option \<Rightarrow> revision list \<Rightarrow> store_error + fval option" where
  "run_rows h acc rows = fold (\<lambda>r acc. run_row h acc r) rows acc"

definition ledger :: "doc_tables \<Rightarrow> doc_key \<Rightarrow> revision list" where
  "ledger db key = sort_key row_pos (doc_rows db key)"

definition after :: "host \<Rightarrow> doc_tables \<Rightarrow> doc_key \<Rightarrow> (revision \<Rightarrow> bool) \<Rightarrow> store_error + fval option" where
  "after h db key P = run_rows h (Inr None) (filter P (ledger db key))"

lemma run_rows_simps [simp]:
  "run_rows h acc [] = acc"
  "run_rows h acc (r # rows) = run_rows h (run_row h acc r) rows"
  "run_rows h acc (xs @ ys) = run_rows h (run_rows h acc xs) ys"
  by (simp_all add: run_rows_def)

lemma run_row_base: "\<not> isPatchRevision r \<Longrightarrow> run_row h acc r = run_row h acc' r"
  by (simp add: run_row_def isPatchRevision_def split: rev_op.splits)

lemma isPatch_iff: "isPatchRevision r \<longleftrightarrow> (\<exists>ops. rev_operation r = RPatch ops)"
  by (simp add: isPatchRevision_def split: rev_op.splits)

text \<open>Patches are replayed as the code replays them.\<close>

definition document_of :: "store_error + (fval \<times> int) \<Rightarrow> store_error + fval option" where
  "document_of r = bindR r (\<lambda>(d, _). Inr (Some d))"

lemma run_error: "list_all isPatchRevision rows \<Longrightarrow> run_rows h (Inl e) rows = Inl e"
  by (induction rows) (auto simp: run_row_def isPatch_iff)

lemma replay_weighed_run:
  "list_all isPatchRevision rows \<Longrightarrow> document_of (replay_weighed h cd d w c rows) = run_rows h (Inr (Some d)) rows"
proof (induction rows arbitrary: d w c)
  case Nil
  then show ?case by (simp add: document_of_def)
next
  case (Cons r rows)
  then obtain ops where r: "rev_operation r = RPatch ops" "patches_of r = ops" by (auto simp: isPatch_iff patches_of_def)
  show ?case
  proof (cases "applyPatchToDocument h (Some d) ops")
    case (Inl e)
    then show ?thesis using Cons.prems r run_error by (simp add: document_of_def run_row_def)
  next
    case (Inr v)
    then show ?thesis using Cons r by (auto simp: run_row_def split: option.split)
  qed
qed

lemma run_from_empty:
  "rows \<noteq> [] \<Longrightarrow> list_all isPatchRevision rows \<Longrightarrow> run_rows h (Inr None) rows = run_rows h (Inr (Some emptyEntityDocument)) rows"
  by (cases rows) (auto simp: run_row_def isPatch_iff applyPatchToDocument_def)

lemma run_patches_Some:
  "rows \<noteq> [] \<Longrightarrow> list_all isPatchRevision rows \<Longrightarrow> run_rows h acc rows = Inr d \<Longrightarrow> d \<noteq> None"
proof (induction rows arbitrary: acc rule: rev_induct)
  case (snoc r rows)
  then obtain ops x where "rev_operation r = RPatch ops" "run_rows h acc rows = Inr x" "run_row h (Inr x) r = Inr d"
    by (cases "run_rows h acc rows") (auto simp: isPatch_iff run_row_def)
  then show ?case by (cases "applyPatchToDocument h x ops") (auto simp: run_row_def)
qed simp

section \<open>Rows in order\<close>

abbreviation in_order :: "revision list \<Rightarrow> bool" where
  "in_order \<equiv> sorted_wrt (\<lambda>a b. row_pos a < row_pos b)"

lemma filter_split_sorted:
  assumes "in_order rows" and "\<And>x y. x \<in> set rows \<Longrightarrow> y \<in> set rows \<Longrightarrow> row_pos x \<le> row_pos y \<Longrightarrow> A y \<Longrightarrow> A x"
  shows "rows = filter A rows @ filter (\<lambda>r. \<not> A r) rows"
  using assms
proof (induction rows)
  case (Cons r rows)
  have IH: "rows = filter A rows @ filter (\<lambda>r. \<not> A r) rows" by (rule Cons.IH) (use Cons.prems in auto)
  show ?case
  proof (cases "A r")
    case True
    then show ?thesis using IH by simp
  next
    case False
    then have "\<forall>y\<in>set rows. \<not> A y" using Cons.prems by fastforce
    then show ?thesis using False by simp
  qed
qed simp

lemma newest_first_ledger: "newest_first (filter P (doc_rows db key)) = rev (filter P (ledger db key))"
proof -
  have "row_pos = (\<lambda>r. (rev_seq r, rev_op_index r))" by (auto simp: row_pos_def)
  then show ?thesis by (simp add: newest_first_def ledger_def filter_sort)
qed

lemma first_row_rev: "first_row (rev xs) = (if xs = [] then None else Some (last xs))"
  by (cases xs rule: rev_cases) (simp_all add: first_row_def)

lemma first_row_None: "first_row (rev xs) = None \<longleftrightarrow> xs = []"
  by (simp add: first_row_rev)

lemma last_filter_Some:
  assumes "in_order rows" "first_row (rev (filter P rows)) = Some r"
  shows "r \<in> set rows" "P r" "\<And>x. x \<in> set rows \<Longrightarrow> P x \<Longrightarrow> row_pos x \<le> row_pos r"
proof -
  obtain ys where ys: "filter P rows = ys @ [r]"
    using assms(2) by (cases "filter P rows" rule: rev_cases) (auto simp: first_row_def)
  then have r: "r \<in> set (filter P rows)" by simp
  then show "r \<in> set rows" "P r" by auto
  have "in_order (ys @ [r])" using assms(1) ys by (metis sorted_wrt_filter)
  then show "row_pos x \<le> row_pos r" if "x \<in> set rows" "P x" for x
    using that ys by (force simp: sorted_wrt_append set_eq_iff dest: arg_cong [where f = set])
qed

lemma upto_pos: "upto s i r \<longleftrightarrow> row_pos r \<le> (s, i)"
  by (auto simp: upto_def row_pos_def)

section \<open>The invariant of the tables\<close>

text \<open>A commit has a number of its own and an operation one index, so that the two name a row.\<close>

definition rows_ok :: "doc_tables \<Rightarrow> bool" where
  "rows_ok db \<longleftrightarrow> distinct (map row_pos (revision_rows db)) \<and> (\<forall>r\<in>set (revision_rows db). rev_op_index r \<le> MAX_SAFE_INTEGER)"

definition heads_ok :: "doc_tables \<Rightarrow> bool" where
  "heads_ok db \<longleftrightarrow> distinct (map fst (head_rows db)) \<and>
     (\<forall>key. map_of (head_rows db) key =
        map_option (\<lambda>r. (rev_seq r, rev_op_index r, op_name (rev_operation r))) (first_row (rev (ledger db key))))"

definition snapshots_ok :: "host \<Rightarrow> doc_tables \<Rightarrow> bool" where
  "snapshots_ok h db \<longleftrightarrow> (\<forall>(key, s, v)\<in>set (snapshot_rows db).
     (\<exists>r\<in>set (doc_rows db key). rev_seq r = s) \<and> after h db key (\<lambda>r. rev_seq r \<le> s) = Inr (Some v))"

definition document_at_row :: "host \<Rightarrow> doc_tables \<Rightarrow> revision \<Rightarrow> store_error + fval option" where
  "document_at_row h db r = after h db (row_key r) (upto (rev_seq r) (rev_op_index r))"

definition cached_right :: "host \<Rightarrow> codec \<Rightarrow> doc_tables \<Rightarrow> string \<Rightarrow> fval option \<Rightarrow> bool" where
  "cached_right h cd db k v \<longleftrightarrow>
     (\<exists>r\<in>set (revision_rows db). k = row_cache_key cd (row_key r) r \<and> document_at_row h db r = Inr v)"

abbreviation cache_ok :: "host \<Rightarrow> nat \<Rightarrow> codec \<Rightarrow> doc_tables \<Rightarrow> process \<Rightarrow> bool" where
  "cache_ok h i cd db \<equiv> cache.sound i (cached_right h cd db)"

lemma in_ledger: "r \<in> set (ledger db key) \<longleftrightarrow> r \<in> set (revision_rows db) \<and> row_key r = key"
  by (simp add: ledger_def doc_rows_def)

lemma ledger_in_order:
  assumes "rows_ok db"
  shows "in_order (ledger db key)"
proof -
  have "distinct (map row_pos (doc_rows db key))" using assms by (simp add: rows_ok_def doc_rows_def distinct_map_filter)
  then have "distinct (map row_pos (ledger db key))" by (simp add: ledger_def distinct_map)
  then have "sorted_wrt (<) (map row_pos (ledger db key))"
    by (simp add: strict_sorted_iff ledger_def)
  then show ?thesis by (simp add: sorted_wrt_map)
qed

lemma row_unique: "rows_ok db \<Longrightarrow> r \<in> set (revision_rows db) \<Longrightarrow> r' \<in> set (revision_rows db) \<Longrightarrow> row_pos r = row_pos r' \<Longrightarrow> r = r'"
  unfolding rows_ok_def distinct_map inj_on_def by auto

section \<open>The keys of the cache\<close>

text \<open>Names may hold the NUL that joins the parts of a key. The last four parts hold none, and two of them
  are the number and the index.\<close>

definition nul_free :: "string \<Rightarrow> bool" where
  "nul_free s \<longleftrightarrow> CHR 0x00 \<notin> set s"

lemma nul_split:
  assumes "a @ CHR 0x00 # x = b @ CHR 0x00 # y" "nul_free a" "nul_free b"
  shows "a = b \<and> x = y"
  using assms
proof (induction a arbitrary: b)
  case Nil
  then show ?case by (cases b) (auto simp: nul_free_def)
next
  case (Cons c a)
  then show ?case by (cases b) (auto simp: nul_free_def)
qed

lemma decimal_nul_free: "nul_free (decimal n)"
proof (induction n rule: decimal.induct)
  case (1 n)
  have digit: "char_of (48 + d) \<noteq> (CHR 0x00)" if "d < 10" for d :: nat
  proof
    assume "char_of (48 + d) = (CHR 0x00)"
    then have "of_char (char_of (48 + d) :: char) = (0 :: nat)" by simp
    then show False using that by (simp add: of_char_of take_bit_eq_mod)
  qed
  show ?case
  proof (cases "n < 10")
    case True
    then show ?thesis using digit [of n] by (subst decimal.simps) (simp add: nul_free_def)
  next
    case False
    then show ?thesis using 1 digit [of "n mod 10"] by (subst decimal.simps) (simp add: nul_free_def)
  qed
qed

lemma key_parts_nul_free: "nul_free (int_decimal n)" "nul_free (op_name operation)"
  using decimal_nul_free by (auto simp: nul_free_def) (cases operation; simp)

lemma nul_split_last:
  assumes "x @ CHR 0x00 # a = y @ CHR 0x00 # b" "nul_free a" "nul_free b"
  shows "a = b \<and> x = y"
proof -
  have "rev a @ CHR 0x00 # rev x = rev b @ CHR 0x00 # rev y" using arg_cong [OF assms(1), of rev] by simp
  then have "rev a = rev b \<and> rev x = rev y" by (rule nul_split) (use assms(2,3) in \<open>simp_all add: nul_free_def\<close>)
  then show ?thesis by simp
qed

lemma cache_key_pos:
  assumes "row_cache_key cd key r = row_cache_key cd key' r'"
  shows "row_pos r = row_pos r'"
proof -
  obtain branch ident k where key: "key = (branch, ident, k)" by (metis prod_cases3)
  obtain branch' ident' k' where key': "key' = (branch', ident', k')" by (metis prod_cases3)
  let ?a = "branch @ CHR 0x00 # ident @ CHR 0x00 # k" and ?a' = "branch' @ CHR 0x00 # ident' @ CHR 0x00 # k'"
  have "((((?a @ CHR 0x00 # decimal (rev_seq r)) @ CHR 0x00 # decimal (rev_op_index r)) @ CHR 0x00 # op_name (rev_operation r))
        @ CHR 0x00 # int_decimal (row_length cd (rev_operation r)))
      = ((((?a' @ CHR 0x00 # decimal (rev_seq r')) @ CHR 0x00 # decimal (rev_op_index r')) @ CHR 0x00 # op_name (rev_operation r'))
        @ CHR 0x00 # int_decimal (row_length cd (rev_operation r')))"
    using assms by (simp add: row_cache_key_def documentCacheKey_def key key')
  then have "decimal (rev_seq r) = decimal (rev_seq r') \<and> decimal (rev_op_index r) = decimal (rev_op_index r')"
    by (blast dest: nul_split_last intro: decimal_nul_free key_parts_nul_free)
  then show ?thesis using decimal_value by (simp add: row_pos_def) (metis option.inject)
qed

lemma found_row:
  assumes "cachedDocumentForRevision i (row_cache_key cd (row_key r) r) p = (Some e, p')"
    and "cache_ok h i cd db p" "rows_ok db" "r \<in> set (revision_rows db)"
  shows "document_at_row h db r = Inr (cached_document e)"
proof -
  have "cached_right h cd db (row_cache_key cd (row_key r) r) (cached_document e)"
    using assms(1,2) by (rule cache.found_sound)
  then obtain r' where r': "r' \<in> set (revision_rows db)" "row_cache_key cd (row_key r) r = row_cache_key cd (row_key r') r'"
    "document_at_row h db r' = Inr (cached_document e)"
    unfolding cached_right_def by blast
  have "r' = r" using cache_key_pos [OF r'(2)] row_unique [OF assms(3,4) r'(1)] by simp
  then show ?thesis using r'(3) by simp
qed

section \<open>Where a replay starts\<close>

definition covered_by :: "nat \<times> int \<Rightarrow> revision \<Rightarrow> bool" where
  "covered_by start r \<longleftrightarrow> rev_seq r < fst start \<or> rev_seq r = fst start \<and> int (rev_op_index r) \<le> snd start"

lemma filter_upto_last:
  assumes "in_order rows" "b \<in> set rows"
  shows "\<exists>earlier. filter (\<lambda>r. row_pos r \<le> row_pos b) rows = earlier @ [b]"
proof -
  obtain xs ys where "rows = xs @ b # ys" using assms(2) by (meson split_list)
  moreover from this have "filter (\<lambda>r. row_pos r \<le> row_pos b) xs = xs" "filter (\<lambda>r. row_pos r \<le> row_pos b) ys = []"
    using assms(1) by (auto simp: sorted_wrt_append filter_id_conv filter_empty_conv intro: less_imp_le)
  ultimately show ?thesis by simp
qed

lemma selected_snapshot:
  "selectLatestSnapshot db key s = Some (s0, v) \<Longrightarrow> (key, s0, v) \<in> set (snapshot_rows db) \<and> s0 \<le> s"
  "selectLatestSnapshotBelow db key s = Some (s0, v) \<Longrightarrow> (key, s0, v) \<in> set (snapshot_rows db) \<and> s0 < s"
  unfolding selectLatestSnapshot_def selectLatestSnapshotBelow_def first_row_rev
  by (auto simp: doc_snapshots_def dest!: last_in_set split: if_splits)

definition start_right ::
    "host \<Rightarrow> doc_tables \<Rightarrow> doc_key \<Rightarrow> nat \<Rightarrow> nat \<Rightarrow> nat \<times> int \<Rightarrow> fval option \<Rightarrow> bool" where
  "start_right h db key s i start d \<longleftrightarrow>
     (\<forall>r\<in>set (ledger db key). upto s i r \<and> \<not> covered_by start r \<longrightarrow> isPatchRevision r)
     \<and> (\<forall>r\<in>set (ledger db key). covered_by start r \<longrightarrow> upto s i r)
     \<and> after h db key (covered_by start) = Inr d"

lemma latest_base:
  assumes "rows_ok db" "selectLatestBase db key s i floor = Some b"
  shows "b \<in> set (ledger db key)" "\<not> isPatchRevision b" "floor \<le> rev_seq b" "upto s i b"
    and "\<And>r. r \<in> set (ledger db key) \<Longrightarrow> \<not> isPatchRevision r \<Longrightarrow> floor \<le> rev_seq r \<Longrightarrow> upto s i r \<Longrightarrow> row_pos r \<le> row_pos b"
  using last_filter_Some [OF ledger_in_order [OF assms(1)]] assms(2)
  unfolding selectLatestBase_def newest_first_ledger by blast+

lemma no_base:
  "selectLatestBase db key s i floor = None \<Longrightarrow> r \<in> set (ledger db key) \<Longrightarrow> floor \<le> rev_seq r \<Longrightarrow> upto s i r \<Longrightarrow> isPatchRevision r"
  unfolding selectLatestBase_def newest_first_ledger first_row_None by (auto simp: filter_empty_conv)

lemma start_at_base:
  assumes "rows_ok db" "selectLatestBase db key s i floor = Some b"
    and "\<And>r. r \<in> set (ledger db key) \<Longrightarrow> row_pos b < row_pos r \<Longrightarrow> floor \<le> rev_seq r"
  shows "start_right h db key s i (rev_seq b, int (rev_op_index b)) (case rev_operation b of RSet v \<Rightarrow> Some v | _ \<Rightarrow> None)"
proof -
  note b = latest_base [OF assms(1,2)]
  have c: "covered_by (rev_seq b, int (rev_op_index b)) = (\<lambda>r. row_pos r \<le> row_pos b)"
    by (auto simp: covered_by_def row_pos_def fun_eq_iff)
  obtain earlier where "filter (\<lambda>r. row_pos r \<le> row_pos b) (ledger db key) = earlier @ [b]"
    using filter_upto_last [OF ledger_in_order [OF assms(1)] b(1)] by blast
  then have "after h db key (covered_by (rev_seq b, int (rev_op_index b))) = Inr (case rev_operation b of RSet v \<Rightarrow> Some v | _ \<Rightarrow> None)"
    using b(2) by (simp add: after_def c run_row_def isPatchRevision_def split: rev_op.splits)
  moreover have "isPatchRevision r" if "r \<in> set (ledger db key)" "upto s i r" "\<not> row_pos r \<le> row_pos b" for r
    using b(5) [of r] assms(3) [of r] that by force
  moreover have "upto s i r" if "row_pos r \<le> row_pos b" for r using that b(4) by (auto simp: upto_pos)
  ultimately show ?thesis unfolding start_right_def c by blast
qed

lemma start_at_snapshot:
  assumes "rows_ok db" "snapshots_ok h db" "(key, s0, v) \<in> set (snapshot_rows db)"
    and "\<And>r. r \<in> set (ledger db key) \<Longrightarrow> s0 < rev_seq r \<Longrightarrow> upto s i r \<Longrightarrow> isPatchRevision r"
    and "\<And>r. r \<in> set (ledger db key) \<Longrightarrow> rev_seq r \<le> s0 \<Longrightarrow> upto s i r"
  shows "start_right h db key s i (s0, int MAX_SAFE_INTEGER) (Some v)"
proof -
  have c: "covered_by (s0, int MAX_SAFE_INTEGER) r \<longleftrightarrow> rev_seq r \<le> s0" if "r \<in> set (ledger db key)" for r
    using that assms(1) by (auto simp: covered_by_def rows_ok_def in_ledger)
  have "after h db key (\<lambda>r. rev_seq r \<le> s0) = Inr (Some v)"
    using assms(2,3) unfolding snapshots_ok_def by fastforce
  moreover have "filter (covered_by (s0, int MAX_SAFE_INTEGER)) (ledger db key) = filter (\<lambda>r. rev_seq r \<le> s0) (ledger db key)"
    by (rule filter_cong) (use c in auto)
  ultimately show ?thesis using assms(4,5) c by (auto simp: start_right_def after_def)
qed

text \<open>What is there at the start.\<close>

definition start_content :: "nat \<Rightarrow> revision option \<Rightarrow> (nat \<times> fval) option \<Rightarrow> fval option" where
  "start_content bs baseRow snapshotRow =
     (let from_base = (case baseRow of None \<Rightarrow> None | Some b \<Rightarrow> (case rev_operation b of RSet v \<Rightarrow> Some v | _ \<Rightarrow> None))
      in case snapshotRow of None \<Rightarrow> from_base | Some (s0, v) \<Rightarrow> if s0 = bs then Some v else from_base)"

lemma replay_start_right:
  assumes ok: "rows_ok db" "snapshots_ok h db"
    and exact: "exact \<or> (\<forall>r\<in>set (ledger db key). rev_seq r = s \<longrightarrow> rev_op_index r \<le> i)"
    and base: "latestBaseAndSnapshot db key s i exact = (baseRow, snapshotRow)"
  shows "start_right h db key s i (replay_start baseRow snapshotRow)
    (start_content (fst (replay_start baseRow snapshotRow)) baseRow snapshotRow)"
proof (cases snapshotRow)
  case None
  have b: "selectLatestBase db key s i 0 = baseRow" using base None by (auto simp: latestBaseAndSnapshot_def Let_def)
  show ?thesis
  proof (cases baseRow)
    case None
    then show ?thesis
      using no_base [of db key s i 0] b \<open>snapshotRow = None\<close>
      by (auto simp: start_right_def replay_start_def start_content_def after_def covered_by_def)
  next
    case (Some b')
    then show ?thesis using start_at_base [OF ok(1), of key s i 0 b'] b \<open>snapshotRow = None\<close> by (simp add: replay_start_def start_content_def)
  qed
next
  case (Some sv)
  obtain s0 v where sv: "sv = (s0, v)" by fastforce
  have snap: "(key, s0, v) \<in> set (snapshot_rows db)" "s0 \<le> s" "exact \<Longrightarrow> s0 < s"
    using base Some sv selected_snapshot [of db key s s0 v] by (auto simp: latestBaseAndSnapshot_def Let_def split: if_splits)
  have b: "selectLatestBase db key s i s0 = baseRow" using base Some sv by (auto simp: latestBaseAndSnapshot_def Let_def)
  have below: "upto s i r" if "r \<in> set (ledger db key)" "rev_seq r \<le> s0" for r
    using that snap exact by (cases "rev_seq r = s") (auto simp: upto_def)
  show ?thesis
  proof (cases baseRow)
    case None
    have "start_right h db key s i (s0, int MAX_SAFE_INTEGER) (Some v)"
      by (rule start_at_snapshot [OF ok snap(1) _ below]) (use no_base [of db key s i s0] b None in auto)
    then show ?thesis using None Some sv by (simp add: replay_start_def start_content_def)
  next
    case base': (Some b')
    note b' = latest_base [OF ok(1) b [unfolded base']]
    show ?thesis
    proof (cases "s0 \<ge> rev_seq b'")
      case True
      have "start_right h db key s i (s0, int MAX_SAFE_INTEGER) (Some v)"
        by (rule start_at_snapshot [OF ok snap(1) _ below]) (use b'(5) True in \<open>force simp: row_pos_def\<close>)+
      then show ?thesis using True base' Some sv by (simp add: replay_start_def start_content_def)
    next
      case False
      then have "s0 \<le> rev_seq r" if "row_pos b' < row_pos r" for r using that by (auto simp: row_pos_def)
      then have "start_right h db key s i (rev_seq b', int (rev_op_index b')) (case rev_operation b' of RSet v \<Rightarrow> Some v | _ \<Rightarrow> None)"
        by (intro start_at_base [OF ok(1) b [unfolded base']])
      then show ?thesis using False base' Some sv by (auto simp: replay_start_def start_content_def)
    qed
  qed
qed

section \<open>Replaying from there\<close>

lemma covered_down: "covered_by start r \<Longrightarrow> row_pos x \<le> row_pos r \<Longrightarrow> covered_by start x"
  by (auto simp: covered_by_def row_pos_def)

lemma selectPatches_ledger:
  "selectPatches db key bs bo s i = filter (\<lambda>r. isPatchRevision r \<and> \<not> covered_by (bs, bo) r \<and> upto s i r) (ledger db key)"
proof -
  have "(rev_seq r > bs \<or> rev_seq r = bs \<and> int (rev_op_index r) > bo) \<longleftrightarrow> \<not> covered_by (bs, bo) r" for r
    by (auto simp: covered_by_def)
  then show ?thesis by (simp add: selectPatches_def ledger_def filter_sort)
qed

lemma pending_rows:
  assumes "rows_ok db" "start_right h db key s i (bs, bo) d"
  shows "selectPatches db key bs bo s i = filter (\<lambda>r. \<not> covered_by (bs, bo) r \<and> upto s i r) (ledger db key)"
    and "list_all isPatchRevision (selectPatches db key bs bo s i)"
    and "after h db key (upto s i) = run_rows h (Inr d) (selectPatches db key bs bo s i)"
proof -
  let ?L = "ledger db key" and ?C = "covered_by (bs, bo)"
  show p: "selectPatches db key bs bo s i = filter (\<lambda>r. \<not> ?C r \<and> upto s i r) ?L"
    unfolding selectPatches_ledger by (rule filter_cong) (use assms(2) in \<open>auto simp: start_right_def\<close>)
  show "list_all isPatchRevision (selectPatches db key bs bo s i)" by (simp add: selectPatches_ledger list_all_iff)
  have "in_order (filter (upto s i) ?L)" using ledger_in_order [OF assms(1)] by (rule sorted_wrt_filter)
  then have "filter (upto s i) ?L = filter ?C (filter (upto s i) ?L) @ filter (\<lambda>r. \<not> ?C r) (filter (upto s i) ?L)"
    by (rule filter_split_sorted) (rule covered_down)
  also have "filter ?C (filter (upto s i) ?L) = filter ?C ?L"
    using assms(2) unfolding start_right_def filter_filter by (intro filter_cong) auto
  also have "filter (\<lambda>r. \<not> ?C r) (filter (upto s i) ?L) = selectPatches db key bs bo s i"
    unfolding p filter_filter by (rule filter_cong) auto
  finally show "after h db key (upto s i) = run_rows h (Inr d) (selectPatches db key bs bo s i)"
    using assms(2) by (simp add: after_def start_right_def)
qed

lemma start_right_earlier:
  assumes "start_right h db key s i start d" "t \<in> set (ledger db key)" "\<not> covered_by start t" "upto s i t"
  shows "start_right h db key (rev_seq t) (rev_op_index t) start d"
proof -
  have "upto s i r" if "upto (rev_seq t) (rev_op_index t) r" for r using that assms(4) by (auto simp: upto_def)
  moreover have "upto (rev_seq t) (rev_op_index t) r" if "covered_by start r" for r
    using that assms(3) by (auto simp: upto_def covered_by_def)
  ultimately show ?thesis using assms(1) unfolding start_right_def by blast
qed

lemma take_upto:
  assumes "in_order rows" "0 < n" "n \<le> length rows"
  shows "filter (\<lambda>r. row_pos r \<le> row_pos (rows ! (n - 1))) rows = take n rows"
proof -
  let ?t = "rows ! (n - 1)"
  have split: "rows = take (n - 1) rows @ ?t # drop n rows"
    using assms(2,3) by (metis Suc_pred' id_take_nth_drop Suc_le_lessD less_le_trans diff_less zero_less_one)
  have "in_order (take (n - 1) rows @ ?t # drop n rows)" using assms(1) split by simp
  then have "filter (\<lambda>r. row_pos r \<le> row_pos ?t) (take (n - 1) rows) = take (n - 1) rows"
    "filter (\<lambda>r. row_pos r \<le> row_pos ?t) (drop n rows) = []"
    by (auto simp: sorted_wrt_append filter_id_conv filter_empty_conv intro: less_imp_le)
  then have "filter (\<lambda>r. row_pos r \<le> row_pos ?t) rows = take (n - 1) rows @ [?t]"
    by (subst split) simp
  also have "\<dots> = take n rows" using assms(2,3) by (metis Suc_pred' take_Suc_conv_app_nth Suc_le_lessD)
  finally show ?thesis .
qed

lemma partial_replay:
  assumes "rows_ok db" "start_right h db key s i (bs, bo) d" "0 < n" "n \<le> length (selectPatches db key bs bo s i)"
  shows "document_at_row h db (selectPatches db key bs bo s i ! (n - 1)) = run_rows h (Inr d) (take n (selectPatches db key bs bo s i))"
proof -
  let ?ps = "selectPatches db key bs bo s i" and ?L = "ledger db key"
  define t where "t = ?ps ! (n - 1)"
  note ps = pending_rows(1) [OF assms(1,2)]
  have "t \<in> set ?ps" using assms(3,4) by (simp add: t_def)
  then have t: "t \<in> set ?L" "\<not> covered_by (bs, bo) t" "upto s i t" unfolding ps by auto
  have key: "row_key t = key" using t(1) by (simp add: in_ledger)
  have sr: "start_right h db key (rev_seq t) (rev_op_index t) (bs, bo) d" by (rule start_right_earlier [OF assms(2) t])
  have "selectPatches db key bs bo (rev_seq t) (rev_op_index t) = filter (\<lambda>r. row_pos r \<le> row_pos t) ?ps"
    unfolding pending_rows(1) [OF assms(1) sr] ps filter_filter
    by (rule filter_cong) (use t(3) in \<open>auto simp: upto_pos row_pos_def\<close>)
  also have "\<dots> = take n ?ps"
    unfolding t_def by (rule take_upto) (use ledger_in_order [OF assms(1)] assms(3,4) in \<open>simp_all add: ps sorted_wrt_filter\<close>)
  finally show ?thesis using pending_rows(3) [OF assms(1) sr] unfolding t_def [symmetric] document_at_row_def key by simp
qed

lemma resume_right:
  assumes "resume i cd key rows p = (r, p')" "cache_ok h i cd db p" "rows_ok db" "set rows \<subseteq> set (ledger db key)"
  shows "cache_ok h i cd db p' \<and>
    (case r of None \<Rightarrow> True
     | Some (d, w, n) \<Rightarrow> 0 < n \<and> n \<le> length rows \<and> document_at_row h db (rev rows ! (n - 1)) = Inr (Some d))"
  using assms
proof (induction rows arbitrary: p)
  case Nil
  then show ?case by simp
next
  case (Cons x rows)
  obtain c p1 where c: "cachedDocumentForRevision i (row_cache_key cd key x) p = (c, p1)" by fastforce
  have x: "x \<in> set (revision_rows db)" "row_key x = key" using Cons.prems(4) by (auto simp: in_ledger)
  have ok: "cache_ok h i cd db p1" using c Cons.prems(2) by (rule cache.look_sound)
  show ?case
  proof (cases "\<exists>e d. c = Some e \<and> cached_document e = Some d")
    case True
    then obtain e d where e: "c = Some e" "cached_document e = Some d" by blast
    have "document_at_row h db x = Inr (Some d)"
      using found_row [of i cd x p e p1 h db] c e x Cons.prems(2,3) by simp
    then show ?thesis using Cons.prems(1) c e ok by (auto simp: nth_append)
  next
    case False
    then have "resume i cd key rows p1 = (r, p')" using Cons.prems(1) c by (auto split: option.splits)
    then have "cache_ok h i cd db p' \<and> (case r of None \<Rightarrow> True
     | Some (d, w, n) \<Rightarrow> 0 < n \<and> n \<le> length rows \<and> document_at_row h db (rev rows ! (n - 1)) = Inr (Some d))"
      using Cons.IH ok Cons.prems(3,4) by simp
    then show ?thesis by (auto simp: nth_append split: option.splits)
  qed
qed

text \<open>The start a replay reads, from the cache or the tables.\<close>

definition filled :: "fval option \<Rightarrow> fval" where
  "filled d = (case d of None \<Rightarrow> emptyEntityDocument | Some v \<Rightarrow> v)"

lemma snapshotted_right:
  assumes "cachedSnapshottedRevision i cd db key s p = (r, p')" "cache_ok h i cd db p" "rows_ok db"
  shows "cache_ok h i cd db p' \<and> (\<forall>d. r = Some d \<longrightarrow> after h db key (\<lambda>r. rev_seq r \<le> s) = Inr (Some d))"
proof (cases "\<exists>row. selectAtSeqLocal db key s = Some row \<and> rev_seq row = s")
  case False
  then show ?thesis using assms(1,2) by (auto simp: cachedSnapshottedRevision_def split: option.splits if_splits)
next
  case True
  then obtain row where row: "selectAtSeqLocal db key s = Some row" "rev_seq row = s" by blast
  obtain c p1 where c: "cachedDocumentForRevision i (row_cache_key cd key row) p = (c, p1)" by fastforce
  have newest: "first_row (rev (filter (\<lambda>r. rev_seq r \<le> s) (ledger db key))) = Some row"
    using row(1) by (simp add: selectAtSeqLocal_def newest_first_ledger)
  note n = last_filter_Some [OF ledger_in_order [OF assms(3)] newest]
  have key: "row_key row = key" "row \<in> set (revision_rows db)" using n(1) by (simp_all add: in_ledger)
  have "filter (upto (rev_seq row) (rev_op_index row)) (ledger db key) = filter (\<lambda>r. rev_seq r \<le> s) (ledger db key)"
    by (rule filter_cong) (use n(3) row(2) in \<open>auto simp: upto_pos row_pos_def\<close>)
  then have "document_at_row h db row = after h db key (\<lambda>r. rev_seq r \<le> s)"
    by (simp add: document_at_row_def after_def key)
  moreover have "cache_ok h i cd db p1" using c assms(2) by (rule cache.look_sound)
  moreover have "document_at_row h db row = Inr (cached_document e)" if "c = Some e" for e
    using found_row [of i cd row p e p1 h db] c that assms(2,3) key by simp
  ultimately show ?thesis using assms(1) row c
    by (auto simp: cachedSnapshottedRevision_def split: option.splits)
qed

lemma starting_right:
  assumes base: "latestBaseAndSnapshot db key s i exact = (baseRow, snapshotRow)"
    and start: "replay_start baseRow snapshotRow = (bs, bo)"
    and st: "starting_document e cd db key baseRow snapshotRow bs p = ((d, w), p')"
    and ok: "cache_ok h e cd db p" "rows_ok db" "snapshots_ok h db"
  shows "cache_ok h e cd db p'"
    and "d = filled (start_content bs baseRow snapshotRow)"
proof -
  let ?from = "case baseRow of None \<Rightarrow> None | Some b \<Rightarrow> (case rev_operation b of RSet v \<Rightarrow> Some v | _ \<Rightarrow> None)"
  have from_base: "cache_ok h e cd db p' \<and> d = filled ?from"
    if "starting_document e cd db key baseRow None bs p = ((d, w), p')"
  proof (cases "\<exists>b v. baseRow = Some b \<and> rev_operation b = RSet v")
    case False
    then show ?thesis using that ok(1)
      by (auto simp: starting_document_def Let_def filled_def split: option.splits rev_op.splits)
  next
    case True
    then obtain b v where b: "baseRow = Some b" "rev_operation b = RSet v" by blast
    obtain c p1 where c: "cachedDocumentForRevision e (row_cache_key cd key b) p = (c, p1)" by fastforce
    obtain floor where "selectLatestBase db key s i floor = Some b" using base b by (auto simp: latestBaseAndSnapshot_def Let_def)
    then have bl: "b \<in> set (ledger db key)" by (rule latest_base(1) [OF ok(2)])
    then have key: "row_key b = key" "b \<in> set (revision_rows db)" by (simp_all add: in_ledger)
    obtain earlier where "filter (\<lambda>r. row_pos r \<le> row_pos b) (ledger db key) = earlier @ [b]"
      using filter_upto_last [OF ledger_in_order [OF ok(2)] bl] by blast
    moreover have "upto (rev_seq b) (rev_op_index b) = (\<lambda>r. row_pos r \<le> row_pos b)"
      by (simp add: upto_pos fun_eq_iff) (simp add: row_pos_def)
    ultimately have "filter (upto (rev_seq b) (rev_op_index b)) (ledger db key) = earlier @ [b]" by simp
    then have "document_at_row h db b = Inr (Some v)" using b(2) by (simp add: document_at_row_def after_def key run_row_def)
    then have "cached_document x = Some v" if "c = Some x" for x
      using found_row [of e cd b p x p1 h db] c that ok key by simp
    moreover have "cache_ok h e cd db p1" using c ok(1) by (rule cache.look_sound)
    ultimately show ?thesis using that b c
      by (auto simp: starting_document_def Let_def filled_def split: option.splits)
  qed
  have both: "cache_ok h e cd db p' \<and> d = filled (start_content bs baseRow snapshotRow)"
  proof (cases "\<exists>v. snapshotRow = Some (bs, v)")
    case True
    then obtain v where v: "snapshotRow = Some (bs, v)" by blast
    have "(key, bs, v) \<in> set (snapshot_rows db)"
      using base v selected_snapshot [of db key s bs v] by (auto simp: latestBaseAndSnapshot_def Let_def split: if_splits)
    then have "after h db key (\<lambda>r. rev_seq r \<le> bs) = Inr (Some v)" using ok(3) unfolding snapshots_ok_def by fastforce
    moreover obtain c p1 where c: "cachedSnapshottedRevision e cd db key bs p = (c, p1)" by fastforce
    ultimately show ?thesis using snapshotted_right [OF c ok(1,2)] st v
      by (auto simp: start_content_def starting_document_def Let_def filled_def split: option.splits)
  next
    case False
    then have "starting_document e cd db key baseRow None bs p = ((d, w), p')"
      using st by (auto simp: starting_document_def Let_def split: option.splits)
    then show ?thesis using from_base False by (auto simp: start_content_def split: option.splits)
  qed
  show "cache_ok h e cd db p'" using both by blast
  show "d = filled (start_content bs baseRow snapshotRow)" using both by blast
qed

lemma reconstruct_right:
  assumes r: "reconstructPatchedDocument h e cd db key (rev_seq t) (rev_op_index t) exact p = (r, p')"
    and t: "t \<in> set (ledger db key)" "isPatchRevision t"
    and exact: "exact \<or> (\<forall>x\<in>set (ledger db key). rev_seq x = rev_seq t \<longrightarrow> rev_op_index x \<le> rev_op_index t)"
    and ok: "cache_ok h e cd db p" "rows_ok db" "snapshots_ok h db"
  shows "document_of r = document_at_row h db t \<and> cache_ok h e cd db p'"
proof -
  let ?s = "rev_seq t" and ?i = "rev_op_index t"
  obtain baseRow snapshotRow where base: "latestBaseAndSnapshot db key ?s ?i exact = (baseRow, snapshotRow)" by fastforce
  obtain bs bo where start: "replay_start baseRow snapshotRow = (bs, bo)" by fastforce
  define ps where "ps = selectPatches db key bs bo ?s ?i"
  define d0 where "d0 = start_content bs baseRow snapshotRow"
  have sr: "start_right h db key ?s ?i (bs, bo) d0"
    using replay_start_right [OF ok(2,3) exact base] by (simp add: start d0_def)
  have key: "row_key t = key" using t(1) by (simp add: in_ledger)
  note pending = pending_rows [OF ok(2) sr, folded ps_def]
  have target: "document_at_row h db t = run_rows h (Inr d0) ps" using pending(3) by (simp add: document_at_row_def key)
  obtain res p1 where res: "resume e cd key (rev ps) p = (res, p1)" by fastforce
  have "set (rev ps) \<subseteq> set (ledger db key)" unfolding pending(1) by auto
  note resumed = resume_right [OF res ok(1,2) this]
  show ?thesis
  proof (cases res)
    case (Some dwn)
    obtain d w n where dwn: "dwn = (d, w, n)" by (cases dwn) auto
    have n: "0 < n" "n \<le> length ps" "document_at_row h db (ps ! (n - 1)) = Inr (Some d)"
      using resumed Some dwn by auto
    have "run_rows h (Inr d0) (take n ps) = Inr (Some d)"
      using partial_replay [OF ok(2) sr n(1)] n(2,3) by (simp add: ps_def)
    then have "run_rows h (Inr d0) ps = run_rows h (Inr (Some d)) (drop n ps)"
      by (metis append_take_drop_id run_rows_simps(3))
    moreover have "list_all isPatchRevision (drop n ps)" using pending(2) by (metis append_take_drop_id list_all_append)
    moreover have "r = replay_weighed h cd d w True (drop n ps)" "p' = p1"
      using r base start res Some dwn by (simp_all add: reconstructPatchedDocument_def ps_def)
    ultimately show ?thesis using target resumed replay_weighed_run by simp
  next
    case None
    obtain d w p2 where st: "starting_document e cd db key baseRow snapshotRow bs p1 = ((d, w), p2)"
      by (cases "starting_document e cd db key baseRow snapshotRow bs p1") auto
    have cp1: "cache_ok h e cd db p1" using resumed by simp
    note s = starting_right [OF base start st cp1 ok(2,3)]
    have d: "d = filled d0" using s(2) by (simp add: d0_def)
    have res': "r = replay_weighed h cd d w True ps" "p' = p2"
      using r base start res None st by (simp_all add: reconstructPatchedDocument_def ps_def)
    have "run_rows h (Inr d0) ps = run_rows h (Inr (Some d)) ps"
    proof (cases d0)
      case None
      have "\<not> covered_by (bs, bo) t"
      proof
        assume "covered_by (bs, bo) t"
        have "baseRow = None \<and> (bs, bo) = (0, -1) \<or> (\<exists>b. baseRow = Some b \<and> (bs, bo) = (rev_seq b, int (rev_op_index b)))"
          using None start by (auto simp: d0_def start_content_def replay_start_def split: option.splits if_splits)
        then obtain b where b: "baseRow = Some b" "bs = rev_seq b" "bo = int (rev_op_index b)"
          using \<open>covered_by (bs, bo) t\<close> by (auto simp: covered_by_def)
        obtain floor where "selectLatestBase db key ?s ?i floor = Some b" using base b by (auto simp: latestBaseAndSnapshot_def Let_def)
        note lb = latest_base(1,2,4) [OF ok(2) this]
        have "row_pos t \<le> row_pos b"
          using \<open>covered_by (bs, bo) t\<close> unfolding covered_by_def b(2,3) by (auto simp: row_pos_def)
        moreover have "row_pos b \<le> row_pos t" using lb(3) unfolding upto_pos by (simp add: row_pos_def [of t])
        ultimately have "row_pos b = row_pos t" by simp
        then have "b = t" using row_unique [OF ok(2), of b t] lb(1) t(1) by (simp add: in_ledger)
        then show False using lb(2) t(2) by simp
      qed
      then have "t \<in> set ps" using t(1) unfolding pending(1) by (simp add: upto_def)
      then have "ps \<noteq> []" by auto
      then show ?thesis using None run_from_empty [OF _ pending(2)] d by (simp add: filled_def)
    next
      case (Some v)
      then show ?thesis using d by (simp add: filled_def)
    qed
    then show ?thesis using target s(1) res' replay_weighed_run [OF pending(2)] by simp
  qed
qed

section \<open>Reading a branch\<close>

definition branches_ok :: "doc_tables \<Rightarrow> bool" where
  "branches_ok db \<longleftrightarrow>
     distinct (map branch_name (branch_rows db))
     \<and> (\<forall>k<length (branch_rows db). let b = branch_rows db ! k in
          createdSeq b \<le> headSeq b
          \<and> (branch_name b = DEFAULT_BRANCH \<longrightarrow> parentBranch b = None)
          \<and> (\<forall>q. parentBranch b = Some q \<longrightarrow> forkSeq b = Some (createdSeq b)
               \<and> (\<exists>j<k. branch_name (branch_rows db ! j) = q \<and> createdSeq (branch_rows db ! j) \<le> createdSeq b
                     \<and> createdSeq b \<le> headSeq (branch_rows db ! j))))
     \<and> (\<forall>r\<in>set (revision_rows db). \<exists>b\<in>set (branch_rows db).
          branch_name b = rev_branch r \<and> createdSeq b < rev_seq r \<and> rev_seq r \<le> headSeq b)"

definition numbers_ok :: "doc_tables \<Rightarrow> bool" where
  "numbers_ok db \<longleftrightarrow> (\<forall>b\<in>set (branch_rows db). headSeq b < selectNextSeq db)"

definition tables_ok :: "host \<Rightarrow> doc_tables \<Rightarrow> bool" where
  "tables_ok h db \<longleftrightarrow> rows_ok db \<and> heads_ok db \<and> snapshots_ok h db \<and> branches_ok db \<and> numbers_ok db"

text \<open>The document an entity has on a branch at a sequence number: the fold of the rows of the branch up
  to there if it has any, and what the parent has at the fork otherwise.\<close>

fun view :: "nat \<Rightarrow> host \<Rightarrow> doc_tables \<Rightarrow> string \<Rightarrow> string \<Rightarrow> string \<Rightarrow> nat \<Rightarrow> store_error + fval option" where
  "view 0 h db ident scopeKey branch s = Inl NoReturn"
| "view (Suc n) h db ident scopeKey branch s =
     (let rows = filter (\<lambda>r. rev_seq r \<le> s) (ledger db (branch, ident, scopeKey)) in
      if rows \<noteq> [] then run_rows h (Inr None) rows
      else case getBranch db branch of
          None \<Rightarrow> Inr None
        | Some b \<Rightarrow> (case parentBranch b of None \<Rightarrow> Inr None | Some parent \<Rightarrow> view n h db ident scopeKey parent (createdSeq b)))"

definition document_view :: "host \<Rightarrow> doc_tables \<Rightarrow> string \<Rightarrow> string \<Rightarrow> string \<Rightarrow> nat \<Rightarrow> store_error + fval option" where
  "document_view h db = view (Suc (length (branch_rows db))) h db"

lemma getBranch_nth:
  assumes "distinct (map branch_name (branch_rows db))" "k < length (branch_rows db)"
  shows "getBranch db (branch_name (branch_rows db ! k)) = Some (branch_rows db ! k)"
proof -
  have "find (\<lambda>b. branch_name b = branch_name (bs ! k)) bs = Some (bs ! k)"
    if "distinct (map branch_name bs)" "k < length bs" for bs :: "branch_row list"
    using that by (induction bs arbitrary: k) (auto simp: nth_Cons' less_Suc_eq_0_disj)
  then show ?thesis using assms unfolding getBranch_def .
qed

lemma getBranch_Some:
  "getBranch db name = Some b \<Longrightarrow> \<exists>k<length (branch_rows db). branch_rows db ! k = b \<and> branch_name b = name"
  unfolding getBranch_def by (auto simp: find_Some_iff)

lemma heads_newest:
  "heads_ok db \<Longrightarrow> map_of (head_rows db) key =
     map_option (\<lambda>r. (rev_seq r, rev_op_index r, op_name (rev_operation r))) (first_row (rev (ledger db key)))"
  unfolding heads_ok_def by blast

lemma selectCurrentLocal_newest:
  assumes "rows_ok db" "heads_ok db"
  shows "selectCurrentLocal db key = first_row (rev (ledger db key))"
proof (cases "ledger db key = []")
  case True
  then show ?thesis using heads_newest [OF assms(2), of key] by (simp add: selectCurrentLocal_def first_row_def)
next
  case False
  let ?r = "last (ledger db key)"
  have r: "?r \<in> set (doc_rows db key)" using False by (metis ledger_def last_in_set set_sort)
  have "find (\<lambda>r. row_pos r = row_pos ?r) (doc_rows db key) = Some ?r"
  proof -
    obtain x where x: "find (\<lambda>r. row_pos r = row_pos ?r) (doc_rows db key) = Some x"
      using r by (cases "find (\<lambda>r. row_pos r = row_pos ?r) (doc_rows db key)") (auto simp: find_None_iff)
    then have "x \<in> set (doc_rows db key)" "row_pos x = row_pos ?r" by (auto simp: find_Some_iff)
    then have "x = ?r" using row_unique [OF assms(1), of x ?r] r by (simp add: doc_rows_def)
    then show ?thesis using x by simp
  qed
  moreover have "map_of (head_rows db) key = Some (rev_seq ?r, rev_op_index ?r, op_name (rev_operation ?r))"
    using heads_newest [OF assms(2), of key] False by (simp add: first_row_rev)
  ultimately show ?thesis using False by (simp add: selectCurrentLocal_def first_row_rev row_pos_def)
qed

text \<open>The row the code resolves to is the newest of the branch, at its head as before it.\<close>

lemma local_row:
  assumes "tables_ok h db" "getBranch db branch = Some b" "s \<le> headSeq b"
  shows "(if s = headSeq b then selectCurrentLocal db (branch, ident, scopeKey) else selectAtSeqLocal db (branch, ident, scopeKey) s)
    = first_row (rev (filter (\<lambda>r. rev_seq r \<le> s) (ledger db (branch, ident, scopeKey))))"
proof -
  let ?L = "ledger db (branch, ident, scopeKey)"
  have ok: "rows_ok db" "heads_ok db" "branches_ok db" using assms(1) by (simp_all add: tables_ok_def)
  have "rev_seq r \<le> headSeq b" if "r \<in> set ?L" for r
  proof -
    have r: "r \<in> set (revision_rows db)" "rev_branch r = branch" using that by (auto simp: in_ledger row_key_def)
    then obtain b' where b': "b' \<in> set (branch_rows db)" "branch_name b' = branch" "rev_seq r \<le> headSeq b'"
      using ok(3) unfolding branches_ok_def by blast
    then have "getBranch db branch = Some b'" using getBranch_nth ok(3) unfolding branches_ok_def by (metis in_set_conv_nth)
    then show ?thesis using b'(3) assms(2) by simp
  qed
  then have "s = headSeq b \<Longrightarrow> filter (\<lambda>r. rev_seq r \<le> s) ?L = ?L" by (simp add: filter_id_conv)
  then show ?thesis
    by (simp add: selectCurrentLocal_newest [OF ok(1,2)] selectAtSeqLocal_def newest_first_ledger)
qed

lemma row_view:
  assumes "rows_ok db" "first_row (rev (filter (\<lambda>r. rev_seq r \<le> s) (ledger db key))) = Some row"
  shows "run_rows h (Inr None) (filter (\<lambda>r. rev_seq r \<le> s) (ledger db key)) = document_at_row h db row"
    and "row \<in> set (ledger db key)" "\<forall>x\<in>set (ledger db key). rev_seq x = rev_seq row \<longrightarrow> rev_op_index x \<le> rev_op_index row"
    and "filter (\<lambda>r. rev_seq r \<le> s) (ledger db key) \<noteq> []"
proof -
  note n = last_filter_Some [OF ledger_in_order [OF assms(1)] assms(2)]
  have "filter (upto (rev_seq row) (rev_op_index row)) (ledger db key) = filter (\<lambda>r. rev_seq r \<le> s) (ledger db key)"
    by (rule filter_cong) (use n(2,3) in \<open>auto simp: upto_pos row_pos_def\<close>)
  moreover have "row_key row = key" using n(1) by (simp add: in_ledger)
  ultimately show "run_rows h (Inr None) (filter (\<lambda>r. rev_seq r \<le> s) (ledger db key)) = document_at_row h db row"
    by (simp add: document_at_row_def after_def)
  show "row \<in> set (ledger db key)" by (rule n(1))
  show "\<forall>x\<in>set (ledger db key). rev_seq x = rev_seq row \<longrightarrow> rev_op_index x \<le> rev_op_index row"
    using n(2,3) by (force simp: row_pos_def)
  show "filter (\<lambda>r. rev_seq r \<le> s) (ledger db key) \<noteq> []" using assms(2) by (auto simp: first_row_def)
qed

text \<open>The recursion over the parents ends, and reads each of them within its range.\<close>

lemma readRowForBranch_view:
  assumes ok: "tables_ok h db"
  shows "k < length (branch_rows db) \<Longrightarrow> k < n \<Longrightarrow> b = branch_rows db ! k \<Longrightarrow>
    (if branch_name b = DEFAULT_BRANCH then 0 else createdSeq b) \<le> s \<Longrightarrow> s \<le> headSeq b \<Longrightarrow>
    (case readRowForBranch n db ident scopeKey (branch_name b) (Some s) of
       Inl e \<Rightarrow> False
     | Inr None \<Rightarrow> view n h db ident scopeKey (branch_name b) s = Inr None
     | Inr (Some (row, rb)) \<Rightarrow> view n h db ident scopeKey (branch_name b) s = document_at_row h db row
         \<and> row \<in> set (ledger db (rb, ident, scopeKey))
         \<and> (\<forall>x\<in>set (ledger db (rb, ident, scopeKey)). rev_seq x = rev_seq row \<longrightarrow> rev_op_index x \<le> rev_op_index row))"
proof (induction n arbitrary: k b s)
  case (Suc n)
  have oks: "rows_ok db" "branches_ok db" using ok by (simp_all add: tables_ok_def)
  have bk: "getBranch db (branch_name b) = Some b"
    using getBranch_nth Suc.prems(1,3) oks(2) by (simp add: branches_ok_def)
  let ?rows = "filter (\<lambda>r. rev_seq r \<le> s) (ledger db (branch_name b, ident, scopeKey))"
  have range: "\<not> (s < (if branch_name b = DEFAULT_BRANCH then 0 else createdSeq b) \<or> s > headSeq b)"
    using Suc.prems(4,5) by auto
  have step: "readRowForBranch (Suc n) db ident scopeKey (branch_name b) (Some s) =
     (case first_row (rev ?rows) of
        Some row \<Rightarrow> Inr (Some (row, branch_name b))
      | None \<Rightarrow> (case parentBranch b of None \<Rightarrow> Inr None
          | Some parent \<Rightarrow> readRowForBranch n db ident scopeKey parent (Some (min s (case forkSeq b of None \<Rightarrow> 0 | Some s \<Rightarrow> s)))))"
    using range local_row [OF ok bk Suc.prems(5)] by (simp add: branch_of_def bk Let_def)
  show ?case
  proof (cases "first_row (rev ?rows)")
    case (Some row)
    then show ?thesis using row_view [OF oks(1) Some] unfolding step by simp
  next
    case None
    then have empty: "?rows = []" by (simp add: first_row_None)
    show ?thesis
    proof (cases "parentBranch b")
      case None
      then show ?thesis using \<open>first_row (rev ?rows) = None\<close> empty bk unfolding step by simp
    next
      case (Some q)
      have at: "createdSeq (branch_rows db ! k) \<le> headSeq (branch_rows db ! k)"
        "branch_name (branch_rows db ! k) = DEFAULT_BRANCH \<longrightarrow> parentBranch (branch_rows db ! k) = None"
        "parentBranch (branch_rows db ! k) = Some q \<longrightarrow> forkSeq (branch_rows db ! k) = Some (createdSeq (branch_rows db ! k))
               \<and> (\<exists>j<k. branch_name (branch_rows db ! j) = q \<and> createdSeq (branch_rows db ! j) \<le> createdSeq (branch_rows db ! k)
                     \<and> createdSeq (branch_rows db ! k) \<le> headSeq (branch_rows db ! j))"
        using oks(2) Suc.prems(1) unfolding branches_ok_def Let_def by blast+
      obtain j where j: "j < k" "branch_name (branch_rows db ! j) = q" "createdSeq (branch_rows db ! j) \<le> createdSeq b"
        "createdSeq b \<le> headSeq (branch_rows db ! j)" and f: "forkSeq b = Some (createdSeq b)" and nd: "branch_name b \<noteq> DEFAULT_BRANCH"
        using at(2,3) Some Suc.prems(3) by auto
      have m: "min s (case forkSeq b of None \<Rightarrow> 0 | Some s \<Rightarrow> s) = createdSeq b" using Suc.prems(4) nd f by simp
      have IH: "case readRowForBranch n db ident scopeKey q (Some (createdSeq b)) of
           Inl e \<Rightarrow> False
         | Inr None \<Rightarrow> view n h db ident scopeKey q (createdSeq b) = Inr None
         | Inr (Some (row, rb)) \<Rightarrow> view n h db ident scopeKey q (createdSeq b) = document_at_row h db row
             \<and> row \<in> set (ledger db (rb, ident, scopeKey))
             \<and> (\<forall>x\<in>set (ledger db (rb, ident, scopeKey)). rev_seq x = rev_seq row \<longrightarrow> rev_op_index x \<le> rev_op_index row)"
        by (rule Suc.IH [of j "branch_rows db ! j" "createdSeq b", unfolded j(2)]) (use j Suc.prems(1,2) in auto)
      have "readRowForBranch (Suc n) db ident scopeKey (branch_name b) (Some s) = readRowForBranch n db ident scopeKey q (Some (createdSeq b))"
        unfolding step using None Some m by simp
      moreover have "view (Suc n) h db ident scopeKey (branch_name b) s = view n h db ident scopeKey q (createdSeq b)"
        using empty bk Some by simp
      ultimately show ?thesis using IH by (simp only:)
    qed
  qed
qed simp

section \<open>Reading a document\<close>

definition es_result :: "store_error + entity_state option \<Rightarrow> store_error + fval option" where
  "es_result r = bindR r (\<lambda>state. Inr (case state of None \<Rightarrow> None | Some s \<Rightarrow> es_document s))"

lemma decode_right:
  assumes "decode_row h e cd db key row p = (r, p')" "row \<in> set (ledger db key)"
    and "\<forall>x\<in>set (ledger db key). rev_seq x = rev_seq row \<longrightarrow> rev_op_index x \<le> rev_op_index row"
    and "cache_ok h e cd db p" "rows_ok db" "snapshots_ok h db"
  shows "bindR r (\<lambda>entry. Inr (cached_document entry)) = document_at_row h db row \<and> cache_ok h e cd db p'"
proof (cases "isPatchRevision row")
  case True
  then obtain ops where ops: "rev_operation row = RPatch ops" by (auto simp: isPatch_iff)
  obtain q p1 where q: "reconstructPatchedDocument h e cd db key (rev_seq row) (rev_op_index row) False p = (q, p1)" by fastforce
  have "document_of q = document_at_row h db row \<and> cache_ok h e cd db p1"
    by (rule reconstruct_right [OF q assms(2) True _ assms(4-6)]) (use assms(3) in blast)
  moreover have "bindR (bindR q (\<lambda>(document, w). Inr \<lparr>cached_document = Some document, weight = w\<rparr>)) (\<lambda>entry. Inr (cached_document entry))
      = document_of q"
    by (cases q) (auto simp: document_of_def)
  ultimately show ?thesis using assms(1) ops q by (auto simp: decode_row_def)
next
  case False
  have key: "row_key row = key" using assms(2) by (simp add: in_ledger)
  obtain earlier where "filter (\<lambda>r. row_pos r \<le> row_pos row) (ledger db key) = earlier @ [row]"
    using filter_upto_last [OF ledger_in_order [OF assms(5)] assms(2)] by blast
  moreover have "upto (rev_seq row) (rev_op_index row) = (\<lambda>r. row_pos r \<le> row_pos row)"
    by (simp add: upto_pos fun_eq_iff) (simp add: row_pos_def)
  ultimately have "document_at_row h db row = run_row h (run_rows h (Inr None) earlier) row"
    by (simp add: document_at_row_def after_def key)
  then show ?thesis using assms(1,4) False
    by (auto simp: decode_row_def run_row_def isPatchRevision_def split: rev_op.splits)
qed

lemma ledger_rows: "row \<in> set (ledger db key) \<Longrightarrow> row \<in> set (revision_rows db) \<and> row_key row = key"
  by (simp add: in_ledger)

lemma readStateForScopeKey_right:
  assumes ok: "tables_ok h db" "cache_ok h e cd db p" and b: "getBranch db branch = Some b"
    and range: "(if branch = DEFAULT_BRANCH then 0 else createdSeq b) \<le> s" "s \<le> headSeq b"
    and seq: "seq = Some s \<or> seq = None \<and> s = headSeq b"
    and r: "readStateForScopeKey h e cd db ident scope scopeKey branch seq p = (r, p')"
  shows "es_result r = document_view h db ident scopeKey branch s \<and> cache_ok h e cd db p'"
proof -
  have oks: "rows_ok db" "snapshots_ok h db" "branches_ok db" using ok(1) by (simp_all add: tables_ok_def)
  obtain k where k: "k < length (branch_rows db)" "branch_rows db ! k = b" "branch_name b = branch"
    using getBranch_Some [OF b] by blast
  let ?n = "Suc (length (branch_rows db))"
  have same: "read_row db ident scopeKey branch seq = readRowForBranch ?n db ident scopeKey branch (Some s)"
    using seq b by (auto simp: read_row_def branch_of_def)
  have v: "case readRowForBranch ?n db ident scopeKey branch (Some s) of
       Inl e \<Rightarrow> False
     | Inr None \<Rightarrow> view ?n h db ident scopeKey branch s = Inr None
     | Inr (Some (row, rb)) \<Rightarrow> view ?n h db ident scopeKey branch s = document_at_row h db row
         \<and> row \<in> set (ledger db (rb, ident, scopeKey))
         \<and> (\<forall>x\<in>set (ledger db (rb, ident, scopeKey)). rev_seq x = rev_seq row \<longrightarrow> rev_op_index x \<le> rev_op_index row)"
    using readRowForBranch_view [OF ok(1) k(1), of ?n b s ident scopeKey] k range by auto
  show ?thesis
  proof (cases "readRowForBranch ?n db ident scopeKey branch (Some s)")
    case (Inl x)
    then show ?thesis using v by simp
  next
    case (Inr found)
    show ?thesis
    proof (cases found)
      case None
      then have "r = Inr None" "p' = p" using r Inr by (simp_all add: readStateForScopeKey_def same)
      then show ?thesis using v Inr None ok(2) by (simp add: es_result_def document_view_def)
    next
      case (Some rowrb)
      obtain row rb where rowrb: "rowrb = (row, rb)" by fastforce
      let ?key = "(rb, ident, scopeKey)"
      have row: "view ?n h db ident scopeKey branch s = document_at_row h db row" "row \<in> set (ledger db ?key)"
        "\<forall>x\<in>set (ledger db ?key). rev_seq x = rev_seq row \<longrightarrow> rev_op_index x \<le> rev_op_index row"
        using v Inr Some rowrb by auto
      note row' = ledger_rows [OF row(2)]
      obtain c p1 where c: "cachedDocumentForRevision e (row_cache_key cd ?key row) p = (c, p1)" by fastforce
      have p1: "cache_ok h e cd db p1" using c ok(2) by (rule cache.look_sound)
      show ?thesis
      proof (cases c)
        case (Some x)
        then have "document_at_row h db row = Inr (cached_document x)"
          using found_row [of e cd row p x p1 h db] c ok(2) oks(1) row' by simp
        then show ?thesis using r Inr \<open>found = Some rowrb\<close> rowrb c Some row(1) p1
          by (auto simp: readStateForScopeKey_def same es_result_def document_view_def)
      next
        case None
        obtain d p2 where d: "decode_row h e cd db ?key row p1 = (d, p2)" by fastforce
        note dr = decode_right [OF d row(2,3) p1 oks(1,2)]
        show ?thesis
        proof (cases d)
          case (Inl x)
          then show ?thesis using r Inr \<open>found = Some rowrb\<close> rowrb c None d dr row(1)
            by (auto simp: readStateForScopeKey_def same es_result_def document_view_def)
        next
          case (Inr entry)
          have "cached_right h cd db (row_cache_key cd ?key row) (cached_document entry)"
            unfolding cached_right_def using row' dr Inr by (intro bexI [of _ row]) simp_all
          then have "cache_ok h e cd db (cacheDocumentForRevision e (row_cache_key cd ?key row) entry p2)"
            using dr cache.store_sound by blast
          then show ?thesis using r \<open>readRowForBranch ?n db ident scopeKey branch (Some s) = Inr found\<close> \<open>found = Some rowrb\<close> rowrb c None d dr Inr row(1)
            by (auto simp: readStateForScopeKey_def same es_result_def document_view_def)
        qed
      qed
    qed
  qed
qed

end
