(* ===== verification/DocumentCommit.thy ===== *)
theory DocumentCommit
  imports DocumentHistory
begin

text \<open>
  What writing does to the documents: a commit appends its rows to the ledgers of the documents it
  names, under a number above every one stored, and leaves every earlier state readable as it was.
  Snapshots, heads, branches and the cache keep the invariant through every operation of the store, so
  that it holds in every state an engine reaches.
\<close>

section \<open>One row more\<close>

definition newer :: "doc_tables \<Rightarrow> revision \<Rightarrow> bool" where
  "newer db r \<longleftrightarrow> (\<forall>x\<in>set (revision_rows db). row_pos x < row_pos r)"

definition with_row :: "doc_tables \<Rightarrow> revision \<Rightarrow> doc_tables" where
  "with_row db r = upsertHead (db\<lparr>revision_rows := revision_rows db @ [r]\<rparr>) r"

lemma insort_snoc: "f x < f r \<Longrightarrow> insort_key f x (ys @ [r]) = insort_key f x ys @ [r]"
  by (induction ys) auto

lemma sort_key_snoc: "\<forall>x\<in>set xs. f x < f r \<Longrightarrow> sort_key f (xs @ [r]) = sort_key f xs @ [r]"
  unfolding sort_key_def by (induction xs) (auto simp: insort_snoc)

lemma with_row_fields [simp]:
  "revision_rows (with_row db r) = revision_rows db @ [r]"
  "snapshot_rows (with_row db r) = snapshot_rows db" "branch_rows (with_row db r) = branch_rows db"
  "commit_seqs (with_row db r) = commit_seqs db" "snapshotInterval (with_row db r) = snapshotInterval db"
  "snapshotRetention (with_row db r) = snapshotRetention db"
  by (simp_all add: with_row_def upsertHead_def)

lemma ledger_with_row:
  assumes "newer db r"
  shows "ledger (with_row db r) key = ledger db key @ (if row_key r = key then [r] else [])"
proof (cases "row_key r = key")
  case True
  have "\<forall>x\<in>set (doc_rows db key). row_pos x < row_pos r" using assms True by (simp add: newer_def doc_rows_def)
  then show ?thesis using True sort_key_snoc [of "doc_rows db key" row_pos r] by (simp add: ledger_def doc_rows_def)
qed (simp add: ledger_def doc_rows_def)

text \<open>Only the ledgers and the heads depend on the rows, and old states on the old rows.\<close>

lemma after_with_row:
  assumes "newer db r" "row_key r = key \<Longrightarrow> \<not> P r"
  shows "after h (with_row db r) key P = after h db key P"
  using assms by (simp add: after_def ledger_with_row)

lemma document_at_with_row:
  assumes "newer db r" "x \<in> set (revision_rows db)"
  shows "document_at_row h (with_row db r) x = document_at_row h db x"
  unfolding document_at_row_def
proof (rule after_with_row [OF assms(1)])
  assume "row_key r = row_key x"
  then have "row_pos x < row_pos r" using assms by (auto simp: newer_def)
  then show "\<not> upto (rev_seq x) (rev_op_index x) r" by (auto simp: upto_pos row_pos_def)
qed

lemma cached_right_with_row: "newer db r \<Longrightarrow> cached_right h cd db k v \<Longrightarrow> cached_right h cd (with_row db r) k v"
  unfolding cached_right_def by (force simp: document_at_with_row)

lemma rows_ok_with_row: "rows_ok db \<Longrightarrow> newer db r \<Longrightarrow> rev_op_index r \<le> MAX_SAFE_INTEGER \<Longrightarrow> rows_ok (with_row db r)"
  by (fastforce simp: rows_ok_def newer_def)

lemma heads_ok_with_row:
  assumes "heads_ok db" "newer db r"
  shows "heads_ok (with_row db r)"
  unfolding heads_ok_def
proof (intro conjI allI)
  show "distinct (map fst (head_rows (with_row db r)))"
    using assms(1) by (simp add: with_row_def upsertHead_def heads_ok_def distinct_update)
  fix key
  show "map_of (head_rows (with_row db r)) key =
      map_option (\<lambda>r. (rev_seq r, rev_op_index r, op_name (rev_operation r))) (first_row (rev (ledger (with_row db r) key)))"
    using heads_newest [OF assms(1), of key]
    by (simp add: ledger_with_row [OF assms(2)]) (simp add: with_row_def upsertHead_def update_conv' first_row_def)
qed

lemma snapshots_ok_with_row:
  assumes "snapshots_ok h db" "newer db r" "\<And>key s v. (key, s, v) \<in> set (snapshot_rows db) \<Longrightarrow> s < rev_seq r"
  shows "snapshots_ok h (with_row db r)"
  unfolding snapshots_ok_def
proof (clarify, intro conjI)
  fix b i k s v
  assume snap: "((b, i, k), s, v) \<in> set (snapshot_rows (with_row db r))"
  then have "(\<exists>x\<in>set (doc_rows db (b, i, k)). rev_seq x = s) \<and> after h db (b, i, k) (\<lambda>r. rev_seq r \<le> s) = Inr (Some v)"
    using assms(1) unfolding snapshots_ok_def by fastforce
  moreover have "after h (with_row db r) (b, i, k) (\<lambda>r. rev_seq r \<le> s) = after h db (b, i, k) (\<lambda>r. rev_seq r \<le> s)"
    by (rule after_with_row [OF assms(2)]) (use assms(3) snap in force)
  ultimately show "\<exists>x\<in>set (doc_rows (with_row db r) (b, i, k)). rev_seq x = s"
    "after h (with_row db r) (b, i, k) (\<lambda>r. rev_seq r \<le> s) = Inr (Some v)"
    by (auto simp: doc_rows_def)
qed

section \<open>The operations of a commit\<close>

text \<open>What holds of the tables while a commit numbered \<open>seq\<close> writes: its own rows are the newest.\<close>

definition writing :: "host \<Rightarrow> string \<Rightarrow> nat \<Rightarrow> nat \<Rightarrow> doc_tables \<Rightarrow> bool" where
  "writing h branch seq opIndex db \<longleftrightarrow> rows_ok db \<and> heads_ok db \<and> snapshots_ok h db
     \<and> (\<forall>x\<in>set (revision_rows db). rev_seq x < seq \<or> rev_seq x = seq \<and> rev_op_index x < opIndex)
     \<and> (\<forall>(key, s, v)\<in>set (snapshot_rows db). s < seq)"

lemma writeOperation_row:
  assumes "writeOperation db meta branch seq opIndex op who override = Inr (db', r)"
    and "writing h branch seq opIndex db" "opIndex \<le> MAX_SAFE_INTEGER"
  shows "db' = with_row db r" "newer db r" "rev_op_index r \<le> MAX_SAFE_INTEGER" "rev_branch r = branch" "rev_seq r = seq" "rev_op_index r = opIndex"
    "writing h branch seq (Suc opIndex) db'"
proof -
  obtain k where k: "(case override of Some k \<Rightarrow> Inr k
            | None \<Rightarrow> (case resolveScopeKey (dop_scope op) who of Inl e \<Rightarrow> Inl (ScopeUnresolved e) | Inr k \<Rightarrow> Inr k)) = Inr k"
    and r: "r = \<lparr>rev_branch = branch, rev_id = dop_id op, rev_scope_key = k, rev_seq = seq, rev_op_index = opIndex,
                rev_operation = dop_body op, rev_commit_seq = seq, rev_session = cm_session meta,
                rev_local_seq = cm_local_seq meta, rev_class = cm_class meta, rev_holder = cm_holder meta\<rparr>"
    and db': "db' = with_row db r"
    using assms(1) unfolding writeOperation_def Let_def
    by (auto simp: result_simps insertRevision_def with_row_def split: if_splits)
  show "db' = with_row db r" by (rule db')
  show row: "rev_op_index r \<le> MAX_SAFE_INTEGER" using assms(3) by (simp add: r)
  show f: "rev_branch r = branch" "rev_seq r = seq" "rev_op_index r = opIndex" by (simp_all add: r)
  show n: "newer db r" using assms(2) f by (auto simp: writing_def newer_def row_pos_def)
  show "writing h branch seq (Suc opIndex) db'"
    using assms(2) rows_ok_with_row [OF _ n row] heads_ok_with_row [OF _ n] snapshots_ok_with_row [OF _ n] f
    unfolding writing_def db' by (fastforce simp: less_Suc_eq)
qed

lemma write_operations_rows:
  assumes "write_operations db meta branch seq who keys elided opIndex operations = Inr (db', rows)"
    and "writing h branch seq opIndex db" "opIndex + length operations \<le> MAX_SAFE_INTEGER"
  shows "writing h branch seq (opIndex + length operations) db'
    \<and> (\<forall>key. ledger db' key = ledger db key @ filter (\<lambda>r. row_key r = key) rows)
    \<and> revision_rows db' = revision_rows db @ rows
    \<and> list_all (\<lambda>r. rev_branch r = branch \<and> rev_seq r = seq) rows
    \<and> (\<forall>k v. cached_right h cd db k v \<longrightarrow> cached_right h cd db' k v)
    \<and> snapshot_rows db' = snapshot_rows db \<and> branch_rows db' = branch_rows db \<and> commit_seqs db' = commit_seqs db
    \<and> snapshotInterval db' = snapshotInterval db \<and> snapshotRetention db' = snapshotRetention db"
  using assms
proof (induction operations arbitrary: opIndex db rows)
  case Nil
  then show ?case by simp
next
  case (Cons op operations)
  show ?case
  proof (cases "opIndex \<in> set elided")
    case True
    have "writing h branch seq (Suc opIndex) db" using Cons.prems(2) unfolding writing_def by (fastforce simp: less_Suc_eq)
    then show ?thesis using Cons.IH [of db "Suc opIndex" rows] Cons.prems(1,3) True by simp
  next
    case False
    then obtain db1 r rows' where w: "writeOperation db meta branch seq opIndex op who (keys opIndex) = Inr (db1, r)"
      "write_operations db1 meta branch seq who keys elided (Suc opIndex) operations = Inr (db', rows')" "rows = r # rows'"
      using Cons.prems(1) by (auto simp: result_simps)
    note one = writeOperation_row [OF w(1) Cons.prems(2)]
    have i: "opIndex \<le> MAX_SAFE_INTEGER" using Cons.prems(3) by simp
    note rest = Cons.IH [OF w(2) one(7) [OF i]]
    have "Suc opIndex + length operations \<le> MAX_SAFE_INTEGER" using Cons.prems(3) by simp
    from rest [OF this] show ?thesis
      using one(1-6) [OF i] w(3) ledger_with_row [OF one(2) [OF i]] cached_right_with_row [OF one(2) [OF i]] by auto
  qed
qed

section \<open>What reading leaves of a cache\<close>

text \<open>Reading keeps an engine in or out of a transaction, and in one it adds to what is staged alone.\<close>

definition keeps :: "nat \<Rightarrow> process \<Rightarrow> process \<Rightarrow> bool" where
  "keeps i p q \<longleftrightarrow> inTransaction (engine_caches q i) = inTransaction (engine_caches p i)
     \<and> (stagedDocumentCache (engine_caches q i) = None \<longleftrightarrow> stagedDocumentCache (engine_caches p i) = None)
     \<and> (stagedDocumentCache (engine_caches p i) \<noteq> None \<longrightarrow>
          set (documentCache (engine_caches q i)) \<subseteq> set (documentCache (engine_caches p i)))"

lemma keeps_refl [simp]: "keeps i p p"
  by (simp add: keeps_def)

lemma keeps_trans: "keeps i p q \<Longrightarrow> keeps i q r \<Longrightarrow> keeps i p r"
  by (auto simp: keeps_def)

lemma keeps_shrinks: "shrinks p q \<Longrightarrow> keeps i p q"
  by (simp add: keeps_def shrinks_def)

lemma keeps_look: "cachedDocumentForRevision i k p = (r, q) \<Longrightarrow> keeps i p q"
  using look_shrinks keeps_shrinks by blast

lemma keeps_store: "keeps i p (cacheDocumentForRevision i k e p)"
proof (cases "stagedDocumentCache (engine_caches p i)")
  case None
  let ?q = "make_room i (max (weight e) 1) p"
  have q: "shrinks p ?q" by (rule drops_shrinks, rule make_room_drops)
  have set: "keeps i p (set_cache i ((engine_caches ?q i)\<lparr>documentCache := xs, documentCacheBytes := b\<rparr>) ?q)" for xs b
    using q None by (simp add: keeps_def shrinks_def)
  have "keeps i p (admitted i w (set_cache i ((engine_caches ?q i)\<lparr>documentCache := xs, documentCacheBytes := b\<rparr>) ?q))" for w xs b
    using set keeps_shrinks [OF admitted_shrinks] keeps_trans by blast
  then show ?thesis using set None by (simp add: cacheDocumentForRevision_def Let_def)
next
  case (Some staged)
  then show ?thesis by (simp add: cacheDocumentForRevision_def Let_def keeps_def)
qed

lemma keeps_resume: "resume i cd key rows p = (r, q) \<Longrightarrow> keeps i p q"
proof (induction rows arbitrary: p)
  case (Cons x rows)
  obtain c p1 where c: "cachedDocumentForRevision i (row_cache_key cd key x) p = (c, p1)" by fastforce
  have "q = p1 \<or> resume i cd key rows p1 = (r, q)" using Cons.prems c by (simp split: option.splits)
  then have "keeps i p1 q" using Cons.IH [of p1] by auto
  then show ?case by (rule keeps_trans [OF keeps_look [OF c]])
qed simp

lemma keeps_snapshotted: "cachedSnapshottedRevision i cd db key s p = (r, q) \<Longrightarrow> keeps i p q"
  by (auto simp: cachedSnapshottedRevision_def dest: keeps_look split: option.splits if_splits prod.splits)

lemma keeps_starting: "starting_document i cd db key baseRow snapshotRow bs p = (r, q) \<Longrightarrow> keeps i p q"
proof -
  assume r: "starting_document i cd db key baseRow snapshotRow bs p = (r, q)"
  obtain c1 p1 where c1: "cachedSnapshottedRevision i cd db key bs p = (c1, p1)" by fastforce
  obtain c2 p2 where c2: "cachedDocumentForRevision i (row_cache_key cd key (the baseRow)) p = (c2, p2)" by fastforce
  have "q = p \<or> q = p1 \<or> q = p2"
    using r c1 c2 by (simp add: starting_document_def Let_def split: option.splits if_splits rev_op.splits prod.splits) 
  then show ?thesis using keeps_snapshotted [OF c1] keeps_look [OF c2] by auto
qed

lemma keeps_reconstruct: "reconstructPatchedDocument h i cd db key s k exact p = (r, q) \<Longrightarrow> keeps i p q"
proof -
  assume r: "reconstructPatchedDocument h i cd db key s k exact p = (r, q)"
  obtain baseRow snapshotRow where base: "latestBaseAndSnapshot db key s k exact = (baseRow, snapshotRow)" by fastforce
  obtain bs bo where start: "replay_start baseRow snapshotRow = (bs, bo)" by fastforce
  obtain res p1 where res: "resume i cd key (rev (selectPatches db key bs bo s k)) p = (res, p1)" by fastforce
  obtain d w p2 where st: "starting_document i cd db key baseRow snapshotRow bs p1 = ((d, w), p2)"
    by (cases "starting_document i cd db key baseRow snapshotRow bs p1") auto
  have "q = p1 \<or> q = p2"
    using r base start res st by (auto simp: reconstructPatchedDocument_def Let_def split: option.splits)
  then show ?thesis using keeps_resume [OF res] keeps_starting [OF st] keeps_trans by blast
qed

lemma keeps_decode: "decode_row h i cd db key row p = (r, q) \<Longrightarrow> keeps i p q"
  by (auto simp: decode_row_def dest: keeps_reconstruct split: rev_op.splits prod.splits)

lemma keeps_read: "readStateForScopeKey h i cd db ident scope scopeKey branch s p = (r, q) \<Longrightarrow> keeps i p q"
proof -
  assume r: "readStateForScopeKey h i cd db ident scope scopeKey branch s p = (r, q)"
  show ?thesis
  proof (cases "\<exists>row rb. read_row db ident scopeKey branch s = Inr (Some (row, rb))")
    case False
    then show ?thesis using r by (auto simp: readStateForScopeKey_def Let_def split: sum.splits option.splits)
  next
    case True
    then obtain row rb where row: "read_row db ident scopeKey branch s = Inr (Some (row, rb))" by blast
    obtain c p1 where c: "cachedDocumentForRevision i (row_cache_key cd (rb, ident, scopeKey) row) p = (c, p1)" by fastforce
    obtain d p2 where d: "decode_row h i cd db (rb, ident, scopeKey) row p1 = (d, p2)" by fastforce
    have "keeps i p p1" "keeps i p1 p2" using keeps_look [OF c] keeps_decode [OF d] .
    then have "keeps i p p2" by (rule keeps_trans)
    then have "keeps i p (cacheDocumentForRevision i k e p2)" for k e using keeps_store by (rule keeps_trans)
    moreover have "q = p1 \<or> q = p2 \<or> (\<exists>k e. q = cacheDocumentForRevision i k e p2)"
      using r row c d by (auto simp: readStateForScopeKey_def Let_def split: option.splits sum.splits)
    ultimately show ?thesis using \<open>keeps i p p1\<close> \<open>keeps i p p2\<close> by auto
  qed
qed

lemma keeps_maybe: "maybeMaterializeSnapshot h i cd db branch ident k p = (r, q) \<Longrightarrow> keeps i p q"
  by (auto simp: maybeMaterializeSnapshot_def Let_def dest: keeps_read split: prod.splits sum.splits option.splits if_splits)

lemma keeps_loop: "materialize_loop h i cd branch seen rows db p = (r, q) \<Longrightarrow> keeps i p q"
proof (induction rows arbitrary: seen db p)
  case (Cons x rows)
  let ?key = "revisionKey branch (rev_id x) (rev_scope_key x)"
  obtain m p1 where m: "maybeMaterializeSnapshot h i cd db branch (rev_id x) (rev_scope_key x) p = (m, p1)" by fastforce
  consider "?key \<in> set seen" | e where "?key \<notin> set seen" "m = Inl e" | db' where "?key \<notin> set seen" "m = Inr db'"
    by (cases m) auto
  then show ?case
  proof cases
    case 1
    then show ?thesis using Cons.prems Cons.IH by simp
  next
    case 2
    then show ?thesis using Cons.prems m keeps_maybe [OF m] by simp
  next
    case 3
    then have "materialize_loop h i cd branch (?key # seen) rows db' p1 = (r, q)" using Cons.prems m by simp
    then show ?thesis using Cons.IH keeps_trans [OF keeps_maybe [OF m]] by blast
  qed
qed simp

lemma keeps_commit: "commit_operations h i cd meta branch who keys elided operations db p = (r, q) \<Longrightarrow> keeps i p q"
  by (auto simp: commit_operations_def materializeSnapshots_def Let_def dest: keeps_loop split: sum.splits if_splits prod.splits)

section \<open>Snapshots keep the documents\<close>

lemma same_rows:
  assumes "revision_rows db' = revision_rows db"
  shows "ledger db' = ledger db" "doc_rows db' = doc_rows db" "after h db' = after h db" "document_at_row h db' = document_at_row h db"
    "cached_right h cd db' = cached_right h cd db" "rows_ok db' = rows_ok db"
proof -
  show l: "ledger db' = ledger db" "doc_rows db' = doc_rows db" by (auto simp: ledger_def doc_rows_def fun_eq_iff assms)
  show a: "after h db' = after h db" by (auto simp: after_def fun_eq_iff l)
  show d: "document_at_row h db' = document_at_row h db" by (auto simp: document_at_row_def fun_eq_iff a)
  show "cached_right h cd db' = cached_right h cd db" by (auto simp: cached_right_def fun_eq_iff d assms)
  show "rows_ok db' = rows_ok db" by (simp add: rows_ok_def assms)
qed

lemma tables_ok_snapshots:
  assumes "tables_ok h db" "\<forall>(key, s, v)\<in>set ss. (key, s, v) \<in> set (snapshot_rows db)
      \<or> (\<exists>r\<in>set (doc_rows db key). rev_seq r = s) \<and> after h db key (\<lambda>r. rev_seq r \<le> s) = Inr (Some v)"
  shows "tables_ok h (db\<lparr>snapshot_rows := ss\<rparr>)"
proof -
  let ?db = "db\<lparr>snapshot_rows := ss\<rparr>"
  note same = same_rows [where db' = ?db and db = db, simplified]
  have "snapshots_ok h ?db"
    using assms unfolding tables_ok_def snapshots_ok_def same by (fastforce simp: same)
  moreover have "heads_ok ?db = heads_ok db" by (simp add: heads_ok_def same)
  moreover have "branches_ok ?db = branches_ok db" "numbers_ok ?db = numbers_ok db"
    by (simp_all add: branches_ok_def numbers_ok_def selectNextSeq_def)
  ultimately show ?thesis using assms(1) by (simp add: tables_ok_def same)
qed

end
