(* ===== verification/DocumentEngine.thy ===== *)
theory DocumentEngine
  imports DocumentCommit
begin

text \<open>
  An engine over time. Snapshots a commit materializes are of the documents they are named after, the
  whole transaction keeps the invariant of the tables and of the cache, and so it holds in every state
  reached by reads, commits, branches made and deleted, and rows dropped from the cache.
\<close>

section \<open>Snapshots of a commit\<close>

lemma local_ledger_bounded:
  assumes "branches_ok db" "getBranch db branch = Some b" "r \<in> set (ledger db (branch, ident, k))"
  shows "createdSeq b < rev_seq r \<and> rev_seq r \<le> headSeq b"
proof -
  have r: "r \<in> set (revision_rows db)" "rev_branch r = branch" using assms(3) by (auto simp: in_ledger row_key_def)
  then obtain b' where b': "b' \<in> set (branch_rows db)" "branch_name b' = branch" "createdSeq b' < rev_seq r" "rev_seq r \<le> headSeq b'"
    using assms(1) unfolding branches_ok_def by blast
  then have "getBranch db branch = Some b'" using getBranch_nth assms(1) unfolding branches_ok_def by (metis in_set_conv_nth)
  then show ?thesis using b' assms(2) by simp
qed

lemma branch_range:
  assumes "branches_ok db" "getBranch db branch = Some b"
  shows "createdSeq b \<le> headSeq b"
proof -
  obtain k where "k < length (branch_rows db)" "branch_rows db ! k = b" using getBranch_Some [OF assms(2)] by blast
  then show ?thesis using assms(1) unfolding branches_ok_def Let_def by blast
qed

text \<open>A document with rows of its own on a branch is read from the last of them at the branch's head.\<close>

lemma read_row_local:
  assumes "tables_ok h db" "getBranch db branch = Some b" "ledger db (branch, ident, k) \<noteq> []"
  shows "read_row db ident k branch None = Inr (Some (last (ledger db (branch, ident, k)), branch))"
proof -
  have ok: "branches_ok db" using assms(1) by (simp add: tables_ok_def)
  have all: "filter (\<lambda>r. rev_seq r \<le> headSeq b) (ledger db (branch, ident, k)) = ledger db (branch, ident, k)"
    using local_ledger_bounded [OF ok assms(2)] by (simp add: filter_id_conv)
  have "selectCurrentLocal db (branch, ident, k) = Some (last (ledger db (branch, ident, k)))"
    using local_row [OF assms(1,2) order.refl, of ident k] all assms(3) by (simp add: first_row_rev)
  then show ?thesis using branch_range [OF ok assms(2)] assms(2) by (simp add: read_row_def branch_of_def Let_def)
qed

lemma view_local:
  assumes "branches_ok db" "getBranch db branch = Some b" "ledger db (branch, ident, k) \<noteq> []"
  shows "document_view h db ident k branch (headSeq b)
    = after h db (branch, ident, k) (\<lambda>r. rev_seq r \<le> rev_seq (last (ledger db (branch, ident, k))))"
proof -
  let ?L = "ledger db (branch, ident, k)"
  have all: "filter (\<lambda>r. rev_seq r \<le> headSeq b) ?L = ?L"
    using local_ledger_bounded [OF assms(1,2)] by (simp add: filter_id_conv)
  have "rev_seq r \<le> rev_seq (last ?L)" if "r \<in> set ?L" for r
  proof -
    have "sorted (map row_pos ?L)" by (simp add: ledger_def)
    moreover have "\<forall>x\<in>set xs. x \<le> last xs" if "sorted xs" for xs :: "(nat \<times> nat) list"
      using that by (induction xs) auto
    ultimately have "row_pos r \<le> last (map row_pos ?L)" using \<open>r \<in> set ?L\<close> by fastforce
    then show ?thesis using assms(3) by (auto simp: last_map row_pos_def)
  qed
  then have "filter (\<lambda>r. rev_seq r \<le> rev_seq (last ?L)) ?L = ?L" by (simp add: filter_id_conv)
  then show ?thesis using assms(2,3) all by (simp add: document_view_def after_def Let_def)
qed

lemma read_state_row:
  assumes "readStateForScopeKey h i cd db ident scope k branch seq p = (Inr (Some state), p')"
    and "read_row db ident k branch seq = Inr (Some (row, rb))"
  shows "es_seq state = rev_seq row \<and> es_op state = rev_operation row"
  using assms by (auto simp: readStateForScopeKey_def Let_def split: prod.splits option.splits sum.splits)

text \<open>What of the tables a materialization changes, and what it leaves.\<close>

definition snapshots_only :: "host \<Rightarrow> doc_tables \<Rightarrow> doc_tables \<Rightarrow> bool" where
  "snapshots_only h db db' \<longleftrightarrow> tables_ok h db' \<and> (\<exists>ss. db' = db\<lparr>snapshot_rows := ss\<rparr>)"

lemma maybe_materialize_right:
  assumes ok: "tables_ok h db" "cache_ok h i cd db p" and b: "getBranch db branch = Some b"
    and own: "ledger db (branch, ident, k) \<noteq> []"
    and m: "maybeMaterializeSnapshot h i cd db branch ident k p = (r, p')"
  shows "cache_ok h i cd db p' \<and> (\<forall>db'. r = Inr db' \<longrightarrow> snapshots_only h db db')"
proof -
  let ?key = "(branch, ident, k)"
  let ?last = "last (ledger db ?key)"
  have oks: "branches_ok db" using ok(1) by (simp add: tables_ok_def)
  obtain c p1 where c: "readStateForScopeKey h i cd db ident None k branch None p = (c, p1)" by fastforce
  have range: "(if branch = DEFAULT_BRANCH then 0 else createdSeq b) \<le> headSeq b" using branch_range [OF oks b] by simp
  have read: "es_result c = document_view h db ident k branch (headSeq b) \<and> cache_ok h i cd db p1"
    by (rule readStateForScopeKey_right [OF ok b range _ _ c]) simp_all
  have same: "snapshots_only h db db" unfolding snapshots_only_def using ok(1) by (intro conjI exI [of _ "snapshot_rows db"]) simp_all
  show ?thesis
  proof (cases "\<exists>state v. c = Inr (Some state) \<and> es_document state = Some v")
    case False
    then have "p' = p1 \<and> (r = Inr db \<or> (\<exists>e. r = Inl e))"
      using m c by (auto simp: maybeMaterializeSnapshot_def Let_def split: sum.splits option.splits if_splits)
    then show ?thesis using same read by auto
  next
    case True
    then obtain state v where st: "c = Inr (Some state)" "es_document state = Some v" by blast
    have seq: "es_seq state = rev_seq ?last"
      using read_state_row c st(1) read_row_local [OF ok(1) b own] by blast
    have doc: "after h db ?key (\<lambda>r. rev_seq r \<le> es_seq state) = Inr (Some v)"
      using read st view_local [OF oks b own] by (simp add: es_result_def seq)
    have row: "?last \<in> set (doc_rows db ?key)" using own by (metis ledger_def last_in_set set_sort)
    let ?db = "compactSnapshots (insertSnapshot db ?key (es_seq state) v) ?key"
    obtain ss where ss: "?db = db\<lparr>snapshot_rows := ss\<rparr>" "set ss \<subseteq> insert (?key, es_seq state, v) (set (snapshot_rows db))"
      by (rule that [of "snapshot_rows ?db"])
        (auto simp: compactSnapshots_def insertSnapshot_def deleteOldSnapshots_def Let_def)
    have "\<forall>(key, s, v)\<in>set ss. (key, s, v) \<in> set (snapshot_rows db)
      \<or> (\<exists>r\<in>set (doc_rows db key). rev_seq r = s) \<and> after h db key (\<lambda>r. rev_seq r \<le> s) = Inr (Some v)"
    proof (intro ballI, rule case_prodI2)
      fix x key sv assume "x \<in> set ss" "x = (key, sv)"
      then show "case sv of (s, v) \<Rightarrow> (key, s, v) \<in> set (snapshot_rows db)
        \<or> (\<exists>r\<in>set (doc_rows db key). rev_seq r = s) \<and> after h db key (\<lambda>r. rev_seq r \<le> s) = Inr (Some v)"
        using ss(2) doc row seq by (cases sv) auto
    qed
    then have "tables_ok h ?db" unfolding ss(1) by (rule tables_ok_snapshots [OF ok(1)])
    then have new: "snapshots_only h db ?db" unfolding snapshots_only_def using ss(1) by blast
    have "p' = p1 \<and> (r = Inr db \<or> r = Inr ?db)"
      using m c st by (auto simp: maybeMaterializeSnapshot_def Let_def split: if_splits)
    then show ?thesis using same new read by auto
  qed
qed


lemma snapshots_only_same:
  assumes "snapshots_only h db db'"
  shows "tables_ok h db'" "cached_right h cd db' = cached_right h cd db" "ledger db' = ledger db" "revision_rows db' = revision_rows db"
    "branch_rows db' = branch_rows db" "getBranch db' = getBranch db" "commit_seqs db' = commit_seqs db"
    "snapshotInterval db' = snapshotInterval db"
proof -
  obtain ss where ss: "db' = db\<lparr>snapshot_rows := ss\<rparr>" and ok: "tables_ok h db'" using assms by (auto simp: snapshots_only_def)
  show "tables_ok h db'" by (rule ok)
  show r: "revision_rows db' = revision_rows db" "branch_rows db' = branch_rows db" "commit_seqs db' = commit_seqs db"
    "snapshotInterval db' = snapshotInterval db" by (simp_all add: ss)
  show "cached_right h cd db' = cached_right h cd db" "ledger db' = ledger db" using same_rows [OF r(1)] by auto
  show "getBranch db' = getBranch db" by (simp add: getBranch_def fun_eq_iff ss)
qed

lemma snapshots_only_trans: "snapshots_only h db db' \<Longrightarrow> snapshots_only h db' db'' \<Longrightarrow> snapshots_only h db db''"
  by (auto simp: snapshots_only_def)

lemma materialize_loop_right:
  assumes "tables_ok h db" "cache_ok h i cd db p" "getBranch db branch = Some b"
    and "\<forall>r\<in>set rows. ledger db (branch, rev_id r, rev_scope_key r) \<noteq> []"
    and "materialize_loop h i cd branch seen rows db p = (r, p')"
  shows "cache_ok h i cd db p' \<and> (\<forall>db'. r = Inr db' \<longrightarrow> snapshots_only h db db')"
  using assms
proof (induction rows arbitrary: seen db p)
  case Nil
  then show ?case by (auto simp: snapshots_only_def intro!: exI [of _ "snapshot_rows db"])
next
  case (Cons x rows)
  let ?key = "revisionKey branch (rev_id x) (rev_scope_key x)"
  obtain m p1 where m: "maybeMaterializeSnapshot h i cd db branch (rev_id x) (rev_scope_key x) p = (m, p1)" by fastforce
  have own: "ledger db (branch, rev_id x, rev_scope_key x) \<noteq> []" using Cons.prems(4) by simp
  note one = maybe_materialize_right [OF Cons.prems(1-3) own m]
  consider "?key \<in> set seen" | e where "?key \<notin> set seen" "m = Inl e" | db1 where "?key \<notin> set seen" "m = Inr db1"
    by (cases m) auto
  then show ?case
  proof cases
    case 1
    then have l: "materialize_loop h i cd branch seen rows db p = (r, p')" using Cons.prems(5) by simp
    show ?thesis by (rule Cons.IH [OF Cons.prems(1-3) _ l]) (use Cons.prems(4) in simp)
  next
    case 2
    then show ?thesis using Cons.prems(5) m one by simp
  next
    case 3
    then have l: "materialize_loop h i cd branch (?key # seen) rows db1 p1 = (r, p')" using Cons.prems(5) m by simp
    have s: "snapshots_only h db db1" using one 3 by simp
    note same = snapshots_only_same [OF s]
    have "cache_ok h i cd db1 p' \<and> (\<forall>db'. r = Inr db' \<longrightarrow> snapshots_only h db1 db')"
      by (rule Cons.IH [OF _ _ _ _ l]) (use Cons.prems(3,4) one same in simp_all)
    then show ?thesis using same snapshots_only_trans [OF s] by auto
  qed
qed

section \<open>The tables after a commit's writes\<close>

lemma next_seq:
  "selectNextSeq (db\<lparr>commit_seqs := commit_seqs db @ [selectNextSeq db]\<rparr>) = Suc (selectNextSeq db)"
proof (cases "commit_seqs db = []")
  case False
  then have "Max (insert (selectNextSeq db) (set (commit_seqs db))) = selectNextSeq db"
    by (simp add: selectNextSeq_def)
  then show ?thesis by (simp add: selectNextSeq_def)
qed (simp add: selectNextSeq_def)

lemma rows_below_next: "tables_ok h db \<Longrightarrow> r \<in> set (revision_rows db) \<Longrightarrow> rev_seq r < selectNextSeq db"
  unfolding tables_ok_def branches_ok_def numbers_ok_def by fastforce

lemma writing_starts:
  assumes "tables_ok h db"
  shows "writing h branch (selectNextSeq db) 0 (db\<lparr>commit_seqs := cs\<rparr>)"
proof -
  let ?db = "db\<lparr>commit_seqs := cs\<rparr>"
  note same = same_rows [where db' = ?db and db = db, simplified]
  have ok: "rows_ok db" "heads_ok db" "snapshots_ok h db" using assms by (simp_all add: tables_ok_def)
  have "heads_ok ?db" "snapshots_ok h ?db" using ok(2,3) by (simp_all add: heads_ok_def snapshots_ok_def same)
  moreover have "\<forall>(key, s, v)\<in>set (snapshot_rows db). s < selectNextSeq db"
    using ok(3) rows_below_next [OF assms] unfolding snapshots_ok_def by (fastforce simp: doc_rows_def)
  ultimately show ?thesis using ok(1) rows_below_next [OF assms] by (auto simp: writing_def same)
qed

text \<open>A change of branch rows that keeps names and forks and lowers no head keeps them in order.\<close>

definition raises :: "(branch_row \<Rightarrow> branch_row) \<Rightarrow> bool" where
  "raises f \<longleftrightarrow> (\<forall>b. branch_name (f b) = branch_name b \<and> parentBranch (f b) = parentBranch b \<and> forkSeq (f b) = forkSeq b
     \<and> createdSeq (f b) = createdSeq b \<and> headSeq b \<le> headSeq (f b))"

definition branch_in_order :: "branch_row list \<Rightarrow> nat \<Rightarrow> bool" where
  "branch_in_order bs k \<longleftrightarrow> createdSeq (bs ! k) \<le> headSeq (bs ! k)
     \<and> (branch_name (bs ! k) = DEFAULT_BRANCH \<longrightarrow> parentBranch (bs ! k) = None)
     \<and> (\<forall>q. parentBranch (bs ! k) = Some q \<longrightarrow> forkSeq (bs ! k) = Some (createdSeq (bs ! k))
          \<and> (\<exists>j<k. branch_name (bs ! j) = q \<and> createdSeq (bs ! j) \<le> createdSeq (bs ! k) \<and> createdSeq (bs ! k) \<le> headSeq (bs ! j)))"

definition row_in_branch :: "branch_row list \<Rightarrow> revision \<Rightarrow> bool" where
  "row_in_branch bs r \<longleftrightarrow> (\<exists>b\<in>set bs. branch_name b = rev_branch r \<and> createdSeq b < rev_seq r \<and> rev_seq r \<le> headSeq b)"

lemma branches_ok_iff:
  "branches_ok db \<longleftrightarrow> distinct (map branch_name (branch_rows db)) \<and> (\<forall>k<length (branch_rows db). branch_in_order (branch_rows db) k)
     \<and> (\<forall>r\<in>set (revision_rows db). row_in_branch (branch_rows db) r)"
  unfolding branches_ok_def branch_in_order_def row_in_branch_def Let_def ..

lemma branch_in_order_raised:
  assumes "raises f" "k < length bs" "branch_in_order bs k"
  shows "branch_in_order (map f bs) k"
proof -
  have at: "map f bs ! j = f (bs ! j)" if "j \<le> k" for j using that assms(2) by simp
  have f: "branch_name (f x) = branch_name x" "parentBranch (f x) = parentBranch x" "forkSeq (f x) = forkSeq x"
    "createdSeq (f x) = createdSeq x" "headSeq x \<le> headSeq (f x)" for x using assms(1) by (simp_all add: raises_def)
  show ?thesis
    unfolding branch_in_order_def at [OF order.refl] f
  proof (intro conjI allI impI)
    fix q assume "parentBranch (bs ! k) = Some q"
    then obtain j where "j < k" "branch_name (bs ! j) = q" "createdSeq (bs ! j) \<le> createdSeq (bs ! k)" "createdSeq (bs ! k) \<le> headSeq (bs ! j)"
      using assms(3) unfolding branch_in_order_def by blast
    then show "\<exists>j<k. branch_name (map f bs ! j) = q \<and> createdSeq (map f bs ! j) \<le> createdSeq (bs ! k) \<and> createdSeq (bs ! k) \<le> headSeq (map f bs ! j)"
      using order.trans [OF _ f(5) [of "bs ! j"]] by (intro exI [of _ j]) (simp add: at f)
  qed (use assms(3) f(5) order.trans in \<open>unfold branch_in_order_def, blast\<close>)+
qed

lemma row_in_branch_raised: "raises f \<Longrightarrow> row_in_branch bs r \<Longrightarrow> row_in_branch (map f bs) r"
  unfolding row_in_branch_def raises_def by (fastforce intro: order.trans)

lemma branches_ok_raised:
  assumes "raises f" "branches_ok db" "branch_rows db' = map f (branch_rows db)"
    and "\<forall>r\<in>set (revision_rows db'). r \<in> set (revision_rows db) \<or> row_in_branch (branch_rows db') r"
  shows "branches_ok db'"
proof -
  have names: "map branch_name (map f (branch_rows db)) = map branch_name (branch_rows db)" using assms(1) by (simp add: raises_def)
  show ?thesis unfolding branches_ok_iff assms(3) names
    using assms branch_in_order_raised row_in_branch_raised by (auto simp: branches_ok_iff)
qed

lemma commit_tables:
  assumes ok: "tables_ok h db" and b: "getBranch db branch = Some b"
    and fits: "length operations \<le> MAX_SAFE_INTEGER"
    and w: "write_operations (db\<lparr>commit_seqs := commit_seqs db @ [selectNextSeq db]\<rparr>) meta branch (selectNextSeq db) who keys elided 0
      operations = Inr (db2, rows)"
  shows "tables_ok h (updateBranchHead db2 branch (selectNextSeq db))"
proof -
  let ?seq = "selectNextSeq db" and ?db1 = "db\<lparr>commit_seqs := commit_seqs db @ [selectNextSeq db]\<rparr>"
  let ?db = "updateBranchHead db2 branch ?seq"
  let ?up = "\<lambda>b. if branch_name b = branch then b\<lparr>headSeq := if headSeq b < ?seq then ?seq else headSeq b\<rparr> else b"
  have f: "0 + length operations \<le> MAX_SAFE_INTEGER" using fits by simp
  note wrote = write_operations_rows [OF w writing_starts [OF ok] f, where cd = undefined]
  have oks: "branches_ok db" "numbers_ok db" using ok by (simp_all add: tables_ok_def)
  have fields: "revision_rows ?db = revision_rows db @ rows" "branch_rows ?db = map ?up (branch_rows db)"
    "commit_seqs ?db = commit_seqs db @ [?seq]" using wrote by (simp_all add: updateBranchHead_def)
  have "revision_rows ?db = revision_rows db2" by (simp add: updateBranchHead_def)
  note same = same_rows [OF this]
  have store: "rows_ok ?db" "heads_ok ?db" "snapshots_ok h ?db"
    using wrote by (simp_all add: writing_def same heads_ok_def snapshots_ok_def) (simp_all add: updateBranchHead_def)
  have new: "row_in_branch (branch_rows ?db) r" if "r \<in> set rows" for r
  proof -
    have b': "b \<in> set (branch_rows db)" "branch_name b = branch" using getBranch_Some [OF b] by auto
    have "rev_branch r = branch" "rev_seq r = ?seq" using wrote that by (auto simp: list_all_iff)
    moreover have "createdSeq b < ?seq" "headSeq b < ?seq" using branch_range [OF oks(1) b] oks(2) b'(1) by (auto simp: numbers_ok_def)
    ultimately show ?thesis unfolding row_in_branch_def fields using b' by (intro bexI [of _ "?up b"]) auto
  qed
  have "raises ?up" by (simp add: raises_def)
  then have "branches_ok ?db" using oks(1) fields(2)
    by (rule branches_ok_raised) (use new fields(1) in auto)
  moreover have "selectNextSeq ?db = Suc ?seq" using fields(3) next_seq [of db] by (simp add: selectNextSeq_def)
  then have "numbers_ok ?db" using oks(2) by (auto simp: numbers_ok_def fields less_Suc_eq)
  ultimately show ?thesis using store by (simp add: tables_ok_def)
qed


text \<open>What a commit that wrote \<open>rows\<close> has made of the tables.\<close>

definition committed :: "host \<Rightarrow> doc_tables \<Rightarrow> string \<Rightarrow> revision list \<Rightarrow> doc_tables \<Rightarrow> bool" where
  "committed h db branch rows db' \<longleftrightarrow> tables_ok h db'
     \<and> (\<forall>key. ledger db' key = ledger db key @ filter (\<lambda>r. row_key r = key) rows)
     \<and> list_all (\<lambda>r. rev_branch r = branch \<and> rev_seq r = selectNextSeq db) rows
     \<and> commit_seqs db' = commit_seqs db @ [selectNextSeq db]
     \<and> branch_rows db' = branch_rows (updateBranchHead db branch (selectNextSeq db))
     \<and> (\<forall>cd k v. cached_right h cd db k v \<longrightarrow> cached_right h cd db' k v)"

text \<open>What the writes of a commit leave for the materialization of snapshots.\<close>

lemma commit_written:
  assumes ok: "tables_ok h db" and fits: "length operations \<le> MAX_SAFE_INTEGER" and b: "getBranch db branch = Some b"
    and w: "write_operations (db\<lparr>commit_seqs := commit_seqs db @ [selectNextSeq db]\<rparr>) meta branch (selectNextSeq db) who keys
      elided 0 operations = Inr (db2, rows)"
  shows "tables_ok h (updateBranchHead db2 branch (selectNextSeq db))"
    and "cached_right h cd db k v \<Longrightarrow> cached_right h cd (updateBranchHead db2 branch (selectNextSeq db)) k v"
    and "\<exists>b3. getBranch (updateBranchHead db2 branch (selectNextSeq db)) branch = Some b3"
    and "ledger (updateBranchHead db2 branch (selectNextSeq db)) key = ledger db key @ filter (\<lambda>r. row_key r = key) rows"
    and "\<forall>r\<in>set rows. ledger (updateBranchHead db2 branch (selectNextSeq db)) (branch, rev_id r, rev_scope_key r) \<noteq> []"
proof -
  let ?seq = "selectNextSeq db"
  let ?db1 = "db\<lparr>commit_seqs := commit_seqs db @ [?seq]\<rparr>"
  let ?db3 = "updateBranchHead db2 branch ?seq"
  have f: "0 + length operations \<le> MAX_SAFE_INTEGER" using fits by simp
  note wrote = write_operations_rows [OF w writing_starts [OF ok] f, where cd = cd]
  show "tables_ok h ?db3" by (rule commit_tables [OF ok b fits w])
  note same1 = same_rows [where db' = ?db1 and db = db, simplified]
  have "revision_rows ?db3 = revision_rows db2" by (simp add: updateBranchHead_def)
  note same3 = same_rows [OF this]
  show "cached_right h cd db k v \<Longrightarrow> cached_right h cd ?db3 k v" using wrote by (simp add: same3 same1)
  have b': "b \<in> set (branch_rows db)" "branch_name b = branch" using getBranch_Some [OF b] by auto
  have "branch_rows db2 = branch_rows db" using wrote by simp
  then have "map branch_name (branch_rows ?db3) = map branch_name (branch_rows db)" by (simp add: updateBranchHead_def)
  then have "branch_name ` set (branch_rows ?db3) = branch_name ` set (branch_rows db)" by (metis set_map)
  then have "branch \<in> branch_name ` set (branch_rows ?db3)" using b' by blast
  then show "\<exists>b3. getBranch ?db3 branch = Some b3" by (cases "getBranch ?db3 branch") (auto simp: getBranch_def find_None_iff)
  have ledger3: "ledger ?db3 key = ledger db key @ filter (\<lambda>r. row_key r = key) rows" for key
    using wrote unfolding same3 same1 by blast
  then show "ledger ?db3 key = ledger db key @ filter (\<lambda>r. row_key r = key) rows" .
  show "\<forall>r\<in>set rows. ledger ?db3 (branch, rev_id r, rev_scope_key r) \<noteq> []"
    using wrote by (auto simp: ledger3 filter_empty_conv list_all_iff row_key_def)
qed

lemma commit_operations_right:
  assumes ok: "tables_ok h db" "cache_ok h i cd db p"
    and fits: "length operations \<le> MAX_SAFE_INTEGER"
    and r: "commit_operations h i cd meta branch who keys elided operations db p = (Inr ((seq, rows), db'), p')"
  shows "seq = selectNextSeq db \<and> committed h db branch rows db' \<and> cache_ok h i cd db' p'"
proof -
  let ?seq = "selectNextSeq db"
  let ?db1 = "db\<lparr>commit_seqs := commit_seqs db @ [?seq]\<rparr>"
  obtain b db2 where b: "getBranch db branch = Some b"
    and w: "write_operations ?db1 meta branch ?seq who keys elided 0 operations = Inr (db2, rows)"
    and m: "materializeSnapshots h i cd (updateBranchHead db2 branch ?seq) branch rows p = (Inr db', p')" and seq: "seq = ?seq"
  proof -
    obtain b where b: "getBranch db branch = Some b" "branch_status b = ''active''"
      using r by (auto simp: commit_operations_def branch_of_def split: option.splits if_splits)
    then obtain db2 ws where w: "write_operations ?db1 meta branch ?seq who keys elided 0 operations = Inr (db2, ws)"
      using r by (cases "write_operations ?db1 meta branch ?seq who keys elided 0 operations")
        (auto simp: commit_operations_def branch_of_def Let_def)
    obtain m q where m: "materializeSnapshots h i cd (updateBranchHead db2 branch ?seq) branch ws p = (m, q)" by fastforce
    have "m = Inr db' \<and> q = p' \<and> ws = rows \<and> seq = ?seq"
      using r b w m by (cases m) (simp_all add: commit_operations_def branch_of_def Let_def)
    then show ?thesis using that b(1) w m by simp
  qed
  let ?db3 = "updateBranchHead db2 branch ?seq"
  have f: "0 + length operations \<le> MAX_SAFE_INTEGER" using fits by simp
  note wrote = write_operations_rows [OF w writing_starts [OF ok(1)] f, where cd = cd]
  note written = commit_written [OF ok(1) fits b w]
  have mono: "cached_right h cd' db k v \<Longrightarrow> cached_right h cd' ?db3 k v" for cd' k v by (rule written(2))
  have cache3: "cache_ok h i cd ?db3 p" by (rule cache.sound_mono [OF ok(2) mono])
  obtain b3 where b3: "getBranch ?db3 branch = Some b3" using written(3) by blast
  have "cache_ok h i cd ?db3 p' \<and> snapshots_only h ?db3 db'"
  proof (cases "snapshotInterval ?db3 \<le> 0")
    case True
    then have "db' = ?db3" "p' = p" using m by (simp_all add: materializeSnapshots_def)
    then show ?thesis using written(1) cache3 by (auto simp: snapshots_only_def intro!: exI [of _ "snapshot_rows ?db3"])
  next
    case False
    then have "materialize_loop h i cd branch [] rows ?db3 p = (Inr db', p')" using m by (simp add: materializeSnapshots_def)
    from materialize_loop_right [OF written(1) cache3 b3 written(5) this] show ?thesis by simp
  qed
  then have cache': "cache_ok h i cd ?db3 p'" and only: "snapshots_only h ?db3 db'" by simp_all
  note final = snapshots_only_same [OF only]
  have fields: "commit_seqs db' = commit_seqs db @ [?seq]" "branch_rows db' = branch_rows (updateBranchHead db branch ?seq)"
    unfolding final using wrote by (simp_all add: updateBranchHead_def)
  obtain ss where ss: "db' = ?db3\<lparr>snapshot_rows := ss\<rparr>" using only by (auto simp: snapshots_only_def)
  have "cached_right h cd' db' = cached_right h cd' ?db3" for cd' by (rule same_rows) (simp add: ss)
  then have "\<forall>cd k v. cached_right h cd db k v \<longrightarrow> cached_right h cd db' k v" using mono by simp
  moreover have "list_all (\<lambda>r. rev_branch r = branch \<and> rev_seq r = ?seq) rows" using wrote by (simp add: list_all_iff)
  moreover have "\<forall>key. ledger db' key = ledger db key @ filter (\<lambda>r. row_key r = key) rows" using final(3) written(4) by simp
  ultimately have "committed h db branch rows db'" unfolding committed_def using final(1) fields by blast
  then show ?thesis using cache' final(2) seq by simp
qed

section \<open>The transaction\<close>

lemma publish_right:
  assumes "cache_ok h i cd db p" "\<forall>(k, e)\<in>set staged. cached_right h cd db k (cached_document e)"
  shows "cache_ok h i cd db (publish i staged p)"
  using assms
proof (induction staged arbitrary: p)
  case (Cons x staged)
  obtain k e where x: "x = (k, e)" by fastforce
  have "cache_ok h i cd db (cacheDocumentForRevision i k e p)" using Cons.prems cache.store_sound x by auto
  then show ?case using Cons x by (simp add: publish_def)
qed (simp add: publish_def)

lemma begin_entries: "cache_entries i (set_cache i ((engine_caches p i)\<lparr>stagedDocumentCache := Some [], inTransaction := True\<rparr>) p) \<subseteq> cache_entries i p"
  by (auto simp: cache_entries_def staged_entries_def)

lemma sound_subset: "cache.sound i P p \<Longrightarrow> cache_entries i q \<subseteq> cache_entries i p \<Longrightarrow> cache.sound i P q"
  by (auto simp: cache.sound_def)

lemma end_entries:
  "cache_entries i (end_transaction i q) = (\<lambda>(k, e). (k, cached_document e)) ` set (documentCache (engine_caches q i))"
  by (simp add: end_transaction_def cache_entries_def staged_entries_def)

lemma end_of_kept:
  assumes "keeps i (set_cache i ((engine_caches p i)\<lparr>stagedDocumentCache := Some [], inTransaction := True\<rparr>) p) q"
  shows "cache_entries i (end_transaction i q) \<subseteq> cache_entries i p"
proof -
  have "set (documentCache (engine_caches q i)) \<subseteq> set (documentCache (engine_caches p i))"
    using assms by (simp add: keeps_def)
  then show ?thesis unfolding end_entries by (auto simp: cache_entries_def)
qed

lemma staged_right:
  assumes "cache_ok h i cd db p" "(k, e) \<in> set (staged_entries (engine_caches p i))"
  shows "cached_right h cd db k (cached_document e)"
  using assms by (force simp: cache.sound_def cache_entries_def)

text \<open>A transaction keeps the cache right whatever runs in it, as long as that leaves the entries it
  started with and makes no cached revision wrong.\<close>

lemma transaction_right:
  assumes ok: "cache_ok h i cd db p"
    and keeps: "\<And>q x q'. cache_ok h i cd db q \<Longrightarrow> operation db q = (x, q') \<Longrightarrow> keeps i q q'"
    and finished: "\<And>q a db1 q'. cache_ok h i cd db q \<Longrightarrow> operation db q = (Inr (a, db1), q') \<Longrightarrow> R a db1
      \<and> cache_ok h i cd db1 q' \<and> (\<forall>k v. cached_right h cd db k v \<longrightarrow> cached_right h cd db1 k v)"
    and r: "runAtomicCommit i operation db p = (r, db', p')"
  shows "cache_ok h i cd db' p' \<and> (case r of Inl e \<Rightarrow> db' = db | Inr a \<Rightarrow> R a db')"
proof (cases "inTransaction (engine_caches p i)")
  case True
  then show ?thesis using r ok by (auto simp: runAtomicCommit_def Let_def)
next
  case False
  let ?p = "set_cache i ((engine_caches p i)\<lparr>stagedDocumentCache := Some [], inTransaction := True\<rparr>) p"
  obtain x q where x: "operation db ?p = (x, q)" by fastforce
  have begun: "cache_ok h i cd db ?p" by (rule sound_subset [OF ok begin_entries])
  have ended: "cache_ok h i cd db (end_transaction i q)" by (rule sound_subset [OF ok end_of_kept [OF keeps [OF begun x]]])
  show ?thesis
  proof (cases x)
    case (Inl e)
    then show ?thesis using r x False ended by (auto simp: runAtomicCommit_def Let_def)
  next
    case (Inr y)
    obtain a db1 where y: "y = (a, db1)" by fastforce
    note c = finished [OF begun x [unfolded Inr y]]
    have res: "r = Inr a" "db' = db1" "p' = publish i (staged_entries (engine_caches q i)) (end_transaction i q)"
      using r x False Inr y by (auto simp: runAtomicCommit_def Let_def)
    have "cache_ok h i cd db1 (end_transaction i q)"
      by (rule cache.sound_mono [OF ended]) (use c in blast)
    moreover have "\<forall>(k, e)\<in>set (staged_entries (engine_caches q i)). cached_right h cd db1 k (cached_document e)"
      using c staged_right by blast
    ultimately have "cache_ok h i cd db1 p'" unfolding res(3) by (rule publish_right)
    then show ?thesis using c res by simp
  qed
qed

lemma commit_transaction_right:
  assumes ok: "tables_ok h db" "cache_ok h i cd db p"
    and fits: "length operations \<le> MAX_SAFE_INTEGER"
    and r: "runAtomicCommit i (commit_operations h i cd meta branch who keys elided operations) db p = (r, db', p')"
  shows "case r of
      Inl e \<Rightarrow> db' = db \<and> cache_ok h i cd db p'
    | Inr (seq, rows) \<Rightarrow> seq = selectNextSeq db \<and> committed h db branch rows db' \<and> cache_ok h i cd db' p'"
proof -
  let ?R = "\<lambda>(seq, rows) db1. seq = selectNextSeq db \<and> committed h db branch rows db1"
  have "cache_ok h i cd db' p' \<and> (case r of Inl e \<Rightarrow> db' = db | Inr a \<Rightarrow> ?R a db')"
  proof (rule transaction_right [OF ok(2) _ _ r])
    fix q x q' assume "commit_operations h i cd meta branch who keys elided operations db q = (x, q')"
    then show "keeps i q q'" by (rule keeps_commit)
  next
    fix q a db1 q'
    assume q: "cache_ok h i cd db q" "commit_operations h i cd meta branch who keys elided operations db q = (Inr (a, db1), q')"
    obtain seq rows where a: "a = (seq, rows)" by fastforce
    from commit_operations_right [OF ok(1) q(1) fits q(2) [unfolded a]] a
    show "?R a db1 \<and> cache_ok h i cd db1 q' \<and> (\<forall>k v. cached_right h cd db k v \<longrightarrow> cached_right h cd db1 k v)"
      by (simp add: committed_def)
  qed
  then show ?thesis by (cases r) auto
qed


section \<open>Commits and earlier states\<close>

lemma find_map: "find P (map f xs) = map_option f (find (P \<circ> f) xs)"
  by (induction xs) auto

lemma getBranch_raised:
  assumes "raises f" "branch_rows db' = map f (branch_rows db)"
  shows "getBranch db' name = map_option f (getBranch db name)"
proof -
  have "(\<lambda>b. branch_name b = name) \<circ> f = (\<lambda>b. branch_name b = name)" using assms(1) by (auto simp: raises_def)
  then show ?thesis by (simp add: getBranch_def assms(2) find_map)
qed

lemma raises_head: "raises (\<lambda>b. if branch_name b = branch then b\<lparr>headSeq := if headSeq b < s then s else headSeq b\<rparr> else b)"
  by (simp add: raises_def)

text \<open>A view depends on the rows up to its number and on where branches fork.\<close>

lemma view_cong:
  assumes f: "raises f" "branch_rows db' = map f (branch_rows db)"
    and rows: "\<And>key t. t < next \<Longrightarrow> filter (\<lambda>r. rev_seq r \<le> t) (ledger db' key) = filter (\<lambda>r. rev_seq r \<le> t) (ledger db key)"
    and forks: "\<And>b. b \<in> set (branch_rows db) \<Longrightarrow> createdSeq b < next"
  shows "s < next \<Longrightarrow> view n h db' ident k branch s = view n h db ident k branch s"
proof (induction n arbitrary: branch s)
  case (Suc n)
  have r: "filter (\<lambda>r. rev_seq r \<le> s) (ledger db' (branch, ident, k)) = filter (\<lambda>r. rev_seq r \<le> s) (ledger db (branch, ident, k))"
    by (rule rows) (rule Suc.prems)
  show ?case
  proof (cases "getBranch db branch")
    case None
    then show ?thesis using getBranch_raised [OF f] by (simp add: r Let_def)
  next
    case (Some b)
    have "createdSeq b < next" using forks getBranch_Some [OF Some] by auto
    moreover have "parentBranch (f b) = parentBranch b" "createdSeq (f b) = createdSeq b" using f(1) by (auto simp: raises_def)
    ultimately show ?thesis using Some getBranch_raised [OF f] Suc.IH by (auto simp: r Let_def split: option.splits)
  qed
qed simp

lemma created_below_next: "tables_ok h db \<Longrightarrow> b \<in> set (branch_rows db) \<Longrightarrow> createdSeq b < selectNextSeq db"
  unfolding tables_ok_def branches_ok_iff branch_in_order_def numbers_ok_def by (metis in_set_conv_nth le_less_trans)

lemma committed_branches:
  assumes "committed h db branch rows db'"
  shows "branch_rows db' = map (\<lambda>b. if branch_name b = branch then b\<lparr>headSeq := if headSeq b < selectNextSeq db then selectNextSeq db else headSeq b\<rparr> else b)
    (branch_rows db)"
  using assms by (simp add: committed_def updateBranchHead_def)

lemma committed_earlier:
  assumes "committed h db branch rows db'" "t < selectNextSeq db"
  shows "filter (\<lambda>r. rev_seq r \<le> t) (ledger db' key) = filter (\<lambda>r. rev_seq r \<le> t) (ledger db key)"
proof -
  have l: "ledger db' key = ledger db key @ filter (\<lambda>r. row_key r = key) rows" using assms(1) unfolding committed_def by blast
  show ?thesis using assms by (auto simp: l committed_def list_all_iff filter_empty_conv)
qed

lemma view_committed:
  assumes "tables_ok h db" "committed h db branch rows db'" "s < selectNextSeq db"
  shows "document_view h db' ident k br s = document_view h db ident k br s"
proof -
  have "view n h db' ident k br s = view n h db ident k br s" for n
    by (rule view_cong [OF raises_head committed_branches [OF assms(2)] committed_earlier [OF assms(2)] created_below_next [OF assms(1)] assms(3)])
  then show ?thesis by (simp add: document_view_def committed_branches [OF assms(2)])
qed

text \<open>The fuel of a view does not matter: parents come before their children.\<close>

lemma view_fuel:
  assumes "branches_ok db" "k < length (branch_rows db)" "k < n" "k < m"
  shows "view n h db ident key (branch_name (branch_rows db ! k)) s = view m h db ident key (branch_name (branch_rows db ! k)) s"
  using assms(2-)
proof (induction k arbitrary: n m s rule: less_induct)
  case (less k)
  obtain n' m' where nm: "n = Suc n'" "m = Suc m'" using less.prems(2,3) by (metis not_less0 old.nat.exhaust)
  let ?b = "branch_rows db ! k"
  have b: "getBranch db (branch_name ?b) = Some ?b" using getBranch_nth assms(1) less.prems(1) by (simp add: branches_ok_def)
  show ?case
  proof (cases "parentBranch ?b")
    case (Some q)
    have o: "branch_in_order (branch_rows db) k" using assms(1) less.prems(1) by (simp add: branches_ok_iff)
    obtain j where j: "j < k" "branch_name (branch_rows db ! j) = q" using o Some unfolding branch_in_order_def by blast
    have "view n' h db ident key q t = view m' h db ident key q t" for t
      using less.IH [of j n' m' t] j less.prems nm by simp
    then show ?thesis by (simp add: nm b Some Let_def)
  qed (simp add: nm b Let_def)
qed


section \<open>Branches\<close>

lemma same_rows_ok:
  assumes "tables_ok h db" "revision_rows db' = revision_rows db" "head_rows db' = head_rows db" "snapshot_rows db' = snapshot_rows db"
    and "branches_ok db'" "numbers_ok db'"
  shows "tables_ok h db'"
proof -
  note same = same_rows [OF assms(2)]
  show ?thesis using assms by (simp add: tables_ok_def same heads_ok_def snapshots_ok_def)
qed

lemma deleteBranch_fields:
  assumes "deleteBranch db branch = Inr db'"
  shows "raises (\<lambda>b. if branch_name b = branch \<and> branch_name b \<noteq> '''' then b\<lparr>branch_status := ''deleted''\<rparr> else b)"
    and "branch_rows db' = map (\<lambda>b. if branch_name b = branch \<and> branch_name b \<noteq> '''' then b\<lparr>branch_status := ''deleted''\<rparr> else b) (branch_rows db)"
    and "revision_rows db' = revision_rows db" "head_rows db' = head_rows db" "snapshot_rows db' = snapshot_rows db" "commit_seqs db' = commit_seqs db"
  using assms by (auto simp: deleteBranch_def raises_def branch_of_def split: option.splits)

lemma deleteBranch_ok:
  assumes "tables_ok h db" "deleteBranch db branch = Inr db'"
  shows "tables_ok h db'"
proof (rule same_rows_ok [OF assms(1)])
  note d = deleteBranch_fields [OF assms(2)]
  show "branches_ok db'" using assms(1) by (intro branches_ok_raised [OF d(1) _ d(2)]) (auto simp: d tables_ok_def)
  show "numbers_ok db'" using assms(1) by (auto simp: tables_ok_def numbers_ok_def d selectNextSeq_def)
qed (rule deleteBranch_fields [OF assms(2)])+

definition forked :: "doc_tables \<Rightarrow> string \<Rightarrow> string \<Rightarrow> nat \<Rightarrow> doc_tables" where
  "forked db name parent s =
     db\<lparr>branch_rows := branch_rows db @ [\<lparr>branch_name = name, parentBranch = Some parent, forkSeq = Some s, createdSeq = s, headSeq = s,
       branch_status = ''active''\<rparr>]\<rparr>"

text \<open>A fork in the range of its parent is given.\<close>

definition fork_in_range :: "doc_tables \<Rightarrow> string option \<Rightarrow> nat option \<Rightarrow> bool" where
  "fork_in_range db parent fork \<longleftrightarrow>
     (\<forall>b s. getBranch db (case parent of None \<Rightarrow> DEFAULT_BRANCH | Some n \<Rightarrow> n) = Some b \<and> fork = Some s \<longrightarrow> createdSeq b \<le> s \<and> s \<le> headSeq b)"

lemma createBranch_cases:
  assumes "createBranch db name parent fork = Inr (db', r)" "branches_ok db" "fork_in_range db parent fork"
  shows "db' = db \<or> (\<exists>b s. getBranch db name = None \<and> name \<noteq> DEFAULT_BRANCH
    \<and> getBranch db (case parent of None \<Rightarrow> DEFAULT_BRANCH | Some n \<Rightarrow> n) = Some b \<and> createdSeq b \<le> s \<and> s \<le> headSeq b
    \<and> db' = forked db name (case parent of None \<Rightarrow> DEFAULT_BRANCH | Some n \<Rightarrow> n) s)"
proof -
  let ?parent = "case parent of None \<Rightarrow> DEFAULT_BRANCH | Some n \<Rightarrow> n"
  show ?thesis
  proof (cases "name = DEFAULT_BRANCH \<or> getBranch db name \<noteq> None")
    case True
    then have "db' = db" using assms(1)
      by (cases "name = DEFAULT_BRANCH"; cases "getBranch db DEFAULT_BRANCH") (auto simp: createBranch_def branch_of_def)
    then show ?thesis ..
  next
    case False
    then obtain b where b: "getBranch db ?parent = Some b"
      using assms(1) by (cases "getBranch db ?parent") (auto simp: createBranch_def branch_of_def Let_def)
    let ?s = "case fork of None \<Rightarrow> headSeq b | Some s \<Rightarrow> s"
    have "db' = forked db name ?parent ?s"
      using assms(1) False b by (auto simp: createBranch_def branch_of_def Let_def forked_def result_simps split: option.splits)
    moreover have "createdSeq b \<le> ?s \<and> ?s \<le> headSeq b"
      using branch_range [OF assms(2) b] assms(3) b unfolding fork_in_range_def by (cases fork) auto
    ultimately show ?thesis using False b by (intro disjI2 exI [of _ b] exI [of _ ?s]) simp
  qed
qed

lemma branch_in_order_append:
  assumes "k < length bs"
  shows "branch_in_order (bs @ ys) k = branch_in_order bs k"
proof -
  have at: "(bs @ ys) ! j = bs ! j" if "j \<le> k" for j using that assms by (simp add: nth_append)
  have "(\<exists>j<k. branch_name ((bs @ ys) ! j) = q \<and> createdSeq ((bs @ ys) ! j) \<le> c \<and> c \<le> headSeq ((bs @ ys) ! j))
    \<longleftrightarrow> (\<exists>j<k. branch_name (bs ! j) = q \<and> createdSeq (bs ! j) \<le> c \<and> c \<le> headSeq (bs ! j))" for q c
    using at by (metis less_imp_le)
  then show ?thesis unfolding branch_in_order_def at [OF order.refl] by simp
qed

lemma forked_branches:
  assumes "branches_ok db" "getBranch db name = None" "name \<noteq> DEFAULT_BRANCH" "getBranch db parent = Some b" "createdSeq b \<le> s" "s \<le> headSeq b"
  shows "branches_ok (forked db name parent s)"
proof -
  let ?bs = "branch_rows db"
  let ?new = "\<lparr>branch_name = name, parentBranch = Some parent, forkSeq = Some s, createdSeq = s, headSeq = s, branch_status = ''active''\<rparr>"
  have "name \<notin> branch_name ` set ?bs" using assms(2) by (auto simp: getBranch_def find_None_iff)
  then have "distinct (map branch_name (?bs @ [?new]))" using assms(1) by (simp add: branches_ok_iff)
  moreover have "branch_in_order (?bs @ [?new]) k" if "k < length (?bs @ [?new])" for k
  proof (cases "k < length ?bs")
    case True
    then show ?thesis using assms(1) by (simp add: branches_ok_iff branch_in_order_append)
  next
    case False
    then have k: "k = length ?bs" using that by simp
    obtain j where "j < length ?bs" "?bs ! j = b" "branch_name b = parent" using getBranch_Some [OF assms(4)] by blast
    then show ?thesis using assms(3,5,6) unfolding branch_in_order_def k by (auto simp: nth_append intro!: exI [of _ j])
  qed
  moreover have "row_in_branch (?bs @ [?new]) r" if "r \<in> set (revision_rows db)" for r
    using assms(1) that by (auto simp: branches_ok_iff row_in_branch_def)
  ultimately show ?thesis by (simp add: branches_ok_iff forked_def)
qed

lemma forked_ok:
  assumes "tables_ok h db" "getBranch db name = None" "name \<noteq> DEFAULT_BRANCH" "getBranch db parent = Some b" "createdSeq b \<le> s" "s \<le> headSeq b"
  shows "tables_ok h (forked db name parent s)"
proof (rule same_rows_ok [OF assms(1)])
  show "branches_ok (forked db name parent s)" by (rule forked_branches [OF _ assms(2-)]) (use assms(1) in \<open>simp add: tables_ok_def\<close>)
  have "b \<in> set (branch_rows db)" using getBranch_Some [OF assms(4)] by auto
  then show "numbers_ok (forked db name parent s)"
    using assms(1,6) by (auto simp: tables_ok_def numbers_ok_def forked_def selectNextSeq_def intro: le_less_trans)
qed (simp_all add: forked_def)

lemma createBranch_ok:
  assumes "tables_ok h db" "createBranch db name parent fork = Inr (db', r)" "fork_in_range db parent fork"
  shows "tables_ok h db' \<and> revision_rows db' = revision_rows db"
proof -
  have "branches_ok db" using assms(1) by (simp add: tables_ok_def)
  from createBranch_cases [OF assms(2) this assms(3)] show ?thesis using assms(1) forked_ok by (auto simp: forked_def)
qed


lemma forked_ledger: "ledger (forked db name parent s) = ledger db"
  by (rule same_rows) (simp add: forked_def)

lemma find_append: "find P (xs @ ys) = (case find P xs of None \<Rightarrow> find P ys | Some x \<Rightarrow> Some x)"
  by (induction xs) auto

lemma forked_getBranch:
  "getBranch (forked db name parent s) br =
     (case getBranch db br of
        Some b \<Rightarrow> Some b
      | None \<Rightarrow> if br = name then Some \<lparr>branch_name = name, parentBranch = Some parent, forkSeq = Some s, createdSeq = s, headSeq = s,
                  branch_status = ''active''\<rparr> else None)"
  by (simp add: getBranch_def forked_def find_append split: option.split)

lemma view_forked_other:
  assumes "branches_ok db" "getBranch db name = None"
  shows "getBranch db br \<noteq> None \<Longrightarrow> view n h (forked db name parent s) ident k br t = view n h db ident k br t"
proof (induction n arbitrary: br t)
  case (Suc n)
  then obtain b where b: "getBranch db br = Some b" by blast
  obtain j where j: "j < length (branch_rows db)" "branch_rows db ! j = b" using getBranch_Some [OF b] by blast
  have "getBranch db q \<noteq> None" if q: "parentBranch b = Some q" for q
  proof -
    have "branch_in_order (branch_rows db) j" using assms(1) j(1) by (simp add: branches_ok_iff)
    then obtain j' where "j' < j" "branch_name (branch_rows db ! j') = q"
      using q unfolding branch_in_order_def j(2) by blast
    then show ?thesis using getBranch_nth [of db j'] assms(1) j(1) by (auto simp: branches_ok_iff)
  qed
  then have "view n h (forked db name parent s) ident k q (createdSeq b) = view n h db ident k q (createdSeq b)"
    if "parentBranch b = Some q" for q using Suc.IH that by blast
  then show ?case by (simp add: forked_ledger forked_getBranch b Let_def split: option.split)
qed simp

lemma view_forked:
  assumes ok: "tables_ok h db" and new: "getBranch db name = None" and b: "getBranch db parent = Some b" and neq: "name \<noteq> parent"
  shows "document_view h (forked db name parent s) ident k name s = document_view h db ident k parent s"
    and "getBranch db br \<noteq> None \<Longrightarrow> document_view h (forked db name parent s) ident k br t = document_view h db ident k br t"
proof -
  let ?n = "length (branch_rows db)"
  have oks: "branches_ok db" using ok by (simp add: tables_ok_def)
  have len: "length (branch_rows (forked db name parent s)) = Suc ?n" by (simp add: forked_def)
  have "ledger db (name, ident, k) = []"
  proof (rule ccontr)
    assume "ledger db (name, ident, k) \<noteq> []"
    then have "hd (ledger db (name, ident, k)) \<in> set (revision_rows db)" "rev_branch (hd (ledger db (name, ident, k))) = name"
      using hd_in_set [of "ledger db (name, ident, k)"] by (auto simp: in_ledger row_key_def)
    then have "name \<in> branch_name ` set (branch_rows db)" using oks unfolding branches_ok_iff row_in_branch_def by force
    then show False using new by (auto simp: getBranch_def find_None_iff)
  qed
  then have "document_view h (forked db name parent s) ident k name s = view (Suc ?n) h (forked db name parent s) ident k parent s"
    using new by (simp add: document_view_def len forked_ledger forked_getBranch Let_def)
  also have "\<dots> = document_view h db ident k parent s"
    using view_forked_other [OF oks new] b by (simp add: document_view_def del: view.simps)
  finally show "document_view h (forked db name parent s) ident k name s = document_view h db ident k parent s" .
  assume "getBranch db br \<noteq> None"
  then obtain c where c: "getBranch db br = Some c" by blast
  obtain j where j: "j < ?n" "branch_rows db ! j = c" "branch_name c = br" using getBranch_Some [OF c] by blast
  have "document_view h (forked db name parent s) ident k br t = view (Suc (Suc ?n)) h db ident k br t"
    using view_forked_other [OF oks new] c by (simp add: document_view_def len del: view.simps)
  also have "\<dots> = document_view h db ident k br t"
    using view_fuel [OF oks j(1), of "Suc (Suc ?n)" "Suc ?n"] j by (simp add: document_view_def del: view.simps)
  finally show "document_view h (forked db name parent s) ident k br t = document_view h db ident k br t" .
qed

end
