(* ===== verification/EngineStates.thy ===== *)
theory EngineStates
  imports DocumentEngine
begin

text \<open>
  The states an engine reaches, from an empty file by reads, commits, branches made and deleted,
  reopening and rows dropped from the cache, and what the engine promises in all of them: a read
  returns the history it is asked for, and a commit extends the history and leaves what was.
\<close>

section \<open>What a read is to return\<close>

definition resolve_seq :: "doc_tables \<Rightarrow> string \<Rightarrow> nat option \<Rightarrow> store_error + nat" where
  "resolve_seq db branch seq =
     (case getBranch db branch of
        None \<Rightarrow> Inl (UnknownBranchName branch)
      | Some b \<Rightarrow>
          let s = (case seq of None \<Rightarrow> headSeq b | Some s \<Rightarrow> s)
          in if s < (if branch = DEFAULT_BRANCH then 0 else createdSeq b) \<or> s > headSeq b
             then Inl (SeqOutOfRange s branch) else Inr s)"

definition read_history :: "host \<Rightarrow> doc_tables \<Rightarrow> string \<Rightarrow> string \<Rightarrow> string \<Rightarrow> nat option \<Rightarrow> store_error + fval option" where
  "read_history h db ident k branch seq = bindR (resolve_seq db branch seq) (document_view h db ident k branch)"

lemma read_history_right:
  assumes ok: "tables_ok h db" "cache_ok h i cd db p"
    and r: "readStateForScopeKey h i cd db ident scope k branch seq p = (r, p')"
  shows "es_result r = read_history h db ident k branch seq \<and> cache_ok h i cd db p'"
proof (cases "resolve_seq db branch seq")
  case (Inl e)
  have "read_row db ident k branch seq = Inl e"
  proof (cases "getBranch db branch")
    case None
    then show ?thesis using Inl by (simp add: resolve_seq_def read_row_def branch_of_def)
  next
    case (Some b)
    let ?s = "case seq of None \<Rightarrow> headSeq b | Some s \<Rightarrow> s"
    have "(?s < (if branch = DEFAULT_BRANCH then 0 else createdSeq b) \<or> ?s > headSeq b) \<and> e = SeqOutOfRange ?s branch"
      using Inl Some by (simp add: resolve_seq_def Let_def split: if_splits)
    then show ?thesis using Some by (simp only: read_row_def readRowForBranch.simps branch_of_def option.case sum.case bindR_simps Let_def if_True simp_thms)
  qed
  then have "r = Inl e" "p' = p" using r by (simp_all add: readStateForScopeKey_def Let_def)
  then show ?thesis using Inl ok(2) by (simp add: es_result_def read_history_def)
next
  case (Inr s)
  then obtain b where b: "getBranch db branch = Some b" by (cases "getBranch db branch") (simp_all add: resolve_seq_def)
  have s: "s = (case seq of None \<Rightarrow> headSeq b | Some s \<Rightarrow> s)" "(if branch = DEFAULT_BRANCH then 0 else createdSeq b) \<le> s" "s \<le> headSeq b"
    using Inr b by (simp_all add: resolve_seq_def Let_def not_less split: if_splits)
  have "seq = Some s \<or> seq = None \<and> s = headSeq b" using s(1) by (cases seq) simp_all
  note right = readStateForScopeKey_right [OF ok b s(2,3) this r]
  show ?thesis using right Inr by (simp add: read_history_def)
qed

lemma base_row_document:
  assumes "row \<in> set (revision_rows db)" "rows_ok db" "\<not> isPatchRevision row"
  shows "document_at_row h db row = run_row h acc row"
proof -
  have "row \<in> set (ledger db (row_key row))" using assms(1) by (simp add: in_ledger)
  then obtain earlier where "filter (\<lambda>r. row_pos r \<le> row_pos row) (ledger db (row_key row)) = earlier @ [row]"
    using filter_upto_last [OF ledger_in_order [OF assms(2)]] by blast
  moreover have "upto (rev_seq row) (rev_op_index row) = (\<lambda>r. row_pos r \<le> row_pos row)"
    by (simp add: upto_pos fun_eq_iff) (simp add: row_pos_def)
  ultimately show ?thesis using run_row_base [OF assms(3)] by (simp add: document_at_row_def after_def)
qed

lemma readRevision_right:
  assumes ok: "tables_ok h db" "cache_ok h i cd db p"
    and r: "readRevision h i cd db branch ident k seq opIndex p = (r, p')"
  shows "r = (case selectRevisionRow db (branch, ident, k) seq opIndex of
      None \<Rightarrow> Inl (NoSuchRevision ident seq opIndex) | Some row \<Rightarrow> document_at_row h db row) \<and> cache_ok h i cd db p'"
proof (cases "selectRevisionRow db (branch, ident, k) seq opIndex")
  case None
  then show ?thesis using r ok(2) by (simp add: readRevision_def)
next
  case (Some row)
  then have row: "row \<in> set (ledger db (branch, ident, k))"
    by (auto simp: selectRevisionRow_def find_Some_iff ledger_def in_set_conv_nth)
  have oks: "rows_ok db" "snapshots_ok h db" using ok(1) by (simp_all add: tables_ok_def)
  show ?thesis
  proof (cases "isPatchRevision row")
    case True
    obtain q p1 where q: "reconstructPatchedDocument h i cd db (branch, ident, k) (rev_seq row) (rev_op_index row) True p = (q, p1)" by fastforce
    have "document_of q = document_at_row h db row \<and> cache_ok h i cd db p1"
      by (rule reconstruct_right [OF q row True _ ok(2) oks]) simp
    then show ?thesis using r Some True q by (auto simp: readRevision_def isPatch_iff document_of_def case_prod_unfold)
  next
    case False
    note base = base_row_document [OF _ oks(1) False, of h "Inr None"]
    show ?thesis using r Some False base row ok(2)
      by (auto simp: readRevision_def isPatchRevision_def run_row_def in_ledger split: rev_op.splits)
  qed
qed

section \<open>Reachable states\<close>

definition opened_tables :: "int \<Rightarrow> int \<Rightarrow> doc_tables" where
  "opened_tables interval retention = \<lparr>revision_rows = [], head_rows = [], snapshot_rows = [],
     branch_rows = [\<lparr>branch_name = DEFAULT_BRANCH, parentBranch = None, forkSeq = None, createdSeq = 0, headSeq = 0,
       branch_status = ''active''\<rparr>],
     commit_seqs = [], snapshotInterval = interval, snapshotRetention = retention\<rparr>"

inductive reached :: "host \<Rightarrow> nat \<Rightarrow> codec \<Rightarrow> doc_tables \<Rightarrow> process \<Rightarrow> bool" for h i cd where
  opened: "cache_entries i p = {} \<Longrightarrow> reached h i cd (opened_tables interval retention) p"
| reopened: "reached h i cd db p \<Longrightarrow> cache_entries i p' = {} \<Longrightarrow>
    reached h i cd (db\<lparr>snapshotInterval := interval, snapshotRetention := retention\<rparr>) p'"
| dropped: "reached h i cd db p \<Longrightarrow> shrinks p p' \<Longrightarrow> reached h i cd db p'"
| read: "reached h i cd db p \<Longrightarrow> readState h i cd db ident branch seq scope who explicitScopeKey p = (r, p') \<Longrightarrow> reached h i cd db p'"
| revision: "reached h i cd db p \<Longrightarrow> readRevision h i cd db branch ident k seq opIndex p = (r, p') \<Longrightarrow> reached h i cd db p'"
| commit: "reached h i cd db p \<Longrightarrow> length operations \<le> MAX_SAFE_INTEGER \<Longrightarrow>
    runAtomicCommit i (commit_operations h i cd meta branch who keys elided operations) db p = (r, db', p') \<Longrightarrow> reached h i cd db' p'"
| fork: "reached h i cd db p \<Longrightarrow> createBranch db name parent fork = Inr (db', b) \<Longrightarrow> fork_in_range db parent fork \<Longrightarrow> reached h i cd db' p"
| delete: "reached h i cd db p \<Longrightarrow> deleteBranch db name = Inr db' \<Longrightarrow> reached h i cd db' p"

lemma opened_ok: "tables_ok h (opened_tables interval retention)"
  by (simp add: tables_ok_def rows_ok_def heads_ok_def snapshots_ok_def branches_ok_def numbers_ok_def opened_tables_def
      ledger_def doc_rows_def first_row_def selectNextSeq_def)

lemma configured_ok: "tables_ok h db \<Longrightarrow> tables_ok h (db\<lparr>snapshotInterval := interval, snapshotRetention := retention\<rparr>)"
proof -
  assume ok: "tables_ok h db"
  let ?db = "db\<lparr>snapshotInterval := interval, snapshotRetention := retention\<rparr>"
  have "branches_ok ?db = branches_ok db" "numbers_ok ?db = numbers_ok db"
    by (simp_all add: branches_ok_def numbers_ok_def selectNextSeq_def)
  then show ?thesis using ok by (intro same_rows_ok [OF ok]) (simp_all add: tables_ok_def)
qed

lemma reached_ok: "reached h i cd db p \<Longrightarrow> tables_ok h db \<and> cache_ok h i cd db p"
proof (induction rule: reached.induct)
  case (opened p interval retention)
  then show ?case using opened_ok by (simp add: cache.sound_def)
next
  case (reopened db p p' interval retention)
  then show ?case using configured_ok by (simp add: cache.sound_def)
next
  case (dropped db p p')
  then show ?case using sound_subset shrinks_entries by blast
next
  case (read db p ident branch seq scope who explicitScopeKey r p')
  then have "p' = p \<or> (\<exists>s k r'. readStateForScopeKey h i cd db ident s k branch seq p = (r', p'))"
    by (auto simp: readState_def Let_def split: option.splits sum.splits)
  then show ?case using read.IH read_history_right by blast
next
  case (revision db p branch ident k seq opIndex r p')
  then show ?case using readRevision_right by blast
next
  case (commit db p branch keys operations meta who elided r db' p')
  from commit_transaction_right [OF _ _ commit.hyps(2,3)] show ?case
    using commit.IH by (cases r) (auto simp: committed_def)
next
  case (fork db p name parent fork db' b)
  have ok: "tables_ok h db" "cache_ok h i cd db p" using fork.IH by simp_all
  have new: "tables_ok h db'" "revision_rows db' = revision_rows db" using createBranch_ok [OF ok(1) fork.hyps(2,3)] by simp_all
  have "cached_right h cd db' = cached_right h cd db" by (rule same_rows(5) [OF new(2)])
  then show ?case using new(1) ok(2) by simp
next
  case (delete db p name db')
  have "cached_right h cd db' = cached_right h cd db" by (rule same_rows) (rule deleteBranch_fields [OF delete.hyps(2)])
  then show ?case using deleteBranch_ok [OF _ delete.hyps(2)] delete.IH by simp
qed

end
