(* ===== verification/EngineProperties.thy ===== *)
theory EngineProperties
  imports EngineStates
begin

text \<open>
  What an engine promises in every state it reaches, as properties of its operations: reads return the
  history, commits extend it, and branches read their parents; and that a read no stored write conflicts
  with is current. The last properties are about forks, where the code falls short of its
  specification.
\<close>

section \<open>The document an engine returns\<close>

definition document_at :: "host \<Rightarrow> nat \<Rightarrow> codec \<Rightarrow> doc_tables \<times> process \<Rightarrow> doc_key \<Rightarrow> nat option \<Rightarrow> store_error + fval option" where
  "document_at h i cd state key seq =
     (case (state, key) of ((db, p), (branch, ident, k)) \<Rightarrow>
        fst (readDocument h i cd db ident branch seq None \<lparr>principal = None, sessionId = None\<rparr> (Some k) p))"

definition asked_scope :: "cell_scope option \<Rightarrow> scope_identity \<Rightarrow> string option \<Rightarrow> store_error + string" where
  "asked_scope scope who explicitScopeKey =
     (case explicitScopeKey of Some k \<Rightarrow> Inr k
      | None \<Rightarrow> (case resolveScopeKey scope who of Inl e \<Rightarrow> Inl (ScopeUnresolved e) | Inr k \<Rightarrow> Inr k))"

lemma readDocument_right:
  assumes "tables_ok h db" "cache_ok h i cd db p"
  shows "fst (readDocument h i cd db ident branch seq scope who explicitScopeKey p)
    = bindR (asked_scope scope who explicitScopeKey) (\<lambda>k. read_history h db ident k branch seq)"
proof (cases "asked_scope scope who explicitScopeKey")
  case (Inl e)
  then show ?thesis by (auto simp: readDocument_def readState_def asked_scope_def Let_def split: option.splits sum.splits)
next
  case (Inr k)
  let ?s = "case explicitScopeKey of Some k \<Rightarrow> scopeOfScopeKey k | None \<Rightarrow> (case scope of None \<Rightarrow> Space | Some s \<Rightarrow> s)"
  obtain r p' where r: "readStateForScopeKey h i cd db ident (Some ?s) k branch seq p = (r, p')" by fastforce
  have "readState h i cd db ident branch seq scope who explicitScopeKey p = (r, p')"
    using Inr r by (simp add: readState_def asked_scope_def Let_def split: option.splits sum.splits)
  then show ?thesis using read_history_right [OF assms r] Inr by (simp add: readDocument_def es_result_def)
qed

lemma document_at_right:
  assumes "tables_ok h db" "cache_ok h i cd db p"
  shows "document_at h i cd (db, p) (branch, ident, k) seq = read_history h db ident k branch seq"
  using readDocument_right [OF assms] by (simp add: document_at_def asked_scope_def)

lemma reached_document:
  "reached h i cd db p \<Longrightarrow> document_at h i cd (db, p) (branch, ident, k) seq = read_history h db ident k branch seq"
  using document_at_right reached_ok by blast

text \<open>The history has a value wherever a branch is read in its range.\<close>

lemma run_rows_returns: "acc \<noteq> Inl NoReturn \<Longrightarrow> run_rows h acc rows \<noteq> Inl NoReturn"
proof (induction rows arbitrary: acc)
  case (Cons r rows)
  have "run_row h acc r \<noteq> Inl NoReturn" using Cons.prems by (auto simp: run_row_def bindR_def split: rev_op.splits sum.splits)
  then show ?case using Cons.IH by simp
qed simp

lemma view_returns:
  assumes "branches_ok db" "k < length (branch_rows db)" "k < n"
  shows "view n h db ident key (branch_name (branch_rows db ! k)) s \<noteq> Inl NoReturn"
  using assms(2-)
proof (induction k arbitrary: n s rule: less_induct)
  case (less k)
  obtain m where m: "n = Suc m" using less.prems(2) by (metis not_less0 old.nat.exhaust)
  let ?b = "branch_rows db ! k"
  have b: "getBranch db (branch_name ?b) = Some ?b" using getBranch_nth assms(1) less.prems(1) by (simp add: branches_ok_def)
  have rows: "run_rows h (Inr None) rs \<noteq> Inl NoReturn" for rs by (rule run_rows_returns) simp
  show ?case
  proof (cases "parentBranch ?b")
    case (Some q)
    have o: "branch_in_order (branch_rows db) k" using assms(1) less.prems(1) by (simp add: branches_ok_iff)
    obtain j where j: "j < k" "branch_name (branch_rows db ! j) = q" using o Some unfolding branch_in_order_def by blast
    have "view m h db ident key q t \<noteq> Inl NoReturn" for t
      using less.IH [of j m t] j less.prems m by simp
    then show ?thesis using rows by (simp add: m b Some Let_def)
  qed (use rows in \<open>simp add: m b Let_def\<close>)
qed

lemma read_history_returns:
  assumes "tables_ok h db"
  shows "read_history h db ident k branch seq \<noteq> Inl NoReturn"
proof (cases "getBranch db branch")
  case None
  then show ?thesis by (simp add: read_history_def resolve_seq_def)
next
  case (Some b)
  obtain j where j: "j < length (branch_rows db)" "branch_rows db ! j = b" "branch_name b = branch" using getBranch_Some [OF Some] by blast
  have "branches_ok db" using assms by (simp add: tables_ok_def)
  from view_returns [OF this j(1), of "Suc (length (branch_rows db))" h ident k] j
  have "document_view h db ident k branch s \<noteq> Inl NoReturn" for s by (simp add: document_view_def del: view.simps)
  then show ?thesis using Some by (simp add: read_history_def resolve_seq_def Let_def)
qed

section \<open>Histories before and after a commit\<close>

lemma getBranch_in: "getBranch db branch = Some b \<Longrightarrow> b \<in> set (branch_rows db)"
  by (auto dest: getBranch_Some)

lemma resolved_below_next:
  assumes "tables_ok h db" "resolve_seq db branch seq = Inr s"
  shows "s < selectNextSeq db"
proof -
  obtain b where b: "getBranch db branch = Some b" using assms(2) by (cases "getBranch db branch") (simp_all add: resolve_seq_def)
  then have "s \<le> headSeq b" using assms(2) by (simp add: resolve_seq_def Let_def not_less split: if_splits)
  moreover have "headSeq b < selectNextSeq db" using assms(1) getBranch_in [OF b] by (simp add: tables_ok_def numbers_ok_def)
  ultimately show ?thesis by simp
qed

lemma getBranch_committed:
  assumes "committed h db branch rows db'"
  shows "getBranch db' name = map_option (\<lambda>b. if branch_name b = branch
    then b\<lparr>headSeq := if headSeq b < selectNextSeq db then selectNextSeq db else headSeq b\<rparr> else b) (getBranch db name)"
  by (rule getBranch_raised [OF raises_head]) (use assms in \<open>simp add: committed_def updateBranchHead_def\<close>)

lemma resolve_committed:
  assumes "committed h db branch rows db'" "resolve_seq db name (Some s) = Inr s"
  shows "resolve_seq db' name (Some s) = Inr s"
  using assms(2) by (auto simp: resolve_seq_def getBranch_committed [OF assms(1)] Let_def split: option.splits if_splits)

lemma history_committed:
  assumes "tables_ok h db" "committed h db branch rows db'" "resolve_seq db name (Some s) = Inr s"
  shows "read_history h db' ident k name (Some s) = read_history h db ident k name (Some s)"
  using view_committed [OF assms(1,2) resolved_below_next [OF assms(1,3)]] resolve_committed [OF assms(2,3)] assms(3)
  by (simp add: read_history_def)

lemma resolve_head: "branches_ok db \<Longrightarrow> getBranch db branch = Some b \<Longrightarrow> resolve_seq db branch None = Inr (headSeq b)"
  using branch_range [of db branch b] by (simp add: resolve_seq_def Let_def)

lemma head_view:
  assumes "branches_ok db" "getBranch db branch = Some b"
    and "ledger db (branch, ident, k) \<noteq> [] \<or> parentBranch b = None"
  shows "read_history h db ident k branch None = run_rows h (Inr None) (ledger db (branch, ident, k))"
proof -
  have "filter (\<lambda>r. rev_seq r \<le> headSeq b) (ledger db (branch, ident, k)) = ledger db (branch, ident, k)"
    using local_ledger_bounded [OF assms(1,2)] by (simp add: filter_id_conv)
  then show ?thesis using assms(3) assms(2)
    by (auto simp: read_history_def resolve_head [OF assms(1,2)] document_view_def Let_def)
qed

lemma default_has_no_parent:
  assumes "branches_ok db" "getBranch db DEFAULT_BRANCH = Some b"
  shows "parentBranch b = None"
proof -
  obtain j where j: "j < length (branch_rows db)" "branch_rows db ! j = b" "branch_name b = DEFAULT_BRANCH"
    using getBranch_Some [OF assms(2)] by blast
  have "branch_in_order (branch_rows db) j" using assms(1) j(1) by (simp add: branches_ok_iff)
  then show ?thesis using j by (simp add: branch_in_order_def)
qed


lemma commit_branch:
  assumes "runAtomicCommit i (commit_operations h i cd meta branch who keys elided operations) db p = (Inr x, db', p')"
  obtains b where "getBranch db branch = Some b"
proof (cases "getBranch db branch")
  case None
  then have "commit_operations h i cd meta branch who keys elided operations db q = (Inl (UnknownBranchName branch), q)" for q
    by (simp add: commit_operations_def branch_of_def)
  then show ?thesis using assms by (simp add: runAtomicCommit_def Let_def split: if_splits)
qed

lemma cached_row_unique:
  assumes "cache_ok h i cd db p" "rows_ok db" "(k, v) \<in> cache_entries i p"
  shows "\<exists>!r. r \<in> set (revision_rows db) \<and> k = row_cache_key cd (row_key r) r \<and> document_at_row h db r = Inr v"
proof -
  have "cached_right h cd db k v" using assms(1,3) unfolding cache.sound_def by blast
  then obtain r where r: "r \<in> set (revision_rows db)" "k = row_cache_key cd (row_key r) r" "document_at_row h db r = Inr v"
    unfolding cached_right_def by blast
  show ?thesis
  proof (rule ex1I [of _ r])
    show "r \<in> set (revision_rows db) \<and> k = row_cache_key cd (row_key r) r \<and> document_at_row h db r = Inr v" using r by blast
    fix x assume x: "x \<in> set (revision_rows db) \<and> k = row_cache_key cd (row_key x) x \<and> document_at_row h db x = Inr v"
    then have "row_pos x = row_pos r" using cache_key_pos r(2) by metis
    then show "x = r" using row_unique [OF assms(2), of x r] x r(1) by simp
  qed
qed

lemma resolved_row:
  assumes "tables_ok h db" "resolve_seq db branch seq = Inr s"
  shows "\<exists>found. read_row db ident k branch seq = Inr found"
proof -
  obtain b where b: "getBranch db branch = Some b" using assms(2) by (cases "getBranch db branch") (simp_all add: resolve_seq_def)
  have s: "s = (case seq of None \<Rightarrow> headSeq b | Some s \<Rightarrow> s)" "(if branch = DEFAULT_BRANCH then 0 else createdSeq b) \<le> s" "s \<le> headSeq b"
    using assms(2) b by (simp_all add: resolve_seq_def Let_def not_less split: if_splits)
  obtain j where j: "j < length (branch_rows db)" "branch_rows db ! j = b" "branch_name b = branch" using getBranch_Some [OF b] by blast
  let ?r = "readRowForBranch (Suc (length (branch_rows db))) db ident k branch (Some s)"
  have "read_row db ident k branch seq = ?r" using s(1) b by (cases seq) (simp_all add: read_row_def branch_of_def)
  moreover have "case ?r of Inl e \<Rightarrow> False | Inr found \<Rightarrow> True"
    using readRowForBranch_view [OF assms(1) j(1), of "Suc (length (branch_rows db))" b s ident k] j s(2,3)
    by (auto split: sum.splits)
  ultimately show ?thesis by (cases ?r) auto
qed

lemma unresolved_row:
  assumes "resolve_seq db branch seq = Inl e"
  shows "read_row db ident k branch seq = Inl e"
proof (cases "getBranch db branch")
  case None
  then show ?thesis using assms by (simp add: resolve_seq_def read_row_def branch_of_def)
next
  case (Some b)
  let ?s = "case seq of None \<Rightarrow> headSeq b | Some s \<Rightarrow> s"
  have "(?s < (if branch = DEFAULT_BRANCH then 0 else createdSeq b) \<or> ?s > headSeq b) \<and> e = SeqOutOfRange ?s branch"
    using assms Some by (simp add: resolve_seq_def Let_def split: if_splits)
  then show ?thesis using Some by (simp only: read_row_def readRowForBranch.simps branch_of_def option.case sum.case bindR_simps Let_def if_True simp_thms)
qed

lemma createBranch_new:
  assumes "createBranch db name parent fork = Inr (db', r)" "getBranch db name = None" "name \<noteq> DEFAULT_BRANCH"
  obtains b where "getBranch db (case parent of None \<Rightarrow> DEFAULT_BRANCH | Some n \<Rightarrow> n) = Some b"
    "db' = forked db name (case parent of None \<Rightarrow> DEFAULT_BRANCH | Some n \<Rightarrow> n) (case fork of None \<Rightarrow> headSeq b | Some s \<Rightarrow> s)"
proof (cases "getBranch db (case parent of None \<Rightarrow> DEFAULT_BRANCH | Some n \<Rightarrow> n)")
  case None
  then show ?thesis using assms by (simp add: createBranch_def branch_of_def)
next
  case (Some b)
  then have "db' = forked db name (case parent of None \<Rightarrow> DEFAULT_BRANCH | Some n \<Rightarrow> n) (case fork of None \<Rightarrow> headSeq b | Some s \<Rightarrow> s)"
    using assms by (auto simp: createBranch_def branch_of_def Let_def forked_def result_simps split: option.splits)
  then show ?thesis using that Some by blast
qed

section \<open>Properties\<close>

text \<open>C1. Reading refines the history. Whatever an engine went through, reading a document returns the
  fold of its rows up to the number asked for, through the branches it descends from, with the error of
  the first step that throws: an unresolved scope, an unknown branch, a number out of the branch's
  range, a patch that cannot be replayed. Heads, snapshots, their interval and retention, and what the
  cache holds change nothing of it.\<close>

theorem reads_return_history:
  assumes "reached h i cd db p"
  shows "fst (readDocument h i cd db ident branch seq scope who explicitScopeKey p)
    = bindR (asked_scope scope who explicitScopeKey) (\<lambda>k. read_history h db ident k branch seq)"
  using readDocument_right reached_ok [OF assms] by blast

text \<open>C2. The invariant of a store: in every state reached, the head of a document is its newest row, a
  snapshot holds the document of its number, a cached revision the document of the one row it is named
  after, rows are numbered within their branch and below the next commit, and no two branches share a
  name.\<close>

theorem store_invariant:
  assumes "reached h i cd db p"
  shows "(\<forall>key. selectCurrentLocal db key = first_row (newest_first (doc_rows db key)))
    \<and> (\<forall>(key, s, v)\<in>set (snapshot_rows db). after h db key (\<lambda>r. rev_seq r \<le> s) = Inr (Some v))
    \<and> (\<forall>(k, v)\<in>cache_entries i p. \<exists>!r. r \<in> set (revision_rows db) \<and> k = row_cache_key cd (row_key r) r \<and> document_at_row h db r = Inr v)
    \<and> (\<forall>r\<in>set (revision_rows db). \<exists>b. getBranch db (rev_branch r) = Some b \<and> createdSeq b < rev_seq r \<and> rev_seq r \<le> headSeq b
         \<and> rev_seq r < selectNextSeq db)
    \<and> distinct (map branch_name (branch_rows db))"
proof -
  have ok: "tables_ok h db" "cache_ok h i cd db p" using reached_ok [OF assms] by simp_all
  then have oks: "rows_ok db" "heads_ok db" "snapshots_ok h db" "branches_ok db" by (simp_all add: tables_ok_def)
  have names: "distinct (map branch_name (branch_rows db))" using oks(4) by (simp add: branches_ok_iff)
  have heads: "selectCurrentLocal db key = first_row (newest_first (doc_rows db key))" for key
    using newest_first_ledger [of "\<lambda>_. True"] selectCurrentLocal_newest [OF oks(1,2)] by simp
  have snapshots: "\<forall>(key, s, v)\<in>set (snapshot_rows db). after h db key (\<lambda>r. rev_seq r \<le> s) = Inr (Some v)"
    using oks(3) by (auto simp: snapshots_ok_def)
  have numbers: "\<exists>b. getBranch db (rev_branch r) = Some b \<and> createdSeq b < rev_seq r \<and> rev_seq r \<le> headSeq b
      \<and> rev_seq r < selectNextSeq db" if r: "r \<in> set (revision_rows db)" for r
  proof -
    obtain b where b: "b \<in> set (branch_rows db)" "branch_name b = rev_branch r" "createdSeq b < rev_seq r" "rev_seq r \<le> headSeq b"
      using oks(4) r unfolding branches_ok_iff row_in_branch_def by blast
    then have "getBranch db (rev_branch r) = Some b" using getBranch_nth [OF names] by (metis in_set_conv_nth)
    then show ?thesis using b(3,4) rows_below_next [OF ok(1) r] by blast
  qed
  show ?thesis using heads snapshots cached_row_unique [OF ok(2) oks(1)] numbers names by (intro conjI allI ballI) (simp_all only: split_paired_all case_prod_conv)
qed

text \<open>C16. Reading ends: the recursion over the parents of a branch never runs out, whatever is read.\<close>

theorem reads_return:
  assumes "reached h i cd db p"
  shows "read_row db ident k branch seq \<noteq> Inl NoReturn
    \<and> fst (readDocument h i cd db ident branch seq scope who explicitScopeKey p) \<noteq> Inl NoReturn"
proof -
  have ok: "tables_ok h db" "cache_ok h i cd db p" using reached_ok [OF assms] by simp_all
  have "resolve_seq db branch seq \<noteq> Inl NoReturn" by (simp add: resolve_seq_def Let_def split: option.split)
  then have row: "read_row db ident k branch seq \<noteq> Inl NoReturn"
    using resolved_row [OF ok(1), of branch seq _ ident k] unresolved_row [of db branch seq _ ident k]
    by (cases "resolve_seq db branch seq") fastforce+
  have "asked_scope scope who explicitScopeKey \<noteq> Inl NoReturn" by (simp add: asked_scope_def split: option.split sum.split)
  then have "fst (readDocument h i cd db ident branch seq scope who explicitScopeKey p) \<noteq> Inl NoReturn"
    unfolding readDocument_right [OF ok] using read_history_returns [OF ok(1)]
    by (cases "asked_scope scope who explicitScopeKey") simp_all
  then show ?thesis using row by blast
qed

text \<open>C9. History is immutable: a commit that succeeds is numbered above every number in use, and reading
  any document on any branch at a number that could be read before returns what it returned before.\<close>

theorem commit_keeps_history:
  assumes "reached h i cd db p" and "length operations \<le> MAX_SAFE_INTEGER"
    and "runAtomicCommit i (commit_operations h i cd meta branch who keys elided operations) db p = (Inr (seq, rows), db', p')"
  shows "(\<forall>b\<in>set (branch_rows db). headSeq b < seq)
    \<and> (\<forall>name ident k s. resolve_seq db name (Some s) = Inr s \<longrightarrow>
         document_at h i cd (db', p') (name, ident, k) (Some s) = document_at h i cd (db, p) (name, ident, k) (Some s))"
proof -
  have ok: "tables_ok h db" "cache_ok h i cd db p" using reached_ok [OF assms(1)] by simp_all
  note c = commit_transaction_right [OF ok assms(2,3), simplified]
  have ok': "tables_ok h db'" "cache_ok h i cd db' p'" using c by (simp_all add: committed_def)
  show ?thesis using c history_committed [OF ok(1)] ok(1)
    by (auto simp: document_at_right [OF ok] document_at_right [OF ok'] tables_ok_def numbers_ok_def)
qed

text \<open>Reading a document at the head of a branch depends on its rows there, or else on what the branch
  descends from.\<close>

lemma head_cong:
  assumes oks: "branches_ok db" "branches_ok db'" and f: "raises f" "branch_rows db' = map f (branch_rows db)"
    and rows: "\<And>key t. t < limit \<Longrightarrow> filter (\<lambda>r. rev_seq r \<le> t) (ledger db' key) = filter (\<lambda>r. rev_seq r \<le> t) (ledger db key)"
    and forks: "\<And>b. b \<in> set (branch_rows db) \<Longrightarrow> createdSeq b < limit"
    and same: "ledger db' (br, ident, k) = ledger db (br, ident, k)"
  shows "read_history h db' ident k br None = read_history h db ident k br None"
proof (cases "getBranch db br")
  case None
  then show ?thesis by (simp add: read_history_def resolve_seq_def getBranch_raised [OF f])
next
  case (Some b)
  have b': "getBranch db' br = Some (f b)" using Some by (simp add: getBranch_raised [OF f])
  have parent: "parentBranch (f b) = parentBranch b" "createdSeq (f b) = createdSeq b" using f(1) by (simp_all add: raises_def)
  show ?thesis
  proof (cases "ledger db (br, ident, k) \<noteq> [] \<or> parentBranch b = None")
    case True
    then show ?thesis using head_view [OF oks(1) Some] head_view [OF oks(2) b'] same parent by simp
  next
    case False
    then obtain q where q: "ledger db (br, ident, k) = []" "parentBranch b = Some q" by auto
    have "createdSeq b < limit" using forks getBranch_Some [OF Some] by auto
    with rows forks have "view n h db' ident k q (createdSeq b) = view n h db ident k q (createdSeq b)" for n
      by (rule view_cong [OF f])
    then show ?thesis using q same parent Some b'
      by (simp add: read_history_def resolve_head [OF oks(1) Some] resolve_head [OF oks(2) b'] document_view_def f(2) Let_def)
  qed
qed

lemma committed_head:
  assumes "tables_ok h db" "committed h db branch rows db'" "filter (\<lambda>r. row_key r = (br, ident, k)) rows = []"
  shows "read_history h db' ident k br None = read_history h db ident k br None"
proof (rule head_cong [OF _ _ raises_head committed_branches [OF assms(2)] committed_earlier [OF assms(2)] created_below_next [OF assms(1)]])
  show "branches_ok db" "branches_ok db'" using assms(1,2) by (simp_all add: tables_ok_def committed_def)
  have "\<forall>key. ledger db' key = ledger db key @ filter (\<lambda>r. row_key r = key) rows" using assms(2) unfolding committed_def by blast
  then show "ledger db' (br, ident, k) = ledger db (br, ident, k)" using assms(3) by simp
qed

text \<open>C10. A commit reads back: at the head of every branch, a document is what it was before with the
  commit's rows of that document on that branch run over it, in their order; where it has none, on other
  branches above all, it is what it was. The one exception is a document the commit writes that the
  branch had inherited from its parent and not written itself.\<close>

theorem commit_reads_back:
  assumes "reached h i cd db p" and "length operations \<le> MAX_SAFE_INTEGER"
    and "runAtomicCommit i (commit_operations h i cd meta branch who keys elided operations) db p = (Inr (seq, rows), db', p')"
    and "br = DEFAULT_BRANCH \<or> ledger db (br, ident, k) \<noteq> [] \<or> filter (\<lambda>r. row_key r = (br, ident, k)) rows = []"
  shows "document_at h i cd (db', p') (br, ident, k) None
    = run_rows h (document_at h i cd (db, p) (br, ident, k) None) (filter (\<lambda>r. row_key r = (br, ident, k)) rows)"
proof -
  have ok: "tables_ok h db" "cache_ok h i cd db p" using reached_ok [OF assms(1)] by simp_all
  note c = commit_transaction_right [OF ok assms(2,3), simplified]
  have ok': "tables_ok h db'" "cache_ok h i cd db' p'" using c by (simp_all add: committed_def)
  have brs: "branches_ok db" "branches_ok db'" using ok ok' by (simp_all add: tables_ok_def)
  have committed: "committed h db branch rows db'" using c by simp
  show ?thesis
  proof (cases "filter (\<lambda>r. row_key r = (br, ident, k)) rows = []")
    case True
    from committed_head [OF ok(1) committed this] show ?thesis
      unfolding document_at_right [OF ok] document_at_right [OF ok'] True by simp
  next
    case False
    then have "br = branch" using committed by (auto simp: committed_def list_all_iff filter_empty_conv row_key_def)
    obtain b where b: "getBranch db br = Some b" unfolding \<open>br = branch\<close> using commit_branch [OF assms(3)] .
    obtain b' where b': "getBranch db' br = Some b'" "parentBranch b' = parentBranch b"
      by (rule that [OF getBranch_committed [OF committed, of br, unfolded b option.map]]) simp
    have l: "ledger db' (br, ident, k) = ledger db (br, ident, k) @ filter (\<lambda>r. row_key r = (br, ident, k)) rows"
      using committed unfolding committed_def by blast
    have own: "ledger db (br, ident, k) \<noteq> [] \<or> parentBranch b = None"
    proof (cases "br = DEFAULT_BRANCH")
      case True
      then show ?thesis using default_has_no_parent [OF brs(1)] b by simp
    qed (use assms(4) False in simp)
    then have own': "ledger db' (br, ident, k) \<noteq> [] \<or> parentBranch b' = None" unfolding l b'(2) by simp
    show ?thesis
      unfolding document_at_right [OF ok] document_at_right [OF ok'] head_view [OF brs(1) b own] head_view [OF brs(2) b'(1) own'] l by simp
  qed
qed

text \<open>C13. A fork starts as its parent: whether the parent is named or the default branch is meant, and
  whether the fork's number is given or the parent's head is meant, every document of a new branch reads
  at its head what the parent has at the fork, and on the other branches everything reads as before. A
  number that is given is one of the parent's, which the engine does not check.\<close>

theorem fork_reads_parent:
  assumes "reached h i cd db p" and "createBranch db name parent fork = Inr (db', b)" and "fork_in_range db parent fork"
    and "getBranch db name = None" and "name \<noteq> DEFAULT_BRANCH"
  shows "document_at h i cd (db', p) (name, ident, k) None
      = document_at h i cd (db, p) (case parent of None \<Rightarrow> DEFAULT_BRANCH | Some n \<Rightarrow> n, ident, k) fork
    \<and> (\<forall>other seq. getBranch db other \<noteq> None \<longrightarrow>
         document_at h i cd (db', p) (other, ident, k) seq = document_at h i cd (db, p) (other, ident, k) seq)"
proof -
  let ?parent = "case parent of None \<Rightarrow> DEFAULT_BRANCH | Some n \<Rightarrow> n"
  have ok: "tables_ok h db" "cache_ok h i cd db p" using reached_ok [OF assms(1)] by simp_all
  have brs: "branches_ok db" using ok(1) by (simp add: tables_ok_def)
  obtain pb where pb: "getBranch db ?parent = Some pb" and db': "db' = forked db name ?parent (case fork of None \<Rightarrow> headSeq pb | Some s \<Rightarrow> s)"
    using createBranch_new [OF assms(2,4,5)] .
  define s where "s = (case fork of None \<Rightarrow> headSeq pb | Some s \<Rightarrow> s)"
  note db' = db' [folded s_def]
  have range: "createdSeq pb \<le> s" "s \<le> headSeq pb"
    using assms(3) pb branch_range [OF brs pb] unfolding fork_in_range_def s_def by (auto split: option.splits)
  have ok': "tables_ok h db'" unfolding db' by (rule forked_ok [OF ok(1) assms(4,5) pb range])
  have "cached_right h cd db' = cached_right h cd db" by (rule same_rows(5)) (simp add: db' forked_def)
  then have cache': "cache_ok h i cd db' p" using ok(2) by simp
  have neq: "name \<noteq> ?parent" using assms(4) pb by auto
  note view = view_forked [OF ok(1) assms(4) pb neq, where s = s and ident = ident and k = k, folded db']
  have "resolve_seq db ?parent fork = Inr s"
    using pb range branch_range [OF brs pb] unfolding s_def by (auto simp: resolve_seq_def Let_def split: option.splits)
  moreover have "resolve_seq db' name None = Inr s" using assms(4) by (simp add: resolve_seq_def db' forked_getBranch Let_def)
  ultimately have new: "read_history h db' ident k name None = read_history h db ident k ?parent fork"
    using view(1) by (simp add: read_history_def)
  have "read_history h db' ident k other seq = read_history h db ident k other seq" if "getBranch db other \<noteq> None" for other seq
  proof -
    have "resolve_seq db' other seq = resolve_seq db other seq" using that by (auto simp: resolve_seq_def db' forked_getBranch)
    moreover
    have "document_view h db' ident k other = document_view h db ident k other" by (rule ext) (rule view(2) [OF that])
    ultimately show ?thesis by (simp add: read_history_def)
  qed
  then show ?thesis using new by (simp add: document_at_right [OF ok] document_at_right [OF ok' cache'])
qed

text \<open>C14. Reading a revision returns the document right after its row, even where the commit that wrote it
  wrote the document again, and throws where there is no such row.\<close>

theorem revision_reads_exact:
  assumes "reached h i cd db p"
  shows "fst (readRevision h i cd db branch ident k seq opIndex p) = (case selectRevisionRow db (branch, ident, k) seq opIndex of
      None \<Rightarrow> Inl (NoSuchRevision ident seq opIndex)
    | Some row \<Rightarrow> run_rows h (Inr None) (filter (\<lambda>r. row_pos r \<le> (seq, opIndex)) (ledger db (branch, ident, k))))"
proof (cases "selectRevisionRow db (branch, ident, k) seq opIndex")
  case None
  then show ?thesis by (simp add: readRevision_def)
next
  case (Some row)
  have ok: "tables_ok h db" "cache_ok h i cd db p" using reached_ok [OF assms] by simp_all
  have row: "row_key row = (branch, ident, k)" "row_pos row = (seq, opIndex)"
    using Some by (auto simp: selectRevisionRow_def find_Some_iff doc_rows_def dest: nth_mem)
  obtain r p' where r: "readRevision h i cd db branch ident k seq opIndex p = (r, p')" by fastforce
  have "upto (rev_seq row) (rev_op_index row) = (\<lambda>r. row_pos r \<le> (seq, opIndex))"
    using row(2) by (auto simp: upto_pos row_pos_def fun_eq_iff)
  then show ?thesis using readRevision_right [OF ok r] r Some row(1) by (simp add: document_at_row_def after_def)
qed


text \<open>The tables as the statements of the conflict checks see them, comparing strings by equality.\<close>

definition conflict_store :: "doc_tables \<Rightarrow> store" where
  "conflict_store db = \<lparr>sqlEq = \<lambda>v s. v = FStr s, revisions = revision_rows db\<rparr>"

lemma conflict_rows:
  "document_rows (conflict_store db) (FStr branch) (FStr ident) k s = filter (\<lambda>r. s < rev_seq r) (doc_rows db (branch, ident, k))"
  by (auto simp: document_rows_def conflict_store_def doc_rows_def row_key_def intro: filter_cong)

lemma later_patches:
  assumes "selectSetDeleteConflict (conflict_store db) (FStr branch) (FStr ident) k s None = None"
  shows "rev (selectPatchConflicts (conflict_store db) (FStr branch) (FStr ident) k s None)
      = filter (\<lambda>r. s < rev_seq r) (ledger db (branch, ident, k))"
    and "list_all isPatchRevision (filter (\<lambda>r. s < rev_seq r) (ledger db (branch, ident, k)))"
proof -
  let ?L = "ledger db (branch, ident, k)"
  have "newest_first (filter (\<lambda>r. s < rev_seq r \<and> \<not> isPatchRevision r) (doc_rows db (branch, ident, k))) = []"
    using assms unfolding selectSetDeleteConflict_def conflict_rows by (simp add: outside_def split: list.splits)
  then have "set (newest_first (filter (\<lambda>r. s < rev_seq r \<and> \<not> isPatchRevision r) (doc_rows db (branch, ident, k)))) = {}" by simp
  then have "filter (\<lambda>r. s < rev_seq r \<and> \<not> isPatchRevision r) (doc_rows db (branch, ident, k)) = []"
    by (simp add: newest_first_def filter_empty_conv)
  then show patches: "list_all isPatchRevision (filter (\<lambda>r. s < rev_seq r) ?L)"
    by (auto simp: filter_empty_conv list_all_iff ledger_def)
  have "filter (\<lambda>r. s < rev_seq r \<and> isPatchRevision r) ?L = filter (\<lambda>r. s < rev_seq r) ?L"
    by (rule filter_cong) (use patches in \<open>auto simp: list_all_iff\<close>)
  then show "rev (selectPatchConflicts (conflict_store db) (FStr branch) (FStr ident) k s None) = filter (\<lambda>r. s < rev_seq r) ?L"
    using newest_first_ledger [of "\<lambda>r. s < rev_seq r \<and> isPatchRevision r" db "(branch, ident, k)"]
    unfolding selectPatchConflicts_def conflict_rows by (simp add: outside_def)
qed

lemma run_patches_replay:
  "list_all isPatchRevision rows \<Longrightarrow> run_rows h (Inr (Some base)) rows = Inr (Some head) \<Longrightarrow> replay h base rows = Inr head"
proof (induction rows arbitrary: base)
  case Nil
  then show ?case by (simp add: replay_def)
next
  case (Cons r rows)
  obtain ops where ops: "rev_operation r = RPatch ops" using Cons.prems(1) by (auto simp: isPatch_iff)
  have rest: "list_all isPatchRevision rows" using Cons.prems(1) by simp
  show ?case
  proof (cases "applyPatchToDocument h (Some base) ops")
    case (Inl e)
    then show ?thesis using Cons.prems(2) ops run_error [OF rest] by (simp add: run_row_def)
  next
    case (Inr d)
    then have "applyPatch h base ops = Inr d" by (auto simp: applyPatchToDocument_def result_simps split: if_splits)
    moreover have "replay h d rows = Inr head" using Cons.IH [OF rest, of d] Cons.prems(2) ops Inr by (simp add: run_row_def)
    ultimately show ?thesis using ops by (simp add: replay_def patches_of_def)
  qed
qed

lemma sorted_take: "in_order L \<Longrightarrow> L = filter (\<lambda>r. rev_seq r \<le> s) L @ filter (\<lambda>r. s < rev_seq r) L"
proof -
  assume L: "in_order L"
  have "L = filter (\<lambda>r. rev_seq r \<le> s) L @ filter (\<lambda>r. \<not> rev_seq r \<le> s) L"
    by (rule filter_split_sorted [OF L]) (auto simp: row_pos_def)
  then show ?thesis by (simp only: not_le)
qed


text \<open>A read that no stored write conflicts with reads the same at the head: the patches since neither
  insert into an array by index nor remove from one. The document is one of the default branch, or has
  rows of its own at the number read.\<close>

lemma unconflicted_read_current:
  assumes ok: "tables_ok h db" and readable: "readable_patches (conflict_store db)"
    and w: "conflicting_write (conflict_store db) (FStr branch) (FStr ident) k s readPath False None = None"
    and base: "read_history h db ident k branch (Some s) = Inr (Some base)"
    and head: "read_history h db ident k branch None = Inr (Some head)"
    and local: "branch = DEFAULT_BRANCH \<or> filter (\<lambda>r. rev_seq r \<le> s) (ledger db (branch, ident, k)) \<noteq> []"
    and along: "along h in_place_all base (filter (\<lambda>r. s < rev_seq r) (ledger db (branch, ident, k)))"
  shows "readAt head readPath = readAt base readPath"
proof -
  let ?L = "ledger db (branch, ident, k)"
  have brs: "branches_ok db" "rows_ok db" using ok by (simp_all add: tables_ok_def)
  obtain b where b: "getBranch db branch = Some b"
    using head by (cases "getBranch db branch") (simp_all add: read_history_def resolve_seq_def)
  have "resolve_seq db branch (Some s) = Inr s"
    using base b by (auto simp: read_history_def resolve_seq_def Let_def split: if_splits)
  then have view: "document_view h db ident k branch s = Inr (Some base)" using base by (simp add: read_history_def)
  have rows: "filter (\<lambda>r. rev_seq r \<le> s) ?L \<noteq> []"
  proof (cases "branch = DEFAULT_BRANCH")
    case True
    then have "parentBranch b = None" using default_has_no_parent [OF brs(1)] b by simp
    then show ?thesis using view b by (auto simp: document_view_def Let_def)
  qed (use local in simp)
  then have own: "?L \<noteq> [] \<or> parentBranch b = None" by auto
  have base': "run_rows h (Inr None) (filter (\<lambda>r. rev_seq r \<le> s) ?L) = Inr (Some base)"
    using view rows by (simp add: document_view_def Let_def)
  note free = unconflicted_rows [OF readable w]
  note later = later_patches [OF free(1)]
  have "run_rows h (Inr None) ?L = Inr (Some head)" using head unfolding head_view [OF brs(1) b own] .
  then have "run_rows h (Inr (Some base)) (filter (\<lambda>r. s < rev_seq r) ?L) = Inr (Some head)"
    using sorted_take [OF ledger_in_order [OF brs(2), of "(branch, ident, k)"], of s] base' by (metis run_rows_simps(3))
  then have replayed: "replay h base (filter (\<lambda>r. s < rev_seq r) ?L) = Inr head" by (rule run_patches_replay [OF later(2)])
  have quiet: "list_all (\<lambda>r. patchOverlapsRead (patches_of r) readPath = Inr False) (filter (\<lambda>r. s < rev_seq r) ?L)"
    using free(2) unfolding later(1) [symmetric] by simp
  have "readAt base readPath = readAt head readPath"
    by (rule replay_keeps [OF _ _ _ replayed along, where quiet = "\<lambda>ops. patchOverlapsRead ops readPath = Inr False"])
      (use quiet patch_keeps_read in auto)
  then show ?thesis ..
qed

section \<open>Forks and their parents\<close>

text \<open>C17. A patch on a fork forgets the parent: a commit on a branch to a document that had no rows of its
  own there leaves the document its rows make of nothing, whatever the branch inherited for it. A \<^verbatim>\<open>set\<close>
  is right all the same; a patch is replayed over the empty document.\<close>

theorem fork_patch_forgets_parent:
  assumes "reached h i cd db p" and "length operations \<le> MAX_SAFE_INTEGER"
    and "runAtomicCommit i (commit_operations h i cd meta branch who keys elided operations) db p = (Inr (seq, rows), db', p')"
    and "ledger db (branch, ident, k) = []" and "filter (\<lambda>r. row_key r = (branch, ident, k)) rows \<noteq> []"
  shows "document_at h i cd (db', p') (branch, ident, k) None
    = run_rows h (Inr None) (filter (\<lambda>r. row_key r = (branch, ident, k)) rows)"
proof -
  have ok: "tables_ok h db" "cache_ok h i cd db p" using reached_ok [OF assms(1)] by simp_all
  note c = commit_transaction_right [OF ok assms(2,3), simplified]
  have ok': "tables_ok h db'" "cache_ok h i cd db' p'" using c by (simp_all add: committed_def)
  have brs: "branches_ok db'" using ok' by (simp add: tables_ok_def)
  have committed: "committed h db branch rows db'" using c by simp
  obtain b where b: "getBranch db branch = Some b" using commit_branch [OF assms(3)] .
  obtain b' where b': "getBranch db' branch = Some b'"
    by (rule that [OF getBranch_committed [OF committed, of branch, unfolded b option.map]])
  have l: "ledger db' (branch, ident, k) = filter (\<lambda>r. row_key r = (branch, ident, k)) rows"
    using committed assms(4) unfolding committed_def by (metis append_Nil)
  have own: "ledger db' (branch, ident, k) \<noteq> [] \<or> parentBranch b' = None" using assms(5) unfolding l by blast
  show ?thesis unfolding document_at_right [OF ok'] head_view [OF brs b' own] l ..
qed

lemma no_rows:
  assumes "tables_ok h db" "getBranch db name = None"
  shows "ledger db (name, ident, k) = []"
proof (rule ccontr)
  assume "ledger db (name, ident, k) \<noteq> []"
  then have r: "hd (ledger db (name, ident, k)) \<in> set (revision_rows db)" "rev_branch (hd (ledger db (name, ident, k))) = name"
    using hd_in_set [of "ledger db (name, ident, k)"] by (auto simp: in_ledger row_key_def)
  then have "row_in_branch (branch_rows db) (hd (ledger db (name, ident, k)))" using assms(1) by (simp add: tables_ok_def branches_ok_iff)
  then have "name \<in> branch_name ` set (branch_rows db)" using r(2) by (auto simp: row_in_branch_def)
  then show False using assms(2) by (auto simp: getBranch_def find_None_iff)
qed

text \<open>C18. A fork past the head of its parent is accepted, and then no document it inherits can be read: the
  number is out of the range of the parent.\<close>

theorem fork_past_head_unreadable:
  assumes "reached h i cd db p" and "createBranch db name (Some parent) (Some s) = Inr (db', b)"
    and "getBranch db name = None" and "name \<noteq> DEFAULT_BRANCH" and "getBranch db parent = Some pb" and "headSeq pb < s"
  shows "document_at h i cd (db', p) (name, ident, k) None = Inl (SeqOutOfRange s parent)"
proof -
  have ok: "tables_ok h db" using reached_ok [OF assms(1)] by simp
  have db': "db' = forked db name parent s"
    using assms(2-5) by (auto simp: createBranch_def branch_of_def Let_def forked_def result_simps split: option.splits)
  have heads: "head_rows db' = head_rows db" by (simp add: db' forked_def)
  have "map_of (head_rows db) (name, ident, k) = None"
    using heads_newest [of db "(name, ident, k)"] ok no_rows [OF ok assms(3)] by (simp add: tables_ok_def first_row_def)
  then have none: "selectCurrentLocal db' (name, ident, k) = None" by (simp add: selectCurrentLocal_def heads)
  have n: "getBranch db' name = Some \<lparr>branch_name = name, parentBranch = Some parent, forkSeq = Some s, createdSeq = s, headSeq = s,
      branch_status = ''active''\<rparr>" using assms(3) by (simp add: db' forked_getBranch)
  have q: "getBranch db' parent = Some pb" using assms(5) by (simp add: db' forked_getBranch)
  obtain m where m: "length (branch_rows db') = Suc m" by (simp add: db' forked_def)
  have "read_row db' ident k name None = Inl (SeqOutOfRange s parent)"
    using n q none assms(6) by (simp add: read_row_def m branch_of_def Let_def)
  then show ?thesis by (simp add: document_at_def readDocument_def readState_def readStateForScopeKey_def Let_def)
qed

section \<open>An engine at work\<close>

definition demo_codec :: codec where
  "demo_codec = \<lparr>row_length = \<lambda>_. 2, row_bytes = \<lambda>_. 2, document_bytes = \<lambda>_. 2, growth = \<lambda>_ _. None\<rparr>"

definition demo_meta :: commit_meta where
  "demo_meta = \<lparr>cm_session = ''s'', cm_local_seq = 1, cm_class = ''authored'', cm_holder = None\<rparr>"

definition demo_op :: "rev_op \<Rightarrow> doc_operation" where
  "demo_op body = \<lparr>dop_id = ''d'', dop_scope = None, dop_body = body\<rparr>"

definition demo_row :: "string \<Rightarrow> nat \<Rightarrow> rev_op \<Rightarrow> revision" where
  "demo_row branch s body = \<lparr>rev_branch = branch, rev_id = ''d'', rev_scope_key = ''space'', rev_seq = s, rev_op_index = 0,
     rev_operation = body, rev_commit_seq = s, rev_session = ''s'', rev_local_seq = 1, rev_class = ''authored'', rev_holder = None\<rparr>"

definition set_a :: rev_op where "set_a = RSet (FObj [(''a'', FNull)])"

definition add_b :: rev_op where "add_b = RPatch [Add ''/b'' (FBool True)]"

definition default_row :: "nat \<Rightarrow> branch_row" where
  "default_row s = \<lparr>branch_name = DEFAULT_BRANCH, parentBranch = None, forkSeq = None, createdSeq = 0, headSeq = s, branch_status = ''active''\<rparr>"

definition fork_row :: "nat \<Rightarrow> branch_row" where
  "fork_row s = \<lparr>branch_name = ''f'', parentBranch = Some DEFAULT_BRANCH, forkSeq = Some 1, createdSeq = 1, headSeq = s, branch_status = ''active''\<rparr>"

definition demo_tables :: "revision list \<Rightarrow> (doc_key \<times> nat \<times> nat \<times> string) list \<Rightarrow> branch_row list \<Rightarrow> nat list \<Rightarrow> doc_tables" where
  "demo_tables rows heads bs seqs = \<lparr>revision_rows = rows, head_rows = heads, snapshot_rows = [], branch_rows = bs,
     commit_seqs = seqs, snapshotInterval = 0, snapshotRetention = 0\<rparr>"

definition written_once :: doc_tables where
  "written_once = demo_tables [demo_row '''' 1 set_a] [(('''', ''d'', ''space''), 1, 0, ''set'')] [default_row 1] [1]"

definition patched :: doc_tables where
  "patched = demo_tables [demo_row '''' 1 set_a, demo_row '''' 2 add_b] [(('''', ''d'', ''space''), 2, 0, ''patch'')] [default_row 2] [1, 2]"

definition branched :: doc_tables where
  "branched = demo_tables [demo_row '''' 1 set_a] [(('''', ''d'', ''space''), 1, 0, ''set'')] [default_row 1, fork_row 1] [1]"

definition patched_fork :: doc_tables where
  "patched_fork = demo_tables [demo_row '''' 1 set_a, demo_row ''f'' 2 add_b]
     [(('''', ''d'', ''space''), 1, 0, ''set''), ((''f'', ''d'', ''space''), 2, 0, ''patch'')] [default_row 1, fork_row 2] [1, 2]"

definition demo_commit :: "string \<Rightarrow> rev_op \<Rightarrow> doc_tables \<Rightarrow> (store_error + nat \<times> revision list) \<times> doc_tables \<times> process" where
  "demo_commit branch body db =
     runAtomicCommit 0 (commit_operations padding_host 0 demo_codec demo_meta branch nobody (\<lambda>_. None) [] [demo_op body]) db fresh_process"

lemma write_interval:
  "write_operations db meta branch seq who keys elided n operations = Inr (db', rows) \<Longrightarrow> snapshotInterval db' = snapshotInterval db"
proof (induction operations arbitrary: n db rows)
  case (Cons op operations)
  have one: "snapshotInterval db1 = snapshotInterval db" if "writeOperation db meta branch seq n op who (keys n) = Inr (db1, r)" for db1 r
    using that by (auto simp: writeOperation_def Let_def result_simps insertRevision_def upsertHead_def split: if_splits)
  show ?case using Cons.prems Cons.IH one by (auto simp: result_simps split: if_splits)
qed simp

lemma commit_without_snapshots:
  assumes "snapshotInterval db \<le> 0"
  shows "snd (commit_operations h i cd meta branch who keys elided operations db q) = q"
proof -
  let ?w = "write_operations (db\<lparr>commit_seqs := commit_seqs db @ [selectNextSeq db]\<rparr>) meta branch (selectNextSeq db) who keys elided 0 operations"
  have "materializeSnapshots h i cd (updateBranchHead db2 branch (selectNextSeq db)) branch rows q
      = (Inr (updateBranchHead db2 branch (selectNextSeq db)), q)" if "?w = Inr (db2, rows)" for db2 rows
    using write_interval [OF that] assms by (simp add: materializeSnapshots_def updateBranchHead_def)
  then show ?thesis by (cases ?w) (auto simp: commit_operations_def Let_def split: sum.split)
qed

lemma quiet_commit:
  assumes "\<And>q. fst (commit_operations padding_host 0 demo_codec demo_meta branch nobody (\<lambda>_. None) [] [demo_op body] db q) = Inr (x, db')"
    and "snapshotInterval db \<le> 0"
  shows "demo_commit branch body db = (Inr x, db', fresh_process)"
proof -
  have c: "commit_operations padding_host 0 demo_codec demo_meta branch nobody (\<lambda>_. None) [] [demo_op body] db q = (Inr (x, db'), q)" for q
    by (rule prod_eqI) (simp_all add: assms commit_without_snapshots)
  have "end_transaction 0 (set_cache 0 (small_cache\<lparr>stagedDocumentCache := Some [], inTransaction := True\<rparr>) fresh_process) = fresh_process"
    by (simp add: end_transaction_def set_cache_def fresh_process_def small_cache_def fun_eq_iff)
  moreover have "staged_entries (small_cache\<lparr>stagedDocumentCache := Some [], inTransaction := True\<rparr>) = []" by (simp add: staged_entries_def)
  moreover have "engine_caches fresh_process 0 = small_cache" "\<not> inTransaction small_cache" by (simp_all add: fresh_process_def small_cache_def)
  ultimately show ?thesis by (simp add: demo_commit_def runAtomicCommit_def c publish_def)
qed

lemma demo_commits:
  "demo_commit '''' set_a (opened_tables 0 0) = (Inr (1, [demo_row '''' 1 set_a]), written_once, fresh_process)"
  "demo_commit '''' add_b written_once = (Inr (2, [demo_row '''' 2 add_b]), patched, fresh_process)"
  "demo_commit ''f'' add_b branched = (Inr (2, [demo_row ''f'' 2 add_b]), patched_fork, fresh_process)"
  by (rule quiet_commit; code_simp)+

lemma demo_fits: "length [demo_op body] \<le> MAX_SAFE_INTEGER"
  by (simp add: MAX_SAFE_INTEGER_def)

lemma fresh_entries: "cache_entries i fresh_process = {}"
  by (simp add: cache_entries_def staged_entries_def fresh_process_def small_cache_def)

lemma demo_fork: "createBranch written_once ''f'' (Some DEFAULT_BRANCH) None = Inr (branched, fork_row 1)"
  by code_simp

lemma demo_reached:
  "reached padding_host 0 demo_codec (opened_tables 0 0) fresh_process" "reached padding_host 0 demo_codec written_once fresh_process"
  "reached padding_host 0 demo_codec patched fresh_process" "reached padding_host 0 demo_codec branched fresh_process"
  "reached padding_host 0 demo_codec patched_fork fresh_process"
proof -
  note commits = demo_commits [unfolded demo_commit_def]
  show o: "reached padding_host 0 demo_codec (opened_tables 0 0) fresh_process" by (rule reached.opened [OF fresh_entries])
  show w: "reached padding_host 0 demo_codec written_once fresh_process"
    by (rule reached.commit [OF o demo_fits commits(1)])
  show "reached padding_host 0 demo_codec patched fresh_process"
    by (rule reached.commit [OF w demo_fits commits(2)])
  show b: "reached padding_host 0 demo_codec branched fresh_process"
    by (rule reached.fork [OF w demo_fork]) (simp add: fork_in_range_def)
  show "reached padding_host 0 demo_codec patched_fork fresh_process"
    by (rule reached.commit [OF b demo_fits commits(3)])
qed

lemma demo_history:
  "read_history padding_host written_once ''d'' ''space'' '''' None = Inr (Some (FObj [(''a'', FNull)]))"
  "read_history padding_host patched ''d'' ''space'' '''' None = Inr (Some (FObj [(''a'', FNull), (''b'', FBool True)]))"
  "read_history padding_host patched ''d'' ''space'' '''' (Some 1) = Inr (Some (FObj [(''a'', FNull)]))"
  "read_history padding_host branched ''d'' ''space'' ''f'' None = Inr (Some (FObj [(''a'', FNull)]))"
  "read_history padding_host patched_fork ''d'' ''space'' ''f'' None = Inr (Some (FObj [(''b'', FBool True)]))"
  by code_simp+


lemma demo_scope: "asked_scope None nobody None = Inr ''space''" "asked_scope s who (Some k) = Inr k"
  by (simp_all add: asked_scope_def) code_simp

theorem reads_return_history_witness:
  "fst (readDocument padding_host 0 demo_codec patched ''d'' '''' None None nobody None fresh_process)
   = Inr (Some (FObj [(''a'', FNull), (''b'', FBool True)]))"
  using reads_return_history [OF demo_reached(3), of "''d''" "''''" None None nobody None] by (simp add: demo_scope demo_history)

theorem store_invariant_witness:
  "selectCurrentLocal patched ('''', ''d'', ''space'') = Some (demo_row '''' 2 add_b)"
proof -
  have "first_row (newest_first (doc_rows patched ('''', ''d'', ''space''))) = Some (demo_row '''' 2 add_b)" by code_simp
  then show ?thesis using store_invariant [OF demo_reached(3)] by simp
qed

theorem reads_return_witness:
  "fst (readDocument padding_host 0 demo_codec patched_fork ''d'' ''f'' None None nobody None fresh_process) \<noteq> Inl NoReturn"
  using reads_return [OF demo_reached(5), of "''d''" "''space''" "''f''" None None nobody None] ..

theorem commit_keeps_history_witness:
  "document_at padding_host 0 demo_codec (patched, fresh_process) ('''', ''d'', ''space'') (Some 1)
   = Inr (Some (FObj [(''a'', FNull)]))"
proof -
  have "resolve_seq written_once '''' (Some 1) = Inr 1" by code_simp
  moreover have "read_history padding_host written_once ''d'' ''space'' '''' (Some 1) = Inr (Some (FObj [(''a'', FNull)]))" by code_simp
  ultimately show ?thesis
    using commit_keeps_history [OF demo_reached(2) demo_fits demo_commits(2) [unfolded demo_commit_def]]
      reached_document [OF demo_reached(2), of "''''" "''d''" "''space''" "Some 1"] by simp
qed

theorem commit_reads_back_witness:
  "document_at padding_host 0 demo_codec (patched, fresh_process) ('''', ''d'', ''space'') None
   = run_rows padding_host (Inr (Some (FObj [(''a'', FNull)]))) [demo_row '''' 2 add_b]"
  using commit_reads_back [OF demo_reached(2) demo_fits demo_commits(2) [unfolded demo_commit_def], of "''''" "''d''" "''space''"]
    reached_document [OF demo_reached(2), of "''''" "''d''" "''space''" None]
  by (simp add: DEFAULT_BRANCH_def demo_history demo_row_def row_key_def)

theorem fork_reads_parent_witness:
  "\<exists>db b. createBranch patched ''g'' None (Some 1) = Inr (db, b)
     \<and> document_at padding_host 0 demo_codec (db, fresh_process) (''g'', ''d'', ''space'') None = Inr (Some (FObj [(''a'', FNull)]))"
proof -
  have "case createBranch patched ''g'' None (Some 1) of Inl e \<Rightarrow> False | Inr r \<Rightarrow> True" by code_simp
  then obtain db b where c: "createBranch patched ''g'' None (Some 1) = Inr (db, b)" by (auto split: sum.splits)
  have new: "getBranch patched ''g'' = None" "''g'' \<noteq> DEFAULT_BRANCH" by code_simp+
  have "getBranch patched DEFAULT_BRANCH = Some (default_row 2)" by code_simp
  then have range: "fork_in_range patched None (Some 1)" by (simp add: fork_in_range_def default_row_def)
  have "document_at padding_host 0 demo_codec (db, fresh_process) (''g'', ''d'', ''space'') None
      = document_at padding_host 0 demo_codec (patched, fresh_process) ('''', ''d'', ''space'') (Some 1)"
    using fork_reads_parent [OF demo_reached(3) c range new, of "''d''" "''space''"] by (simp add: DEFAULT_BRANCH_def)
  then show ?thesis using c reached_document [OF demo_reached(3), of "''''" "''d''" "''space''" "Some 1"] demo_history(3) by simp
qed

theorem revision_reads_exact_witness:
  "fst (readRevision padding_host 0 demo_codec patched '''' ''d'' ''space'' 1 0 fresh_process) = Inr (Some (FObj [(''a'', FNull)]))"
proof -
  have "selectRevisionRow patched ('''', ''d'', ''space'') 1 0 = Some (demo_row '''' 1 set_a)" by code_simp
  moreover have "run_rows padding_host (Inr None) (filter (\<lambda>r. row_pos r \<le> (1, 0)) (ledger patched ('''', ''d'', ''space'')))
      = Inr (Some (FObj [(''a'', FNull)]))" by code_simp
  ultimately show ?thesis using revision_reads_exact [OF demo_reached(3), of "''''" "''d''" "''space''" 1 0] by simp
qed

theorem fork_patch_forgets_parent_witness:
  "document_at padding_host 0 demo_codec (branched, fresh_process) (''f'', ''d'', ''space'') None = Inr (Some (FObj [(''a'', FNull)]))
   \<and> document_at padding_host 0 demo_codec (patched_fork, fresh_process) (''f'', ''d'', ''space'') None = Inr (Some (FObj [(''b'', FBool True)]))"
proof
  show "document_at padding_host 0 demo_codec (branched, fresh_process) (''f'', ''d'', ''space'') None = Inr (Some (FObj [(''a'', FNull)]))"
    using reached_document [OF demo_reached(4)] demo_history(4) by simp
  have "ledger branched (''f'', ''d'', ''space'') = []" by code_simp
  moreover have "filter (\<lambda>r. row_key r = (''f'', ''d'', ''space'')) [demo_row ''f'' 2 add_b] = [demo_row ''f'' 2 add_b]" by code_simp
  moreover have "run_rows padding_host (Inr None) [demo_row ''f'' 2 add_b] = Inr (Some (FObj [(''b'', FBool True)]))" by code_simp
  ultimately show "document_at padding_host 0 demo_codec (patched_fork, fresh_process) (''f'', ''d'', ''space'') None = Inr (Some (FObj [(''b'', FBool True)]))"
    using fork_patch_forgets_parent [OF demo_reached(4) demo_fits demo_commits(3) [unfolded demo_commit_def], of "''d''" "''space''"]
    by simp
qed

theorem fork_past_head_unreadable_witness:
  "\<exists>db' b. createBranch written_once ''g'' (Some '''') (Some 5) = Inr (db', b)
     \<and> document_at padding_host 0 demo_codec (db', fresh_process) (''g'', ''d'', ''space'') None = Inl (SeqOutOfRange 5 '''')"
proof -
  have g: "getBranch written_once ''g'' = None" "''g'' \<noteq> DEFAULT_BRANCH" "getBranch written_once '''' = Some (default_row 1)" by code_simp+
  have c: "createBranch written_once ''g'' (Some '''') (Some 5) = Inr (forked written_once ''g'' '''' 5,
      \<lparr>branch_name = ''g'', parentBranch = Some '''', forkSeq = Some 5, createdSeq = 5, headSeq = 5, branch_status = ''active''\<rparr>)"
    by code_simp
  have "headSeq (default_row 1) < 5" by (simp add: default_row_def)
  then show ?thesis using fork_past_head_unreadable [OF demo_reached(2) c g] c by blast
qed

end
