(* ===== verification/IdentityCommit.thy ===== *)
theory IdentityCommit
  imports EngineProperties
begin

text \<open>
  The read validation a commit goes through in \<^verbatim>\<open>applyCommitTransaction\<close>, with the escape of an
  identity commit: when a read turns out stale, the commit is still accepted if what it writes is what
  the documents hold already, and then nothing of it is written. Documents are read through the cache,
  so a step here is a function of the process that returns the process it leaves. The identity of a
  document is proved from the reader's view of it, rebuilt from the layers its pending read names.
\<close>

section \<open>Steps that read\<close>

type_synonym 'a reading = "process \<Rightarrow> (store_error + 'a) \<times> process"

definition returnP :: "'a \<Rightarrow> 'a reading" where "returnP x p = (Inr x, p)"

definition throwP :: "store_error \<Rightarrow> 'a reading" where "throwP e p = (Inl e, p)"

definition liftP :: "store_error + 'a \<Rightarrow> 'a reading" where "liftP r p = (r, p)"

definition bindP :: "'a reading \<Rightarrow> ('a \<Rightarrow> 'b reading) \<Rightarrow> 'b reading" where
  "bindP m f p = (case m p of (Inl e, p') \<Rightarrow> (Inl e, p') | (Inr x, p') \<Rightarrow> f x p')"

definition catchP :: "'a reading \<Rightarrow> 'a \<Rightarrow> 'a reading" where
  "catchP m x p = (case m p of (Inl e, p') \<Rightarrow> (Inr x, p') | (Inr y, p') \<Rightarrow> (Inr y, p'))"

text \<open>A step whose result the cache does not decide, and a step that besides keeps what a transaction
  relies on.\<close>

definition blind :: "host \<Rightarrow> nat \<Rightarrow> codec \<Rightarrow> doc_tables \<Rightarrow> 'a reading \<Rightarrow> bool" where
  "blind h i cd db m \<longleftrightarrow> (\<forall>p q. cache_ok h i cd db p \<longrightarrow> cache_ok h i cd db q \<longrightarrow> fst (m p) = fst (m q))"

definition steady :: "host \<Rightarrow> nat \<Rightarrow> codec \<Rightarrow> doc_tables \<Rightarrow> 'a reading \<Rightarrow> bool" where
  "steady h i cd db m \<longleftrightarrow> blind h i cd db m
     \<and> (\<forall>p r p'. cache_ok h i cd db p \<longrightarrow> m p = (r, p') \<longrightarrow> cache_ok h i cd db p' \<and> keeps i p p')"

named_theorems steady_intros \<open>steps that keep the cache\<close>

lemma steadyD: "steady h i cd db m \<Longrightarrow> cache_ok h i cd db p \<Longrightarrow> m p = (r, p') \<Longrightarrow> cache_ok h i cd db p' \<and> keeps i p p'"
  unfolding steady_def by blast

lemma steady_blind: "steady h i cd db m \<Longrightarrow> blind h i cd db m"
  by (simp add: steady_def)

lemma blindD: "blind h i cd db m \<Longrightarrow> cache_ok h i cd db p \<Longrightarrow> cache_ok h i cd db q \<Longrightarrow> fst (m p) = fst (m q)"
  unfolding blind_def by blast

lemma steady_basic [steady_intros]:
  "steady h i cd db (returnP x)" "steady h i cd db (throwP e)" "steady h i cd db (liftP r)"
  by (simp_all add: steady_def blind_def returnP_def throwP_def liftP_def)

lemma bindP_Inr: "bindP m f p = (Inr y, p') \<longleftrightarrow> (\<exists>x q. m p = (Inr x, q) \<and> f x q = (Inr y, p'))"
  by (auto simp: bindP_def split: prod.splits sum.splits)

lemma catchP_Inr: "catchP m x p = (Inr y, p') \<longleftrightarrow> m p = (Inr y, p') \<or> (\<exists>e. m p = (Inl e, p') \<and> y = x)"
  by (auto simp: catchP_def split: prod.splits sum.splits)

lemma basicP_Inr [simp]:
  "returnP x p = (Inr y, p') \<longleftrightarrow> y = x \<and> p' = p" "throwP e p = (Inr y, p') \<longleftrightarrow> False"
  "liftP r p = (Inr y, p') \<longleftrightarrow> r = Inr y \<and> p' = p"
  by (auto simp: returnP_def throwP_def liftP_def)

lemma blind_bind:
  assumes "steady h i cd db m" "\<And>x. blind h i cd db (f x)"
  shows "blind h i cd db (bindP m f)"
  unfolding blind_def
proof (intro allI impI)
  fix p q assume ok: "cache_ok h i cd db p" "cache_ok h i cd db q"
  obtain x p' y q' where m: "m p = (x, p')" "m q = (y, q')" by fastforce
  have "x = y" using blindD [OF steady_blind [OF assms(1)] ok] m by simp
  moreover have c: "cache_ok h i cd db p'" "cache_ok h i cd db q'" using steadyD [OF assms(1)] ok m by blast+
  have "fst (f a p') = fst (f a q')" for a by (rule blindD [OF assms(2) c])
  ultimately show "fst (bindP m f p) = fst (bindP m f q)" using m by (cases y) (simp_all add: bindP_def)
qed

lemma steady_bind [steady_intros]:
  assumes "steady h i cd db m" "\<And>x. steady h i cd db (f x)"
  shows "steady h i cd db (bindP m f)"
  unfolding steady_def
proof (intro conjI [of "blind _ _ _ _ _"] blind_bind allI impI)
  show "steady h i cd db m" by (rule assms(1))
  show "blind h i cd db (f x)" for x by (rule steady_blind [OF assms(2)])
next
  fix p r p'
  assume ok: "cache_ok h i cd db p" and r: "bindP m f p = (r, p')"
  obtain x q where x: "m p = (x, q)" by fastforce
  note first = steadyD [OF assms(1) ok x]
  show "cache_ok h i cd db p' \<and> keeps i p p'"
  proof (cases x)
    case (Inl e)
    then show ?thesis using r x first by (simp add: bindP_def)
  next
    case (Inr a)
    then have "f a q = (r, p')" using r x by (simp add: bindP_def)
    then have "cache_ok h i cd db p' \<and> keeps i q p'" using steadyD [OF assms(2)] first by blast
    then show ?thesis using first keeps_trans by blast
  qed
qed

lemma steady_catch [steady_intros]:
  assumes "steady h i cd db m"
  shows "steady h i cd db (catchP m x)"
  unfolding steady_def
proof (intro conjI allI impI)
  have "fst (catchP m x p) = (case fst (m p) of Inl e \<Rightarrow> Inr x | Inr y \<Rightarrow> Inr y)" for p
    by (simp add: catchP_def split: prod.split sum.split)
  then show "blind h i cd db (catchP m x)" using blindD [OF steady_blind [OF assms]] unfolding blind_def by metis
next
  fix p r p' assume "cache_ok h i cd db p" "catchP m x p = (r, p')"
  moreover from this have "\<exists>y. m p = (y, p')" by (auto simp: catchP_def split: prod.splits sum.splits)
  ultimately show "cache_ok h i cd db p'" "keeps i p p'" using steadyD [OF assms] by blast+
qed

lemma steady_if [steady_intros]:
  "(b \<Longrightarrow> steady h i cd db m) \<Longrightarrow> (\<not> b \<Longrightarrow> steady h i cd db n) \<Longrightarrow> steady h i cd db (if b then m else n)"
  by simp

lemma steady_option [steady_intros]:
  "(x = None \<Longrightarrow> steady h i cd db m) \<Longrightarrow> (\<And>y. x = Some y \<Longrightarrow> steady h i cd db (f y))
    \<Longrightarrow> steady h i cd db (case x of None \<Rightarrow> m | Some y \<Rightarrow> f y)"
  by (cases x) auto

lemma steady_sum [steady_intros]:
  "(\<And>e. x = Inl e \<Longrightarrow> steady h i cd db (g e)) \<Longrightarrow> (\<And>y. x = Inr y \<Longrightarrow> steady h i cd db (f y))
    \<Longrightarrow> steady h i cd db (case x of Inl e \<Rightarrow> g e | Inr y \<Rightarrow> f y)"
  by (cases x) auto

lemma readDocument_steady [steady_intros]:
  assumes "tables_ok h db"
  shows "steady h i cd db (readDocument h i cd db ident branch seq scope who explicitScopeKey)"
  unfolding steady_def
proof (intro conjI [of "blind _ _ _ _ _"] allI impI)
  show "blind h i cd db (readDocument h i cd db ident branch seq scope who explicitScopeKey)"
    unfolding blind_def using readDocument_right [OF assms] by simp
next
  fix p r p'
  assume ok: "cache_ok h i cd db p" and r: "readDocument h i cd db ident branch seq scope who explicitScopeKey p = (r, p')"
  then obtain r0 where "readState h i cd db ident branch seq scope who explicitScopeKey p = (r0, p')"
    by (auto simp: readDocument_def split: prod.splits)
  then have "p' = p \<or> (\<exists>s k r'. readStateForScopeKey h i cd db ident s k branch seq p = (r', p'))"
    by (auto simp: readState_def Let_def split: option.splits sum.splits)
  then show "cache_ok h i cd db p' \<and> keeps i p p'"
  proof (elim disjE exE)
    fix s k r'
    assume "readStateForScopeKey h i cd db ident s k branch seq p = (r', p')"
    then show ?thesis using read_history_right [OF assms ok] keeps_read by blast
  qed (use ok in simp)
qed

lemma readDocument_history:
  assumes "tables_ok h db" "cache_ok h i cd db p"
    and "readDocument h i cd db ident branch seq scope who (Some k) p = (Inr d, p')"
  shows "read_history h db ident k branch seq = Inr d"
  using readDocument_right [OF assms(1,2), of ident branch seq scope who "Some k"] assms(3) by (simp add: asked_scope_def)

section \<open>Commits as clients send them and as they are stored\<close>

text \<open>A commit of \<^verbatim>\<open>set\<close>, \<^verbatim>\<open>patch\<close> and \<^verbatim>\<open>delete\<close> operations; \<open>cc_rest\<close> is what the engine stores of
  it and compares, and does not look into.\<close>

datatype precondition =
    OriginCommitted wire_number
  | EntityAbsent string "cell_scope option"
  | EntityValueHash string "cell_scope option" fval
  | OtherPrecondition

record client_commit =
  cc_localSeq :: int
  cc_branch :: "string option"
  cc_operations :: "doc_operation list"
  cc_confirmed :: "confirmed_read list"
  cc_pending :: "pending_read list"
  cc_preconditions :: "precondition list"
  cc_rest :: fval

record stored_commit =
  sc_seq :: nat
  sc_branch :: string
  sc_session :: string
  sc_local_seq :: int
  sc_class :: string
  sc_holder :: "string option"
  sc_original :: client_commit
  sc_resolved :: "(int \<times> nat) list"

definition selectExistingCommit :: "stored_commit list \<Rightarrow> string \<Rightarrow> int \<Rightarrow> stored_commit option" where
  "selectExistingCommit rows session localSeq = find (\<lambda>c. sc_session c = session \<and> sc_local_seq c = localSeq) rows"

text \<open>The tables as the read validation sees them.\<close>

definition layer_of :: "client_commit \<Rightarrow> layer" where
  "layer_of c = \<lparr>l_operations = map (\<lambda>op. \<lparr>lo_op = op_name (dop_body op), lo_id = dop_id op, lo_scope = dop_scope op\<rparr>) (cc_operations c),
     l_confirmed = cc_confirmed c, l_pending = cc_pending c\<rparr>"

definition read_engine :: "doc_tables \<Rightarrow> stored_commit list \<Rightarrow> engine" where
  "read_engine db rows = \<lparr>tables = conflict_store db, branches = map branch_name (branch_rows db),
     commits = map (\<lambda>c. \<lparr>c_session = sc_session c, c_local_seq = sc_local_seq c, c_seq = sc_seq c, c_branch = sc_branch c,
        c_original = layer_of (sc_original c)\<rparr>) rows,
     serverSeq = int (selectNextSeq db) - 1\<rparr>"

section \<open>Identity commits\<close>

text \<open>The operations of a commit on one document, replayed on a document of it.\<close>

fun replay_operations :: "host \<Rightarrow> fval option \<Rightarrow> doc_operation list \<Rightarrow> store_error + fval option" where
  "replay_operations h document [] = Inr document"
| "replay_operations h document (operation # operations) =
     (case dop_body operation of
        RSet v \<Rightarrow> replay_operations h (Some v) operations
      | RPatch ops \<Rightarrow>
          (case applyPatchToDocument h document ops of
             Inl e \<Rightarrow> Inl (ReplayFailed e)
           | Inr d \<Rightarrow> replay_operations h (Some d) operations)
      | RDelete \<Rightarrow> replay_operations h None operations)"

definition COMPACTION_SESSION_PREFIX :: string where "COMPACTION_SESSION_PREFIX = ''compaction:''"

definition selectOldestRevisionAttribution :: "doc_tables \<Rightarrow> doc_key \<Rightarrow> (nat \<times> string \<times> string) option" where
  "selectOldestRevisionAttribution db key =
     map_option (\<lambda>r. (rev_seq r, rev_class r, rev_session r)) (first_row (sort_key row_pos (doc_rows db key)))"

definition historyCompactedBelow :: "doc_tables \<Rightarrow> doc_key \<Rightarrow> nat \<Rightarrow> bool" where
  "historyCompactedBelow db key basisSeq =
     (case selectOldestRevisionAttribution db key of
        None \<Rightarrow> False
      | Some (s, class, session) \<Rightarrow> basisSeq < s \<and> class = ''system'' \<and> startsWith session COMPACTION_SESSION_PREFIX)"

definition same_document :: "doc_operation \<Rightarrow> string \<Rightarrow> cell_scope option \<Rightarrow> bool" where
  "same_document first ident scope \<longleftrightarrow> ident = dop_id first \<and> scope_of scope = scope_of (dop_scope first)"

text \<open>The own layers a pending read names, replayed on its basis; nothing where a layer is not there or
  is on another branch.\<close>

fun replay_layers ::
    "host \<Rightarrow> stored_commit list \<Rightarrow> string \<Rightarrow> string \<Rightarrow> doc_operation \<Rightarrow> fval option \<Rightarrow> int list
       \<Rightarrow> store_error + fval option option" where
  "replay_layers h rows session branch first document [] = Inr (Some document)"
| "replay_layers h rows session branch first document (localSeq # layers) =
     (case selectExistingCommit rows session localSeq of
        None \<Rightarrow> Inr None
      | Some row \<Rightarrow>
          if (if sc_branch row = [] then DEFAULT_BRANCH else sc_branch row) \<noteq> branch then Inr None
          else bindR (replay_operations h document
                 (filter (\<lambda>op. same_document first (dop_id op) (dop_scope op)) (cc_operations (sc_original row)))) (\<lambda>document'.
               replay_layers h rows session branch first document' layers))"

text \<open>The number a branch was created at; a branch without a row has none, and nothing is after it.\<close>

definition branchCreatedSeq :: "doc_tables \<Rightarrow> string \<Rightarrow> nat option" where
  "branchCreatedSeq db branch = (if branch = DEFAULT_BRANCH then Some 0 else map_option createdSeq (getBranch db branch))"

definition before_creation :: "nat \<Rightarrow> nat option \<Rightarrow> bool" where
  "before_creation s created = (case created of None \<Rightarrow> True | Some c \<Rightarrow> s < c)"

text \<open>The document as the commit's read of it saw it, or nothing where that cannot be rebuilt. \<open>at\<close> reads
  the document at a number.\<close>

definition documentAt :: "(nat option \<Rightarrow> fval option reading) \<Rightarrow> nat \<Rightarrow> fval option reading" where
  "documentAt at s = (if s = 0 then returnP None else at (Some s))"

definition basisOf ::
    "host \<Rightarrow> doc_tables \<Rightarrow> stored_commit list \<Rightarrow> string \<Rightarrow> string \<Rightarrow> nat option \<Rightarrow> client_commit \<Rightarrow> doc_operation \<Rightarrow> fval
       \<Rightarrow> (nat option \<Rightarrow> fval option reading) \<Rightarrow> string \<Rightarrow> fval option option reading" where
  "basisOf h db rows session branch created commit first stored at scopeKey =
     (let compactedBelow = historyCompactedBelow db (branch, dop_id first, scopeKey) in
      case find (\<lambda>r. same_document first (pr_id r) (pr_scope r)) (cc_pending commit) of
        Some pending \<Rightarrow>
          (case pr_basisSeq pending of
             None \<Rightarrow> returnP None
           | Some w \<Rightarrow>
               if before_creation (seq_of w) created then returnP None
               else if compactedBelow (seq_of w) then returnP None
               else
                 bindP (documentAt at (seq_of w)) (\<lambda>document.
                 bindP (liftP (liftR ReadsRefused (pendingReadLayers pending))) (\<lambda>layers.
                   liftP (replay_layers h rows session branch first document (sort layers)))))
      | None \<Rightarrow>
          (case find (\<lambda>r. same_document first (cr_id r) (cr_scope r)
                          \<and> (case cr_branch r of Some b \<Rightarrow> b | None \<Rightarrow> branch) = branch) (cc_confirmed commit) of
             None \<Rightarrow> returnP (Some (Some stored))
           | Some confirmed \<Rightarrow>
               if before_creation (seq_of (cr_seq confirmed)) created then returnP None
               else if compactedBelow (seq_of (cr_seq confirmed)) then returnP None
               else bindP (documentAt at (seq_of (cr_seq confirmed))) (\<lambda>document. returnP (Some document))))"

text \<open>The operations of a commit by the document they name, in order; nothing where one of them keeps the
  commit from being an identity.\<close>

definition opDocKey :: "(nat \<Rightarrow> string option) \<Rightarrow> scope_identity \<Rightarrow> nat \<Rightarrow> doc_operation \<Rightarrow> store_error + string" where
  "opDocKey keys who opIndex operation =
     bindR (case keys opIndex of
              Some k \<Rightarrow> Inr k
            | None \<Rightarrow> liftR ScopeUnresolved (resolveScopeKey (dop_scope operation) who)) (\<lambda>k.
       Inr (dop_id operation @ CHR ''|'' # k))"

type_synonym doc_ops = "(string \<times> nat \<times> doc_operation list) list"

fun add_operation :: "string \<Rightarrow> nat \<Rightarrow> doc_operation \<Rightarrow> doc_ops \<Rightarrow> doc_ops" where
  "add_operation key opIndex operation [] = [(key, opIndex, [operation])]"
| "add_operation key opIndex operation ((key', i, operations) # groups) =
     (if key' = key then (key', i, operations @ [operation]) # groups
      else (key', i, operations) # add_operation key opIndex operation groups)"

fun byDocument ::
    "(nat \<Rightarrow> string option) \<Rightarrow> scope_identity \<Rightarrow> nat list \<Rightarrow> nat \<Rightarrow> doc_ops \<Rightarrow> doc_operation list \<Rightarrow> store_error + doc_ops option" where
  "byDocument keys who elided opIndex groups [] = Inr (Some groups)"
| "byDocument keys who elided opIndex groups (operation # operations) =
     (if dop_body operation = RDelete then Inr None
      else if startsWith (dop_id operation) ''of:did:'' then Inr None
      else if startsWith (dop_id operation) ''cid:'' then
        if opIndex \<notin> set elided then Inr None
        else byDocument keys who elided (Suc opIndex) groups operations
      else
        bindR (opDocKey keys who opIndex operation) (\<lambda>key.
          byDocument keys who elided (Suc opIndex) (add_operation key opIndex operation groups) operations))"

definition content_equal :: "host \<Rightarrow> fval option \<Rightarrow> fval \<Rightarrow> store_error + bool" where
  "content_equal h a b = liftR HashFailed (valueEqual h (case a of None \<Rightarrow> FUndefined | Some v \<Rightarrow> v) b)"

text \<open>The identity of one document: the operations lead from the reader's view to what is stored, and leave
  what is stored as it is. A client that promotes an elided layer to what it computed needs the first
  alone. Whatever throws in the proof proves nothing.\<close>

definition proves_identity ::
    "host \<Rightarrow> fval \<Rightarrow> bool \<Rightarrow> doc_operation list \<Rightarrow> fval option option reading \<Rightarrow> bool reading" where
  "proves_identity h stored elidedVerdicts operations basis =
     catchP
       (bindP basis (\<lambda>view. case view of
          None \<Rightarrow> returnP False
        | Some document \<Rightarrow>
            bindP (liftP (bindR (replay_operations h document operations) (\<lambda>fromBasis. content_equal h fromBasis stored))) (\<lambda>same.
              if \<not> same then returnP False
              else if elidedVerdicts then returnP True
              else liftP (bindR (replay_operations h (Some stored) operations) (\<lambda>onStored. content_equal h onStored stored)))))
       False"

fun every_identity ::
    "host \<Rightarrow> nat \<Rightarrow> codec \<Rightarrow> doc_tables \<Rightarrow> stored_commit list \<Rightarrow> string \<Rightarrow> string \<Rightarrow> nat option \<Rightarrow> client_commit
       \<Rightarrow> (nat \<Rightarrow> string option) \<Rightarrow> scope_identity \<Rightarrow> bool \<Rightarrow> doc_ops \<Rightarrow> bool reading" where
  "every_identity h i cd db rows session branch created commit keys who elidedVerdicts [] = returnP True"
| "every_identity h i cd db rows session branch created commit keys who elidedVerdicts ((_, opIndex, operations) # groups) =
     (let first = hd operations in
      bindP (liftP (case keys opIndex of
               Some k \<Rightarrow> Inr k
             | None \<Rightarrow> liftR ScopeUnresolved (resolveScopeKey (dop_scope first) who))) (\<lambda>scopeKey.
      let at = (\<lambda>seq. readDocument h i cd db (dop_id first) branch seq (dop_scope first) who (Some scopeKey)) in
      bindP (at None) (\<lambda>stored. case stored of
          None \<Rightarrow> returnP False
        | Some document \<Rightarrow>
            bindP (proves_identity h document elidedVerdicts operations
                (basisOf h db rows session branch created commit first document at scopeKey)) (\<lambda>same.
              if same then every_identity h i cd db rows session branch created commit keys who elidedVerdicts groups
              else returnP False))))"

definition isIdentityCommit ::
    "host \<Rightarrow> nat \<Rightarrow> codec \<Rightarrow> doc_tables \<Rightarrow> stored_commit list \<Rightarrow> string \<Rightarrow> string \<Rightarrow> client_commit
       \<Rightarrow> (nat \<Rightarrow> string option) \<Rightarrow> scope_identity \<Rightarrow> bool \<Rightarrow> nat list \<Rightarrow> bool reading" where
  "isIdentityCommit h i cd db rows session branch commit keys who elidedVerdicts elided =
     (if cc_operations commit = [] then returnP False
      else
        bindP (liftP (byDocument keys who elided 0 [] (cc_operations commit))) (\<lambda>groups. case groups of
          None \<Rightarrow> returnP False
        | Some documents \<Rightarrow>
            every_identity h i cd db rows session branch (branchCreatedSeq db branch) commit keys who elidedVerdicts documents))"

section \<open>The validation of a commit's reads\<close>

text \<open>An error that carries a conflict is a staleness refusal.\<close>

fun staleness :: "commit_error \<Rightarrow> bool" where
  "staleness (StaleConfirmed _) = True"
| "staleness (StalePending _) = True"
| "staleness _ = False"

definition checkedReads ::
    "engine \<Rightarrow> string \<Rightarrow> string \<Rightarrow> scope_identity \<Rightarrow> client_commit \<Rightarrow> commit_error + (int \<times> nat) list" where
  "checkedReads engine session branch who commit =
     bindR (validateConfirmedReads engine (\<lambda>_. None) branch (cc_confirmed commit) who) (\<lambda>scans.
       resolvePendingReads engine scans session who branch (cc_pending commit) True)"

definition validateReads ::
    "host \<Rightarrow> nat \<Rightarrow> codec \<Rightarrow> doc_tables \<Rightarrow> stored_commit list \<Rightarrow> string \<Rightarrow> string \<Rightarrow> client_commit
       \<Rightarrow> (nat \<Rightarrow> string option) \<Rightarrow> scope_identity \<Rightarrow> bool \<Rightarrow> nat list \<Rightarrow> (nat list \<times> (int \<times> nat) list) reading" where
  "validateReads h i cd db rows session branch commit keys who elidedVerdicts elided =
     (let engine = read_engine db rows in
      bindP (liftP (liftR ReadsRefused (checkReads engine (cc_confirmed commit) (cc_pending commit)))) (\<lambda>_.
        case checkedReads engine session branch who commit of
          Inr resolutions \<Rightarrow> returnP (elided, resolutions)
        | Inl e \<Rightarrow>
            if \<not> staleness e then throwP (ReadsRefused e)
            else
              bindP (isIdentityCommit h i cd db rows session branch commit keys who elidedVerdicts elided) (\<lambda>identity.
                if \<not> identity then throwP (ReadsRefused e)
                else
                  bindP (liftP (liftR ReadsRefused
                      (resolvePendingReads engine (\<lambda>_. None) session who branch (cc_pending commit) False))) (\<lambda>resolutions.
                    returnP ([0..<length (cc_operations commit)], resolutions)))))"

end
