(* ===== verification/AppliedCommit.thy ===== *)
theory AppliedCommit
  imports IdentityCommit
begin

text \<open>
  A commit from its submission to its answer (\<^verbatim>\<open>applyCommitTransaction\<close>, inside \<^verbatim>\<open>runAtomicCommit\<close>): a
  commit the session already applied is answered from the store, and a new one is admitted, checked
  against its preconditions, against the content its \<^verbatim>\<open>cid:\<close> documents must have and against its reads,
  and then written. Commits that carry event appends, act for another principal or write operation
  fields are outside the model; the checks left out, of the schema and label documents a commit refers
  to, only refuse. The parameter \<open>wire\<close> stands for the text a commit and a value are encoded to.
\<close>

section \<open>Submissions\<close>

record wire =
  encode_commit :: "client_commit \<Rightarrow> string"
  encode_value :: "fval \<Rightarrow> string"

record annotation =
  an_op :: nat
  an_scopeKey :: "string option"

record commit_options =
  co_sessionId :: string
  co_principal :: "string option"
  co_space :: "string option"
  co_class :: string
  co_holder :: "string option"
  co_annotations :: "annotation list option"
  co_allowEmptyOperations :: bool
  co_elidedVerdicts :: bool
  co_serverExecution :: bool \<comment> \<open>\<^verbatim>\<open>getServerExecutionConfig()\<close>\<close>
  co_leaseHolder :: "string option" \<comment> \<open>\<^verbatim>\<open>executionLeases.holderOf(space)\<close>\<close>

record applied_commit =
  ap_seq :: nat
  ap_branch :: string
  ap_revisions :: "revision list"
  ap_elided :: "nat list"
  ap_replayed :: bool

definition resolveCommitSessionKey :: "string \<Rightarrow> string option \<Rightarrow> store_error + string" where
  "resolveCommitSessionKey session whom =
     (if missing whom then Inr session
      else liftR ScopeUnresolved (resolvePrincipalSessionKey (the whom) session))"

section \<open>Replays\<close>

definition selectCommitRevisions :: "doc_tables \<Rightarrow> nat \<Rightarrow> revision list" where
  "selectCommitRevisions db s = sort_key rev_op_index (filter (\<lambda>r. rev_commit_seq r = s) (revision_rows db))"

definition sameStoredOriginal :: "wire \<Rightarrow> client_commit \<Rightarrow> client_commit \<Rightarrow> bool" where
  "sameStoredOriginal wr stored incoming \<longleftrightarrow> encode_commit wr stored = encode_commit wr incoming"

definition stored_holder :: "commit_options \<Rightarrow> string option" where
  "stored_holder opts = (if co_class opts = ''derived'' then co_holder opts else None)"

definition replayCommit ::
    "wire \<Rightarrow> doc_tables \<Rightarrow> stored_commit \<Rightarrow> commit_options \<Rightarrow> client_commit \<Rightarrow> store_error + applied_commit" where
  "replayCommit wr db existing opts commit =
     (if \<not> sameStoredOriginal wr (sc_original existing) commit then
        Inl (ReplayMismatch (co_sessionId opts) (cc_localSeq commit))
      else if sc_class existing \<noteq> co_class opts \<or> sc_holder existing \<noteq> stored_holder opts then
        Inl (EnvelopeMismatch (co_sessionId opts) (cc_localSeq commit))
      else
        let replayedRevisions = selectCommitRevisions db (sc_seq existing);
            revisionOpIndexes = map rev_op_index replayedRevisions
        in Inr \<lparr>ap_seq = sc_seq existing, ap_branch = sc_branch existing, ap_revisions = replayedRevisions,
             ap_elided = filter (\<lambda>opIndex. opIndex \<notin> set revisionOpIndexes) [0..<length (cc_operations commit)],
             ap_replayed = True\<rparr>)"

section \<open>Admission\<close>

definition aclDocId :: "string \<Rightarrow> string" where "aclDocId space = ''of:'' @ space"

definition admitDerived :: "string \<Rightarrow> commit_options \<Rightarrow> client_commit \<Rightarrow> store_error + unit" where
  "admitDerived session opts commit =
     (if co_class opts = ''derived'' then
        let leaseHolder = (if co_space opts = None then None else co_leaseHolder opts) in
        if co_holder opts = None \<or> leaseHolder \<noteq> co_holder opts then Inl (DerivedRefused ''lease'')
        else if Some session \<noteq> co_holder opts then Inl (DerivedRefused ''session'')
        else if list_ex (\<lambda>operation. dop_id operation = aclDocId (the (co_space opts))) (cc_operations commit) then
          Inl (DerivedRefused ''acl'')
        else Inr ()
      else if co_annotations opts \<noteq> None then Inl (DerivedRefused ''carriage'')
      else Inr ())"

text \<open>The row keys a derived commit annotates its scoped writes with. A later annotation of an operation
  replaces an earlier one.\<close>

definition annotated :: "commit_options \<Rightarrow> nat \<Rightarrow> string option" where
  "annotated opts opIndex =
     map_of (rev (concat (map (\<lambda>a. case an_scopeKey a of None \<Rightarrow> [] | Some k \<Rightarrow> [(an_op a, k)])
       (case co_annotations opts of None \<Rightarrow> [] | Some as \<Rightarrow> as)))) opIndex"

fun check_annotations :: "(nat \<Rightarrow> string option) \<Rightarrow> nat \<Rightarrow> doc_operation list \<Rightarrow> store_error + unit" where
  "check_annotations keys opIndex [] = Inr ()"
| "check_annotations keys opIndex (operation # operations) =
     (let declared = scope_of (dop_scope operation) in
      case keys opIndex of
        None \<Rightarrow> if declared = Space then check_annotations keys (Suc opIndex) operations
                else Inl (AddressingRefused ''unannotated'' opIndex)
      | Some k \<Rightarrow>
          if declared = Space then Inl (AddressingRefused ''space'' opIndex)
          else if \<not> isScopeKey k then Inl (AddressingRefused ''malformed'' opIndex)
          else if scopeOfScopeKey k \<noteq> declared then Inl (AddressingRefused ''scope'' opIndex)
          else check_annotations keys (Suc opIndex) operations)"

definition scopeKeyByOpIndex :: "commit_options \<Rightarrow> client_commit \<Rightarrow> store_error + (nat \<Rightarrow> string option)" where
  "scopeKeyByOpIndex opts commit =
     (if co_class opts = ''derived'' then
        bindR (check_annotations (annotated opts) 0 (cc_operations commit)) (\<lambda>_. Inr (annotated opts))
      else Inr (\<lambda>_. None))"
section \<open>Preconditions\<close>

definition commitPreconditionValueHash :: "host \<Rightarrow> wire \<Rightarrow> fval \<Rightarrow> store_error + string" where
  "commitPreconditionValueHash h wr value = liftR HashFailed (hashStringOf h (FStr (encode_value wr value)))"

definition checkPrecondition ::
    "host \<Rightarrow> nat \<Rightarrow> codec \<Rightarrow> wire \<Rightarrow> doc_tables \<Rightarrow> stored_commit list \<Rightarrow> string \<Rightarrow> string \<Rightarrow> scope_identity
       \<Rightarrow> precondition \<Rightarrow> unit reading" where
  "checkPrecondition h i cd wr db rows session branch who condition =
     (case condition of
        OriginCommitted w \<Rightarrow>
          (case w of
             WOther _ \<Rightarrow> throwP PreconditionMalformed
           | WInt originLocalSeq \<Rightarrow>
               if selectExistingCommit rows session originLocalSeq = None then throwP (PreconditionFailed ''origin-committed'')
               else returnP ())
      | EntityAbsent ident scope \<Rightarrow>
          bindP (liftP (liftR ScopeUnresolved (resolveScopeKey scope who))) (\<lambda>scopeKey.
            if selectSetDeleteConflict (conflict_store db) (FStr branch) (FStr ident) scopeKey 0 None \<noteq> None
            then throwP (PreconditionFailed ''receipt-exists'') else returnP ())
      | EntityValueHash ident scope valueHash \<Rightarrow>
          (case (case valueHash of FNull \<Rightarrow> Some None | FStr s \<Rightarrow> Some (Some s) | _ \<Rightarrow> None) of
             None \<Rightarrow> throwP PreconditionMalformed
           | Some wanted \<Rightarrow>
               bindP (readDocument h i cd db ident branch None scope who None) (\<lambda>document.
               bindP (case (case document of None \<Rightarrow> None | Some d \<Rightarrow> child d ''value'') of
                        None \<Rightarrow> returnP None
                      | Some v \<Rightarrow> liftP (bindR (commitPreconditionValueHash h wr v) (\<lambda>s. Inr (Some s)))) (\<lambda>currentHash.
                 if currentHash \<noteq> wanted then throwP (PreconditionFailed ''entity-value-hash'') else returnP ())))
      | OtherPrecondition \<Rightarrow> throwP PreconditionMalformed)"

fun validateCommitPreconditions ::
    "host \<Rightarrow> nat \<Rightarrow> codec \<Rightarrow> wire \<Rightarrow> doc_tables \<Rightarrow> stored_commit list \<Rightarrow> string \<Rightarrow> string \<Rightarrow> scope_identity
       \<Rightarrow> precondition list \<Rightarrow> unit reading" where
  "validateCommitPreconditions h i cd wr db rows session branch who [] = returnP ()"
| "validateCommitPreconditions h i cd wr db rows session branch who (condition # conditions) =
     bindP (checkPrecondition h i cd wr db rows session branch who condition) (\<lambda>_.
       validateCommitPreconditions h i cd wr db rows session branch who conditions)"

section \<open>Content-addressed documents\<close>

definition taggedHashStringOf :: "host \<Rightarrow> fval \<Rightarrow> hash_error + string" where
  "taggedHashStringOf h value = bindR (hashStringOf h value) (\<lambda>s. Inr (''fid1:'' @ s))"

text \<open>The content an installed document holds, and whether it is what the identifier names.\<close>

definition installedInner :: "fval \<Rightarrow> fval" where
  "installedInner document = (case child document ''value'' of None \<Rightarrow> FUndefined | Some v \<Rightarrow> v)"

definition content_named :: "host \<Rightarrow> string \<Rightarrow> fval \<Rightarrow> bool" where
  "content_named h ident document \<longleftrightarrow> taggedHashStringOf h (installedInner document) = Inr (drop 4 ident)"

record cid_pass =
  cidSetsInCommit :: "(string \<times> fval) list"
  elidedOpIndexes :: "nat list"
  elidableCidIds :: "string list"

definition installContent ::
    "host \<Rightarrow> nat \<Rightarrow> codec \<Rightarrow> doc_tables \<Rightarrow> string \<Rightarrow> scope_identity \<Rightarrow> nat \<Rightarrow> string \<Rightarrow> cell_scope option \<Rightarrow> fval
       \<Rightarrow> cid_pass \<Rightarrow> cid_pass reading" where
  "installContent h i cd db branch who opIndex ident scope value seen =
     bindP (liftP (liftR HashFailed (taggedHashStringOf h (installedInner value)))) (\<lambda>hash.
       case map_of (cidSetsInCommit seen) ident of
         Some earlierSet \<Rightarrow>
           bindP (liftP (liftR HashFailed (valueEqual h earlierSet value))) (\<lambda>same.
             if \<not> same then throwP (ContentRefused ConflictingSets ident)
             else if ident \<in> set (elidableCidIds seen) then
               returnP (seen\<lparr>elidedOpIndexes := elidedOpIndexes seen @ [opIndex]\<rparr>)
             else returnP seen)
       | None \<Rightarrow>
           bindP (readDocument h i cd db ident branch None scope who None) (\<lambda>stored.
           bindP (case stored of
                    None \<Rightarrow> returnP seen
                  | Some document \<Rightarrow>
                      bindP (liftP (liftR HashFailed (valueEqual h document value))) (\<lambda>same.
                        if \<not> same then throwP (ContentRefused ContentChanged ident)
                        else returnP (seen\<lparr>elidedOpIndexes := elidedOpIndexes seen @ [opIndex],
                                           elidableCidIds := ident # elidableCidIds seen\<rparr>))) (\<lambda>seen'.
             if hash \<noteq> drop 4 ident then throwP (ContentRefused ContentUnverified ident)
             else returnP (seen'\<lparr>cidSetsInCommit := (ident, value) # cidSetsInCommit seen'\<rparr>))))"

fun contentAddressed ::
    "host \<Rightarrow> nat \<Rightarrow> codec \<Rightarrow> doc_tables \<Rightarrow> string \<Rightarrow> scope_identity \<Rightarrow> nat \<Rightarrow> cid_pass \<Rightarrow> doc_operation list
       \<Rightarrow> cid_pass reading" where
  "contentAddressed h i cd db branch who opIndex seen [] = returnP seen"
| "contentAddressed h i cd db branch who opIndex seen (operation # operations) =
     bindP
       (if \<not> startsWith (dop_id operation) ''cid:'' then returnP seen
        else case dop_body operation of
            RSet value \<Rightarrow>
              if scope_of (dop_scope operation) \<noteq> Space then throwP (ContentRefused OnlySpaceScope (dop_id operation))
              else if \<not> isEntityDocument value then throwP (ContentRefused OnlyDocument (dop_id operation))
              else installContent h i cd db branch who opIndex (dop_id operation) (dop_scope operation) value seen
          | _ \<Rightarrow> throwP (ContentRefused OnlySet (dop_id operation)))
       (\<lambda>seen'. contentAddressed h i cd db branch who (Suc opIndex) seen' operations)"

definition no_content :: cid_pass where
  "no_content = \<lparr>cidSetsInCommit = [], elidedOpIndexes = [], elidableCidIds = []\<rparr>"

section \<open>Documents the engine writes itself\<close>

text \<open>The engine stamps and extends what is written to the streams of events, and rewrites what a derived
  commit writes to the document of effects. A commit that comes to write one of them leaves the model.\<close>

definition STREAM_ENTRIES_DOC_PREFIX :: string where "STREAM_ENTRIES_DOC_PREFIX = ''of:stream-events:''"

definition isStreamEntriesDocId :: "string \<Rightarrow> bool" where
  "isStreamEntriesDocId ident = startsWith ident STREAM_ENTRIES_DOC_PREFIX"

definition SERVER_EXECUTION_EFFECTS_DOC_ID :: string where
  "SERVER_EXECUTION_EFFECTS_DOC_ID = ''of:server-execution-effects''"

definition written_as_sent :: "commit_options \<Rightarrow> client_commit \<Rightarrow> store_error + unit" where
  "written_as_sent opts commit =
     (case find (\<lambda>operation. isStreamEntriesDocId (dop_id operation)
                   \<or> co_class opts = ''derived'' \<and> dop_id operation = SERVER_EXECUTION_EFFECTS_DOC_ID) (cc_operations commit) of
        None \<Rightarrow> Inr ()
      | Some operation \<Rightarrow> Inl (RewrittenDocument (dop_id operation)))"

section \<open>The application of a commit\<close>

definition admitCommit :: "string \<Rightarrow> doc_tables \<Rightarrow> commit_options \<Rightarrow> client_commit \<Rightarrow> store_error + (nat \<Rightarrow> string option)" where
  "admitCommit session db opts commit =
     bindR (admitDerived session opts commit) (\<lambda>_.
     bindR (scopeKeyByOpIndex opts commit) (\<lambda>keys.
       if cc_operations commit = [] \<and> cc_preconditions commit = [] \<and> cc_confirmed commit = [] \<and> cc_pending commit = []
          \<and> \<not> co_allowEmptyOperations opts
       then Inl NothingToCommit
       else
         bindR (branch_of db (case cc_branch commit of None \<Rightarrow> DEFAULT_BRANCH | Some b \<Rightarrow> b)) (\<lambda>state.
           if branch_status state \<noteq> ''active'' then Inl (InactiveBranch (branch_name state)) else Inr keys)))"

definition freshCommit ::
    "host \<Rightarrow> nat \<Rightarrow> codec \<Rightarrow> wire \<Rightarrow> string \<Rightarrow> commit_options \<Rightarrow> client_commit \<Rightarrow> stored_commit list \<Rightarrow> doc_tables
       \<Rightarrow> ((applied_commit \<times> stored_commit list) \<times> doc_tables) reading" where
  "freshCommit h i cd wr session opts commit rows db =
     (let branch = (case cc_branch commit of None \<Rightarrow> DEFAULT_BRANCH | Some b \<Rightarrow> b);
          who = \<lparr>principal = co_principal opts, sessionId = Some (co_sessionId opts)\<rparr>;
          meta = \<lparr>cm_session = session, cm_local_seq = cc_localSeq commit, cm_class = co_class opts, cm_holder = stored_holder opts\<rparr>
      in
      bindP (liftP (admitCommit session db opts commit)) (\<lambda>keys.
      bindP (validateCommitPreconditions h i cd wr db rows session branch who (cc_preconditions commit)) (\<lambda>_.
      bindP (contentAddressed h i cd db branch who 0 no_content (cc_operations commit)) (\<lambda>content.
      bindP (validateReads h i cd db rows session branch commit keys who (co_elidedVerdicts opts) (elidedOpIndexes content))
        (\<lambda>(elided, resolvedPendingReads).
      bindP (liftP (written_as_sent opts commit)) (\<lambda>_.
      bindP (commit_operations h i cd meta branch who keys elided (cc_operations commit) db) (\<lambda>((seq, written), db').
        returnP ((\<lparr>ap_seq = seq, ap_branch = branch, ap_revisions = written, ap_elided = sort (remdups elided), ap_replayed = False\<rparr>,
           rows @ [\<lparr>sc_seq = seq, sc_branch = branch, sc_session = session, sc_local_seq = cc_localSeq commit,
             sc_class = co_class opts, sc_holder = stored_holder opts, sc_original = commit,
             sc_resolved = resolvedPendingReads\<rparr>]), db'))))))))"

definition applyCommitTransaction ::
    "host \<Rightarrow> nat \<Rightarrow> codec \<Rightarrow> wire \<Rightarrow> commit_options \<Rightarrow> client_commit \<Rightarrow> stored_commit list \<Rightarrow> doc_tables
       \<Rightarrow> ((applied_commit \<times> stored_commit list) \<times> doc_tables) reading" where
  "applyCommitTransaction h i cd wr opts commit rows db =
     (if co_class opts = ''derived'' \<and> \<not> co_serverExecution opts then throwP (DerivedRefused ''flag'')
      else
        bindP (liftP (resolveCommitSessionKey (co_sessionId opts) (co_principal opts))) (\<lambda>session.
          case selectExistingCommit rows session (cc_localSeq commit) of
            Some existing \<Rightarrow>
              liftP (bindR (replayCommit wr db existing opts commit) (\<lambda>applied. Inr ((applied, rows), db)))
          | None \<Rightarrow> freshCommit h i cd wr session opts commit rows db))"

text \<open>The store is the tables of documents and the rows of the table of commits.\<close>

type_synonym commit_store = "doc_tables \<times> stored_commit list"

definition applyCommit ::
    "host \<Rightarrow> nat \<Rightarrow> codec \<Rightarrow> wire \<Rightarrow> commit_options \<Rightarrow> client_commit \<Rightarrow> commit_store \<Rightarrow> process
       \<Rightarrow> (store_error + applied_commit) \<times> commit_store \<times> process" where
  "applyCommit h i cd wr opts commit st p =
     (case runAtomicCommit i (applyCommitTransaction h i cd wr opts commit (snd st)) (fst st) p of
        (Inl e, db', p') \<Rightarrow> (Inl e, (db', snd st), p')
      | (Inr (applied, rows'), db', p') \<Rightarrow> (Inr applied, (db', rows'), p'))"
end
