(* ===== verification/CommitLog.thy ===== *)
theory CommitLog
  imports AppliedCommit
begin

text \<open>
  The table of commits beside the tables of documents: what a commit writes, which invariant the
  two keep between them in every state a store reaches, what a session that submits a commit again is
  answered, and that what the cache holds decides neither an answer nor what is stored.
\<close>

section \<open>What a commit writes\<close>

definition op_scope_key :: "scope_identity \<Rightarrow> (nat \<Rightarrow> string option) \<Rightarrow> nat \<Rightarrow> doc_operation \<Rightarrow> scope_error + string" where
  "op_scope_key who keys opIndex operation =
     (case keys opIndex of Some k \<Rightarrow> Inr k | None \<Rightarrow> resolveScopeKey (dop_scope operation) who)"

definition row_of :: "commit_meta \<Rightarrow> string \<Rightarrow> nat \<Rightarrow> scope_identity \<Rightarrow> (nat \<Rightarrow> string option) \<Rightarrow> nat \<Rightarrow> doc_operation \<Rightarrow> revision \<Rightarrow> bool" where
  "row_of meta branch seq who keys opIndex operation r \<longleftrightarrow>
     rev_branch r = branch \<and> rev_seq r = seq \<and> rev_commit_seq r = seq \<and> rev_op_index r = opIndex
     \<and> rev_id r = dop_id operation \<and> rev_operation r = dop_body operation
     \<and> op_scope_key who keys opIndex operation = Inr (rev_scope_key r)"

lemma writeOperation_row_of:
  assumes "writeOperation db meta branch seq opIndex operation who (keys opIndex) = Inr (db', r)"
  shows "row_of meta branch seq who keys opIndex operation r" "revision_rows db' = revision_rows db @ [r]"
  using assms unfolding writeOperation_def Let_def
  by (auto simp: result_simps insertRevision_def upsertHead_def row_of_def op_scope_key_def split: if_splits option.splits sum.splits)

lemma write_operations_each:
  assumes "write_operations db meta branch seq who keys elided opIndex operations = Inr (db', rows)"
  shows "revision_rows db' = revision_rows db @ rows"
    and "map rev_op_index rows = filter (\<lambda>j. j \<notin> set elided) [opIndex..<opIndex + length operations]"
    and "\<forall>r\<in>set rows. \<exists>j<length operations. row_of meta branch seq who keys (opIndex + j) (operations ! j) r"
proof -
  have "revision_rows db' = revision_rows db @ rows
    \<and> map rev_op_index rows = filter (\<lambda>j. j \<notin> set elided) [opIndex..<opIndex + length operations]
    \<and> (\<forall>r\<in>set rows. \<exists>j<length operations. row_of meta branch seq who keys (opIndex + j) (operations ! j) r)"
    using assms
  proof (induction operations arbitrary: opIndex db rows)
    case (Cons op operations)
    have range: "[opIndex..<opIndex + length (op # operations)] = opIndex # [Suc opIndex..<Suc opIndex + length operations]"
      by (simp add: upt_rec)
    have shift: "\<exists>j<length (op # operations). row_of meta branch seq who keys (opIndex + j) ((op # operations) ! j) r"
      if later: "\<exists>j<length operations. row_of meta branch seq who keys (Suc opIndex + j) (operations ! j) r" for r
    proof -
      obtain j where "j < length operations" "row_of meta branch seq who keys (Suc opIndex + j) (operations ! j) r" using later by blast
      then show ?thesis by (intro exI [of _ "Suc j"]) simp
    qed
    show ?case
    proof (cases "opIndex \<in> set elided")
      case True
      then have "write_operations db meta branch seq who keys elided (Suc opIndex) operations = Inr (db', rows)"
        using Cons.prems by simp
      from Cons.IH [OF this] show ?thesis unfolding range using True shift by simp
    next
      case False
      then obtain db1 r rows' where w: "writeOperation db meta branch seq opIndex op who (keys opIndex) = Inr (db1, r)"
        "write_operations db1 meta branch seq who keys elided (Suc opIndex) operations = Inr (db', rows')" "rows = r # rows'"
        using Cons.prems by (auto simp: result_simps)
      have r: "row_of meta branch seq who keys opIndex op r" "revision_rows db1 = revision_rows db @ [r]"
        using writeOperation_row_of w(1) by blast+
      have here: "\<exists>j<length (op # operations). row_of meta branch seq who keys (opIndex + j) ((op # operations) ! j) r"
        using r(1) by (intro exI [of _ 0]) simp
      have "rev_op_index r = opIndex" using r(1) by (simp add: row_of_def)
      then show ?thesis unfolding range w(3) using Cons.IH [OF w(2)] False shift here r(2) by simp
    qed
  qed simp
  then show "revision_rows db' = revision_rows db @ rows"
    "map rev_op_index rows = filter (\<lambda>j. j \<notin> set elided) [opIndex..<opIndex + length operations]"
    "\<forall>r\<in>set rows. \<exists>j<length operations. row_of meta branch seq who keys (opIndex + j) (operations ! j) r" by blast+
qed

lemma compact_rows [simp]: "revision_rows (compactSnapshots db key) = revision_rows db"
  by (simp add: compactSnapshots_def deleteOldSnapshots_def)

lemma snapshot_inserted_rows [simp]: "revision_rows (insertSnapshot db key s v) = revision_rows db"
  by (simp add: insertSnapshot_def)

lemma maybe_rows:
  assumes "maybeMaterializeSnapshot h i cd db branch ident k p = (Inr db', p')"
  shows "revision_rows db' = revision_rows db"
proof (cases "readStateForScopeKey h i cd db ident None k branch None p")
  case (Pair r q)
  then show ?thesis
    using assms by (cases r) (auto simp: maybeMaterializeSnapshot_def Let_def split: option.splits if_splits)
qed

lemma loop_rows: "materialize_loop h i cd branch seen rows db p = (Inr db', p') \<Longrightarrow> revision_rows db' = revision_rows db"
proof (induction rows arbitrary: seen db p)
  case (Cons x rows)
  show ?case
  proof (cases "revisionKey branch (rev_id x) (rev_scope_key x) \<in> set seen")
    case False
    obtain m p1 where m: "maybeMaterializeSnapshot h i cd db branch (rev_id x) (rev_scope_key x) p = (m, p1)" by fastforce
    then obtain db1 where "m = Inr db1" using Cons.prems False by (cases m) simp_all
    then show ?thesis using Cons m False maybe_rows [of h i cd db] by (simp add: Let_def)
  qed (use Cons in \<open>simp add: Let_def\<close>)
qed simp

lemma commit_operations_each:
  assumes "commit_operations h i cd meta branch who keys elided operations db p = (Inr ((seq, rows), db'), p')"
  shows "revision_rows db' = revision_rows db @ rows"
    and "map rev_op_index rows = filter (\<lambda>j. j \<notin> set elided) [0..<length operations]"
    and "\<forall>r\<in>set rows. \<exists>j<length operations. row_of meta branch seq who keys j (operations ! j) r"
proof -
  let ?db1 = "db\<lparr>commit_seqs := commit_seqs db @ [selectNextSeq db]\<rparr>"
  obtain db2 where w: "write_operations ?db1 meta branch (selectNextSeq db) who keys elided 0 operations = Inr (db2, rows)"
    and m: "materializeSnapshots h i cd (updateBranchHead db2 branch seq) branch rows p = (Inr db', p')" and seq: "seq = selectNextSeq db"
  proof -
    obtain b where b: "getBranch db branch = Some b" "branch_status b = ''active''"
      using assms by (auto simp: commit_operations_def branch_of_def split: option.splits if_splits)
    then obtain db2 ws where w: "write_operations ?db1 meta branch (selectNextSeq db) who keys elided 0 operations = Inr (db2, ws)"
      using assms by (cases "write_operations ?db1 meta branch (selectNextSeq db) who keys elided 0 operations")
        (auto simp: commit_operations_def branch_of_def Let_def)
    obtain m q where m: "materializeSnapshots h i cd (updateBranchHead db2 branch (selectNextSeq db)) branch ws p = (m, q)" by fastforce
    have "m = Inr db' \<and> q = p' \<and> ws = rows \<and> seq = selectNextSeq db"
      using assms b w m by (cases m) (simp_all add: commit_operations_def branch_of_def Let_def)
    then show ?thesis using that w m by simp
  qed
  have "revision_rows db' = revision_rows db2"
    using m loop_rows by (auto simp: materializeSnapshots_def updateBranchHead_def split: if_splits)
  then show "revision_rows db' = revision_rows db @ rows" using write_operations_each(1) [OF w] by simp
  show "map rev_op_index rows = filter (\<lambda>j. j \<notin> set elided) [0..<length operations]"
    "\<forall>r\<in>set rows. \<exists>j<length operations. row_of meta branch seq who keys j (operations ! j) r"
    using write_operations_each(2,3) [OF w] by (simp_all add: seq)
qed

section \<open>Steps of a store and the states it reaches\<close>

text \<open>What happens to a store: commits submitted to it, reads, branches made and deleted, a cache that
  drops rows, and the store opened anew with a cache of its own. Tools that rewrite a store while no engine
  has it open are not among the steps.\<close>

inductive step :: "host \<Rightarrow> nat \<Rightarrow> codec \<Rightarrow> wire \<Rightarrow> commit_store \<times> process \<Rightarrow> commit_store \<times> process \<Rightarrow> bool" for h i cd wr where
  submit: "length (cc_operations commit) \<le> MAX_SAFE_INTEGER \<Longrightarrow> applyCommit h i cd wr opts commit st p = (r, st', p') \<Longrightarrow>
    step h i cd wr (st, p) (st', p')"
| read: "readState h i cd db ident branch seq scope who explicitScopeKey p = (r, p') \<Longrightarrow>
    step h i cd wr ((db, rows), p) ((db, rows), p')"
| revision: "readRevision h i cd db branch ident k seq opIndex p = (r, p') \<Longrightarrow> step h i cd wr ((db, rows), p) ((db, rows), p')"
| fork: "createBranch db name parent fork = Inr (db', b) \<Longrightarrow> fork_in_range db parent fork \<Longrightarrow>
    step h i cd wr ((db, rows), p) ((db', rows), p)"
| delete: "deleteBranch db name = Inr db' \<Longrightarrow> step h i cd wr ((db, rows), p) ((db', rows), p)"
| dropped: "shrinks p p' \<Longrightarrow> step h i cd wr (st, p) (st, p')"
| reopened: "cache_entries i p' = {} \<Longrightarrow> \<not> inTransaction (engine_caches p' i) \<Longrightarrow>
    step h i cd wr ((db, rows), p) ((db\<lparr>snapshotInterval := interval, snapshotRetention := retention\<rparr>, rows), p')"

inductive served :: "host \<Rightarrow> nat \<Rightarrow> codec \<Rightarrow> wire \<Rightarrow> commit_store \<times> process \<Rightarrow> bool" for h i cd wr where
  opened: "cache_entries i p = {} \<Longrightarrow> \<not> inTransaction (engine_caches p i) \<Longrightarrow> served h i cd wr ((opened_tables interval retention, []), p)"
| after_step: "served h i cd wr s \<Longrightarrow> step h i cd wr s s' \<Longrightarrow> served h i cd wr s'"

text \<open>The invariant: the table of commits numbers what the tables of documents hold, a session's number
  names one commit, and the content of a \<^verbatim>\<open>cid:\<close> document is what its identifier names, or equal to that
  where one commit set it twice.\<close>

definition content_fits :: "host \<Rightarrow> string \<Rightarrow> fval \<Rightarrow> bool" where
  "content_fits h ident v \<longleftrightarrow> isEntityDocument v \<and> (\<exists>u. content_named h ident u \<and> (v = u \<or> valueEqual h u v = Inr True))"

definition cid_row :: "host \<Rightarrow> revision \<Rightarrow> bool" where
  "cid_row h r \<longleftrightarrow> (startsWith (rev_id r) ''cid:'' \<longrightarrow>
     rev_scope_key r = ''space'' \<and> (\<exists>v. rev_operation r = RSet v \<and> content_fits h (rev_id r) v))"

text \<open>A stored commit accounts for a row: the row is an operation of it.\<close>

definition accounts_for :: "stored_commit \<Rightarrow> revision \<Rightarrow> bool" where
  "accounts_for c r \<longleftrightarrow> sc_seq c = rev_commit_seq r \<and> sc_branch c = rev_branch r
     \<and> rev_op_index r < length (cc_operations (sc_original c))
     \<and> rev_id r = dop_id (cc_operations (sc_original c) ! rev_op_index r)
     \<and> rev_operation r = dop_body (cc_operations (sc_original c) ! rev_op_index r)"

definition addressed_as :: "revision \<Rightarrow> cell_scope \<Rightarrow> bool" where
  "addressed_as r scope \<longleftrightarrow> isScopeKey (rev_scope_key r) \<and> scopeOfScopeKey (rev_scope_key r) = scope"

definition log_ok :: "host \<Rightarrow> doc_tables \<Rightarrow> stored_commit list \<Rightarrow> bool" where
  "log_ok h db rows \<longleftrightarrow> map sc_seq rows = commit_seqs db \<and> distinct (commit_seqs db)
     \<and> distinct (map (\<lambda>c. (sc_session c, sc_local_seq c)) rows)
     \<and> (\<forall>r\<in>set (revision_rows db). rev_commit_seq r = rev_seq r \<and> cid_row h r \<and> (\<exists>c\<in>set rows. accounts_for c r))"

definition store_ok :: "host \<Rightarrow> nat \<Rightarrow> codec \<Rightarrow> commit_store \<times> process \<Rightarrow> bool" where
  "store_ok h i cd s \<longleftrightarrow> (case s of ((db, rows), p) \<Rightarrow>
     tables_ok h db \<and> cache_ok h i cd db p \<and> log_ok h db rows \<and> \<not> inTransaction (engine_caches p i))"

section \<open>Fresh commits\<close>

lemma validateCommitPreconditions_steady [steady_intros]:
  assumes "tables_ok h db"
  shows "steady h i cd db (validateCommitPreconditions h i cd wr db rows session branch who conditions)"
proof (induction conditions)
  case (Cons condition conditions)
  have "steady h i cd db (checkPrecondition h i cd wr db rows session branch who condition)"
    unfolding checkPrecondition_def
    by (cases condition; cases "case condition of OriginCommitted w \<Rightarrow> w | _ \<Rightarrow> WInt 0")
      (auto intro!: steady_intros assms split: wire_number.splits)
  then show ?case using Cons by (simp add: steady_intros)
qed (simp add: steady_intros)

lemma installContent_steady [steady_intros]:
  assumes "tables_ok h db"
  shows "steady h i cd db (installContent h i cd db branch who opIndex ident scope value seen)"
  unfolding installContent_def by (intro steady_intros assms)

lemma contentAddressed_steady [steady_intros]:
  assumes "tables_ok h db"
  shows "steady h i cd db (contentAddressed h i cd db branch who opIndex seen operations)"
proof (induction operations arbitrary: opIndex seen)
  case (Cons operation operations)
  have "steady h i cd db (case dop_body operation of
      RSet value \<Rightarrow> if scope_of (dop_scope operation) \<noteq> Space then throwP (ContentRefused OnlySpaceScope (dop_id operation))
        else if \<not> isEntityDocument value then throwP (ContentRefused OnlyDocument (dop_id operation))
        else installContent h i cd db branch who opIndex (dop_id operation) (dop_scope operation) value seen
    | _ \<Rightarrow> throwP (ContentRefused OnlySet (dop_id operation)))"
    by (cases "dop_body operation") (auto intro!: steady_intros assms)
  then show ?case unfolding contentAddressed.simps by (intro steady_intros Cons.IH)
qed (simp add: steady_intros)

lemma basisOf_steady [steady_intros]:
  assumes "\<And>s. steady h i cd db (at s)"
  shows "steady h i cd db (basisOf h db rows session branch created commit first stored at scopeKey)"
  unfolding basisOf_def Let_def documentAt_def by (intro steady_intros assms)

lemma every_identity_steady [steady_intros]:
  assumes "tables_ok h db"
  shows "steady h i cd db (every_identity h i cd db rows session branch created commit keys who elidedVerdicts groups)"
proof (induction groups)
  case (Cons group groups)
  obtain key opIndex operations where g: "group = (key, opIndex, operations)" by (metis prod.collapse)
  show ?case
    unfolding g every_identity.simps Let_def proves_identity_def
    by (intro steady_intros Cons.IH basisOf_steady assms)
qed (simp add: steady_intros)

lemma validateReads_steady [steady_intros]:
  assumes "tables_ok h db"
  shows "steady h i cd db (validateReads h i cd db rows session branch commit keys who elidedVerdicts elided)"
  unfolding validateReads_def Let_def isIdentityCommit_def by (intro steady_intros assms)

section \<open>What the pass over content-addressed documents lets through\<close>

definition seen_ok :: "host \<Rightarrow> doc_tables \<Rightarrow> string \<Rightarrow> cid_pass \<Rightarrow> bool" where
  "seen_ok h db branch seen \<longleftrightarrow> (\<forall>(ident, v)\<in>set (cidSetsInCommit seen). content_named h ident v
     \<and> (\<forall>d. read_history h db ident ''space'' branch None = Inr (Some d) \<longrightarrow> ident \<in> set (elidableCidIds seen)))"

text \<open>What holds of an operation the pass has let through.\<close>

definition content_passed :: "host \<Rightarrow> doc_tables \<Rightarrow> string \<Rightarrow> cid_pass \<Rightarrow> nat \<Rightarrow> doc_operation \<Rightarrow> bool" where
  "content_passed h db branch seen opIndex operation \<longleftrightarrow> (startsWith (dop_id operation) ''cid:'' \<longrightarrow>
     scope_of (dop_scope operation) = Space \<and> (\<exists>v. dop_body operation = RSet v \<and> content_fits h (dop_id operation) v)
     \<and> (\<forall>d. read_history h db (dop_id operation) ''space'' branch None = Inr (Some d) \<longrightarrow> opIndex \<in> set (elidedOpIndexes seen)))"

lemma space_key: "scope_of scope = Space \<Longrightarrow> resolveScopeKey scope who = Inr ''space''"
  by (simp add: resolveScopeKey_def)

lemma readDocument_space:
  assumes "tables_ok h db" "cache_ok h i cd db p" "scope_of scope = Space"
    and "readDocument h i cd db ident branch seq scope who None p = (Inr d, p')"
  shows "read_history h db ident ''space'' branch seq = Inr d"
  using readDocument_right [OF assms(1,2), of ident branch seq scope who None] assms(4)
  by (simp add: asked_scope_def space_key [OF assms(3)])

lemma installContent_spec:
  assumes ok: "tables_ok h db" "cache_ok h i cd db q" and seen: "seen_ok h db branch seen"
    and space: "scope_of scope = Space" and doc: "isEntityDocument value"
    and r: "installContent h i cd db branch who opIndex ident scope value seen q = (Inr seen', q')"
  shows "seen_ok h db branch seen'" "set (elidedOpIndexes seen) \<subseteq> set (elidedOpIndexes seen')"
    "set (elidedOpIndexes seen') \<subseteq> insert opIndex (set (elidedOpIndexes seen))" "content_fits h ident value"
    "read_history h db ident ''space'' branch None = Inr (Some d) \<Longrightarrow> opIndex \<in> set (elidedOpIndexes seen')"
proof -
  obtain hash where hash: "taggedHashStringOf h (installedInner value) = Inr hash"
    using r by (auto simp: installContent_def bindP_Inr liftR_def split: sum.splits)
  have "seen_ok h db branch seen' \<and> set (elidedOpIndexes seen) \<subseteq> set (elidedOpIndexes seen')
    \<and> set (elidedOpIndexes seen') \<subseteq> insert opIndex (set (elidedOpIndexes seen)) \<and> content_fits h ident value
    \<and> (\<forall>d. read_history h db ident ''space'' branch None = Inr (Some d) \<longrightarrow> opIndex \<in> set (elidedOpIndexes seen'))"
  proof (cases "map_of (cidSetsInCommit seen) ident")
    case (Some earlierSet)
    then have e: "content_named h ident earlierSet"
      "\<forall>d. read_history h db ident ''space'' branch None = Inr (Some d) \<longrightarrow> ident \<in> set (elidableCidIds seen)"
      using seen map_of_SomeD [OF Some] unfolding seen_ok_def by blast+
    have same: "valueEqual h earlierSet value = Inr True"
      using r Some hash by (auto simp: installContent_def bindP_Inr liftR_def split: sum.splits if_splits)
    then have "seen' = (if ident \<in> set (elidableCidIds seen) then seen\<lparr>elidedOpIndexes := elidedOpIndexes seen @ [opIndex]\<rparr> else seen)"
      using r Some hash by (simp add: installContent_def bindP_Inr liftR_def split: if_splits)
    then show ?thesis using seen e same doc by (auto simp: seen_ok_def content_fits_def)
  next
    case None
    obtain stored q1 where stored: "readDocument h i cd db ident branch None scope who None q = (Inr stored, q1)"
      using r None hash by (auto simp: installContent_def bindP_Inr liftR_def)
    note past = readDocument_space [OF ok space stored]
    have named: "content_named h ident value"
      using r None hash stored by (auto simp: installContent_def bindP_Inr liftR_def content_named_def split: if_splits)
    then have proper: "content_fits h ident value" using doc by (auto simp: content_fits_def)
    have "seen' = (case stored of None \<Rightarrow> seen | Some _ \<Rightarrow> seen\<lparr>elidedOpIndexes := elidedOpIndexes seen @ [opIndex], elidableCidIds := ident # elidableCidIds seen\<rparr>)
        \<lparr>cidSetsInCommit := (ident, value) # cidSetsInCommit seen\<rparr>"
      using r None hash stored
      by (auto simp: installContent_def bindP_Inr liftR_def split: option.splits if_splits sum.splits)
    then show ?thesis using seen past named proper by (cases stored) (auto simp: seen_ok_def)
  qed
  then show "seen_ok h db branch seen'" "set (elidedOpIndexes seen) \<subseteq> set (elidedOpIndexes seen')"
    "set (elidedOpIndexes seen') \<subseteq> insert opIndex (set (elidedOpIndexes seen))" "content_fits h ident value"
    "read_history h db ident ''space'' branch None = Inr (Some d) \<Longrightarrow> opIndex \<in> set (elidedOpIndexes seen')" by blast+
qed

lemma contentAddressed_spec:
  assumes ok: "tables_ok h db" and "cache_ok h i cd db q" "seen_ok h db branch seen"
    and "contentAddressed h i cd db branch who opIndex seen operations q = (Inr content, q')"
  shows "set (elidedOpIndexes seen) \<subseteq> set (elidedOpIndexes content)
    \<and> set (elidedOpIndexes content) \<subseteq> set (elidedOpIndexes seen) \<union> {opIndex..<opIndex + length operations}
    \<and> (\<forall>j<length operations. content_passed h db branch content (opIndex + j) (operations ! j))"
  using assms(2-)
proof (induction operations arbitrary: opIndex seen q)
  case (Cons operation operations)
  let ?cid = "startsWith (dop_id operation) ''cid:''"
  obtain seen1 q1 where one: "(if \<not> ?cid then returnP seen
        else case dop_body operation of
            RSet value \<Rightarrow>
              if scope_of (dop_scope operation) \<noteq> Space then throwP (ContentRefused OnlySpaceScope (dop_id operation))
              else if \<not> isEntityDocument value then throwP (ContentRefused OnlyDocument (dop_id operation))
              else installContent h i cd db branch who opIndex (dop_id operation) (dop_scope operation) value seen
          | _ \<Rightarrow> throwP (ContentRefused OnlySet (dop_id operation))) q = (Inr seen1, q1)"
    and rest: "contentAddressed h i cd db branch who (Suc opIndex) seen1 operations q1 = (Inr content, q')"
    using Cons.prems(3) unfolding contentAddressed.simps bindP_Inr by blast
  have first: "cache_ok h i cd db q1 \<and> seen_ok h db branch seen1 \<and> set (elidedOpIndexes seen) \<subseteq> set (elidedOpIndexes seen1)
    \<and> set (elidedOpIndexes seen1) \<subseteq> insert opIndex (set (elidedOpIndexes seen)) \<and> content_passed h db branch seen1 opIndex operation"
  proof (cases ?cid)
    case False
    then show ?thesis using one Cons.prems by (auto simp: content_passed_def)
  next
    case True
    then obtain w where v: "dop_body operation = RSet w" "scope_of (dop_scope operation) = Space" "isEntityDocument w"
      "installContent h i cd db branch who opIndex (dop_id operation) (dop_scope operation) w seen q = (Inr seen1, q1)"
      using one by (simp split: rev_op.splits if_splits)
    note spec = installContent_spec [OF ok Cons.prems(1,2) v(2,3,4)]
    have "cache_ok h i cd db q1" using steadyD [OF installContent_steady [OF ok] Cons.prems(1) v(4)] by simp
    then show ?thesis using spec v by (auto simp: content_passed_def)
  qed
  have IH: "set (elidedOpIndexes seen1) \<subseteq> set (elidedOpIndexes content)
    \<and> set (elidedOpIndexes content) \<subseteq> set (elidedOpIndexes seen1) \<union> {Suc opIndex..<Suc opIndex + length operations}
    \<and> (\<forall>j<length operations. content_passed h db branch content (Suc opIndex + j) (operations ! j))"
    using Cons.IH [OF _ _ rest] first by blast
  have here: "content_passed h db branch content opIndex operation"
    using first IH unfolding content_passed_def by blast
  have "content_passed h db branch content (opIndex + j) ((operation # operations) ! j)" if "j < length (operation # operations)" for j
    using here IH that by (cases j) auto
  moreover have "set (elidedOpIndexes seen) \<subseteq> set (elidedOpIndexes content)" using first IH by blast
  moreover have "set (elidedOpIndexes content) \<subseteq> set (elidedOpIndexes seen) \<union> {opIndex..<opIndex + length (operation # operations)}"
    using first IH by fastforce
  ultimately show ?case by blast
qed simp

section \<open>What a fresh commit does\<close>

text \<open>A fresh commit that is accepted, as a relation between what it started from and what it left.\<close>

definition fresh_applied ::
    "host \<Rightarrow> nat \<Rightarrow> codec \<Rightarrow> string \<Rightarrow> commit_options \<Rightarrow> client_commit \<Rightarrow> stored_commit list \<Rightarrow> doc_tables
       \<Rightarrow> applied_commit \<Rightarrow> stored_commit list \<Rightarrow> doc_tables \<Rightarrow> bool" where
  "fresh_applied h i cd session opts commit rows db applied rows' db' \<longleftrightarrow>
     (let branch = (case cc_branch commit of None \<Rightarrow> DEFAULT_BRANCH | Some b \<Rightarrow> b);
          who = \<lparr>principal = co_principal opts, sessionId = Some (co_sessionId opts)\<rparr>;
          operations = cc_operations commit
      in \<exists>keys elided content resolutions.
           scopeKeyByOpIndex opts commit = Inr keys \<and> admitDerived session opts commit = Inr ()
         \<and> set elided \<subseteq> {..<length operations} \<and> set (elidedOpIndexes content) \<subseteq> set elided
         \<and> (\<forall>j<length operations. content_passed h db branch content j (operations ! j))
         \<and> (\<exists>q q'. cache_ok h i cd db q
              \<and> validateReads h i cd db rows session branch commit keys who (co_elidedVerdicts opts) (elidedOpIndexes content) q
                 = (Inr (elided, resolutions), q'))
         \<and> committed h db branch (ap_revisions applied) db' \<and> revision_rows db' = revision_rows db @ ap_revisions applied
         \<and> map rev_op_index (ap_revisions applied) = filter (\<lambda>j. j \<notin> set elided) [0..<length operations]
         \<and> (\<forall>r\<in>set (ap_revisions applied). \<exists>j<length operations.
              row_of \<lparr>cm_session = session, cm_local_seq = cc_localSeq commit, cm_class = co_class opts, cm_holder = stored_holder opts\<rparr>
                branch (selectNextSeq db) who keys j (operations ! j) r)
         \<and> applied = \<lparr>ap_seq = selectNextSeq db, ap_branch = branch, ap_revisions = ap_revisions applied,
              ap_elided = sort (remdups elided), ap_replayed = False\<rparr>
         \<and> rows' = rows @ [\<lparr>sc_seq = selectNextSeq db, sc_branch = branch, sc_session = session, sc_local_seq = cc_localSeq commit,
              sc_class = co_class opts, sc_holder = stored_holder opts, sc_original = commit, sc_resolved = resolutions\<rparr>])"

lemma validateReads_elided:
  assumes "validateReads h i cd db rows session branch commit keys who elidedVerdicts elided0 q = (Inr (elided, resolutions), q')"
  shows "elided = elided0 \<or> elided = [0..<length (cc_operations commit)]"
proof (cases "checkedReads (read_engine db rows) session branch who commit")
  case (Inl e)
  then show ?thesis using assms by (auto simp: validateReads_def Let_def bindP_Inr split: if_splits)
qed (use assms in \<open>auto simp: validateReads_def Let_def bindP_Inr\<close>)

lemma freshCommit_applied:
  assumes ok: "tables_ok h db" "cache_ok h i cd db q" and fits: "length (cc_operations commit) \<le> MAX_SAFE_INTEGER"
    and r: "freshCommit h i cd wr session opts commit rows db q = (Inr ((applied, rows'), db'), q')"
  shows "fresh_applied h i cd session opts commit rows db applied rows' db' \<and> cache_ok h i cd db' q'"
proof -
  let ?branch = "case cc_branch commit of None \<Rightarrow> DEFAULT_BRANCH | Some b \<Rightarrow> b"
  let ?who = "\<lparr>principal = co_principal opts, sessionId = Some (co_sessionId opts)\<rparr>"
  let ?meta = "\<lparr>cm_session = session, cm_local_seq = cc_localSeq commit, cm_class = co_class opts, cm_holder = stored_holder opts\<rparr>"
  let ?ops = "cc_operations commit"
  obtain keys where admitted: "admitCommit session db opts commit = Inr keys"
    and r1: "bindP (validateCommitPreconditions h i cd wr db rows session ?branch ?who (cc_preconditions commit)) (\<lambda>_.
      bindP (contentAddressed h i cd db ?branch ?who 0 no_content ?ops) (\<lambda>content.
      bindP (validateReads h i cd db rows session ?branch commit keys ?who (co_elidedVerdicts opts) (elidedOpIndexes content))
        (\<lambda>(elided, resolutions).
      bindP (liftP (written_as_sent opts commit)) (\<lambda>_.
      bindP (commit_operations h i cd ?meta ?branch ?who keys elided ?ops db) (\<lambda>((seq, written), db').
        returnP ((\<lparr>ap_seq = seq, ap_branch = ?branch, ap_revisions = written, ap_elided = sort (remdups elided), ap_replayed = False\<rparr>,
           rows @ [\<lparr>sc_seq = seq, sc_branch = ?branch, sc_session = session, sc_local_seq = cc_localSeq commit,
             sc_class = co_class opts, sc_holder = stored_holder opts, sc_original = commit,
             sc_resolved = resolutions\<rparr>]), db')))))) q = (Inr ((applied, rows'), db'), q')"
    using r unfolding freshCommit_def Let_def bindP_Inr [of "liftP _"] basicP_Inr by blast
  obtain q1 content q2 elided resolutions q3 where
    pre: "validateCommitPreconditions h i cd wr db rows session ?branch ?who (cc_preconditions commit) q = (Inr (), q1)"
    and content: "contentAddressed h i cd db ?branch ?who 0 no_content ?ops q1 = (Inr content, q2)"
    and reads: "validateReads h i cd db rows session ?branch commit keys ?who (co_elidedVerdicts opts) (elidedOpIndexes content) q2
      = (Inr (elided, resolutions), q3)"
    and r2: "bindP (liftP (written_as_sent opts commit)) (\<lambda>_.
      bindP (commit_operations h i cd ?meta ?branch ?who keys elided ?ops db) (\<lambda>((seq, written), db').
        returnP ((\<lparr>ap_seq = seq, ap_branch = ?branch, ap_revisions = written, ap_elided = sort (remdups elided), ap_replayed = False\<rparr>,
           rows @ [\<lparr>sc_seq = seq, sc_branch = ?branch, sc_session = session, sc_local_seq = cc_localSeq commit,
             sc_class = co_class opts, sc_holder = stored_holder opts, sc_original = commit,
             sc_resolved = resolutions\<rparr>]), db'))) q3 = (Inr ((applied, rows'), db'), q')"
    using r1 unfolding bindP_Inr [of "validateCommitPreconditions _ _ _ _ _ _ _ _ _ _"] bindP_Inr [of "contentAddressed _ _ _ _ _ _ _ _ _"]
      bindP_Inr [of "validateReads _ _ _ _ _ _ _ _ _ _ _ _"] by fastforce
  obtain seq written where wrote: "commit_operations h i cd ?meta ?branch ?who keys elided ?ops db q3 = (Inr ((seq, written), db'), q')"
    and res: "applied = \<lparr>ap_seq = seq, ap_branch = ?branch, ap_revisions = written, ap_elided = sort (remdups elided), ap_replayed = False\<rparr>"
      "rows' = rows @ [\<lparr>sc_seq = seq, sc_branch = ?branch, sc_session = session, sc_local_seq = cc_localSeq commit,
             sc_class = co_class opts, sc_holder = stored_holder opts, sc_original = commit, sc_resolved = resolutions\<rparr>]"
    using r2 [unfolded bindP_Inr [of "liftP _"] basicP_Inr] unfolding bindP_Inr by (fastforce simp: case_prod_unfold)
  note c1 = steadyD [OF validateCommitPreconditions_steady [OF ok(1)] ok(2) pre]
  note c2 = steadyD [OF contentAddressed_steady [OF ok(1)] conjunct1 [OF c1] content]
  note c3 = steadyD [OF validateReads_steady [OF ok(1)] conjunct1 [OF c2] reads]
  have "seen_ok h db ?branch no_content" by (simp add: seen_ok_def no_content_def)
  note passed = contentAddressed_spec [OF ok(1) conjunct1 [OF c1] this content]
  have e: "set (elidedOpIndexes content) \<subseteq> {..<length ?ops}" using passed by (auto simp: no_content_def)
  have keys: "scopeKeyByOpIndex opts commit = Inr keys" "admitDerived session opts commit = Inr ()"
    using admitted by (auto simp: admitCommit_def result_simps split: if_splits)
  have elided: "set elided \<subseteq> {..<length ?ops}" "set (elidedOpIndexes content) \<subseteq> set elided"
    using validateReads_elided [OF reads] e by (auto simp: subset_iff)
  note right = commit_operations_right [OF ok(1) conjunct1 [OF c3] fits wrote]
  note each = commit_operations_each [OF wrote]
  have each3: "\<forall>r\<in>set written. \<exists>j<length ?ops. row_of ?meta ?branch (selectNextSeq db) ?who keys j (?ops ! j) r"
    using each(3) right by simp
  have passed': "\<forall>j<length ?ops. content_passed h db ?branch content j (?ops ! j)" using passed by simp
  have "\<exists>p p'. cache_ok h i cd db p
      \<and> validateReads h i cd db rows session ?branch commit keys ?who (co_elidedVerdicts opts) (elidedOpIndexes content) p
       = (Inr (elided, resolutions), p')" using c2 reads by blast
  then have "fresh_applied h i cd session opts commit rows db applied rows' db'"
    unfolding fresh_applied_def Let_def
    using keys elided passed' right each(1,2) each3 res
    by (intro exI [of _ keys] exI [of _ elided] exI [of _ content] exI [of _ resolutions]) simp
  then show ?thesis using right by simp
qed

text \<open>A fresh commit keeps what its transaction relies on, whether or not it succeeds, and ends it.\<close>

definition keeping :: "host \<Rightarrow> nat \<Rightarrow> codec \<Rightarrow> doc_tables \<Rightarrow> 'a reading \<Rightarrow> bool" where
  "keeping h i cd db m \<longleftrightarrow> (\<forall>p r p'. cache_ok h i cd db p \<longrightarrow> m p = (r, p') \<longrightarrow> keeps i p p')"

lemma keeping_bind:
  assumes "steady h i cd db m" "\<And>x. keeping h i cd db (f x)"
  shows "keeping h i cd db (bindP m f)"
  unfolding keeping_def
proof (intro allI impI)
  fix p r p'
  assume ok: "cache_ok h i cd db p" and r: "bindP m f p = (r, p')"
  obtain x q where x: "m p = (x, q)" by fastforce
  note first = steadyD [OF assms(1) ok x]
  show "keeps i p p'"
  proof (cases x)
    case (Inl e)
    then show ?thesis using r x first by (simp add: bindP_def)
  next
    case (Inr a)
    then have "f a q = (r, p')" using r x by (simp add: bindP_def)
    then have "keeps i q p'" using assms(2) first unfolding keeping_def by blast
    then show ?thesis using first keeps_trans by blast
  qed
qed

lemma keeping_last: "keeping h i cd db m \<Longrightarrow> keeping h i cd db (bindP m (\<lambda>((s, w), d). returnP (f s w d)))"
  unfolding keeping_def bindP_def returnP_def by (fastforce split: prod.splits sum.splits)

lemma keeping_commit: "keeping h i cd db (commit_operations h i cd meta branch who keys elided operations db)"
  unfolding keeping_def using keeps_commit by blast

lemma keeping_prod: "(\<And>a b. keeping h i cd db (f a b)) \<Longrightarrow> keeping h i cd db (case x of (a, b) \<Rightarrow> f a b)"
  by (cases x) simp

lemma freshCommit_keeping: "tables_ok h db \<Longrightarrow> keeping h i cd db (freshCommit h i cd wr session opts commit rows db)"
  unfolding freshCommit_def Let_def
  by (intro keeping_bind keeping_prod keeping_last [OF keeping_commit] steady_intros)

lemma publish_transaction: "inTransaction (engine_caches (publish i staged p) i) = inTransaction (engine_caches p i)"
proof (induction staged arbitrary: p)
  case (Cons x staged)
  have "inTransaction (engine_caches (cacheDocumentForRevision i (fst x) (snd x) p) i) = inTransaction (engine_caches p i)"
    using keeps_store by (simp add: keeps_def)
  then show ?case using Cons by (auto simp: publish_def case_prod_unfold)
qed (simp add: publish_def)

lemma transaction_over:
  assumes "runAtomicCommit i operation db p = (r, db', p')" "\<not> inTransaction (engine_caches p i)"
  shows "\<not> inTransaction (engine_caches p' i)"
proof -
  have over: "\<not> inTransaction (engine_caches (end_transaction i q) i)" for q by (simp add: end_transaction_def)
  show ?thesis using assms over publish_transaction
    by (auto simp: runAtomicCommit_def Let_def split: prod.splits sum.splits)
qed

lemma applyCommit_cases:
  assumes "store_ok h i cd ((db, rows), p)" "length (cc_operations commit) \<le> MAX_SAFE_INTEGER"
    and "applyCommit h i cd wr opts commit (db, rows) p = (r, (db', rows'), p')"
  shows "cache_ok h i cd db' p' \<and> \<not> inTransaction (engine_caches p' i) \<and>
    (case r of
       Inl e \<Rightarrow> db' = db \<and> rows' = rows
     | Inr applied \<Rightarrow> (\<exists>session. resolveCommitSessionKey (co_sessionId opts) (co_principal opts) = Inr session \<and>
         (case selectExistingCommit rows session (cc_localSeq commit) of
            Some existing \<Rightarrow> replayCommit wr db existing opts commit = Inr applied \<and> db' = db \<and> rows' = rows
          | None \<Rightarrow> fresh_applied h i cd session opts commit rows db applied rows' db')))"
proof -
  have ok: "tables_ok h db" "cache_ok h i cd db p" "\<not> inTransaction (engine_caches p i)" using assms(1) by (simp_all add: store_ok_def)
  let ?op = "applyCommitTransaction h i cd wr opts commit rows"
  let ?R = "\<lambda>(applied, rows1) db1. \<exists>session. resolveCommitSessionKey (co_sessionId opts) (co_principal opts) = Inr session \<and>
         (case selectExistingCommit rows session (cc_localSeq commit) of
            Some existing \<Rightarrow> replayCommit wr db existing opts commit = Inr applied \<and> db1 = db \<and> rows1 = rows
          | None \<Rightarrow> fresh_applied h i cd session opts commit rows db applied rows1 db1)"
  have keeps: "keeps i q q'" if q: "cache_ok h i cd db q" "?op db q = (x, q')" for q x q'
    using q freshCommit_keeping [OF ok(1)] unfolding keeping_def
    by (auto simp: applyCommitTransaction_def bindP_def liftP_def throwP_def split: if_splits sum.splits option.splits)
  obtain x db1 p1 where run: "runAtomicCommit i ?op db p = (x, db1, p1)" by (metis prod.collapse)
  have "cache_ok h i cd db1 p1 \<and> (case x of Inl e \<Rightarrow> db1 = db | Inr a \<Rightarrow> ?R a db1)"
  proof (rule transaction_right [OF ok(2) _ _ run])
    fix q a db2 q'
    assume q: "cache_ok h i cd db q" "?op db q = (Inr (a, db2), q')"
    obtain applied rows1 where a: "a = (applied, rows1)" by fastforce
    obtain session where session: "resolveCommitSessionKey (co_sessionId opts) (co_principal opts) = Inr session"
      using q(2) by (auto simp: applyCommitTransaction_def bindP_Inr split: if_splits)
    show "?R a db2 \<and> cache_ok h i cd db2 q' \<and> (\<forall>k v. cached_right h cd db k v \<longrightarrow> cached_right h cd db2 k v)"
    proof (cases "selectExistingCommit rows session (cc_localSeq commit)")
      case None
      then have "freshCommit h i cd wr session opts commit rows db q = (Inr ((applied, rows1), db2), q')"
        using q(2) session by (auto simp: applyCommitTransaction_def bindP_Inr a split: if_splits)
      note f = freshCommit_applied [OF ok(1) q(1) assms(2) this]
      moreover have "\<forall>k v. cached_right h cd db k v \<longrightarrow> cached_right h cd db2 k v"
        using f by (auto simp: fresh_applied_def Let_def committed_def)
      ultimately show ?thesis using session None a by simp
    next
      case (Some existing)
      then show ?thesis
        using q session by (auto simp: applyCommitTransaction_def bindP_Inr a result_simps split: if_splits)
    qed
  qed (rule keeps)
  moreover have "\<not> inTransaction (engine_caches p1 i)" by (rule transaction_over [OF run ok(3)])
  ultimately show ?thesis using assms(3) run by (cases x) (auto simp: applyCommit_def split: prod.splits)
qed

section \<open>The invariant\<close>

lemma check_annotations_spec:
  assumes "check_annotations keys opIndex operations = Inr ()" "j < length operations"
  shows "case keys (opIndex + j) of
      None \<Rightarrow> scope_of (dop_scope (operations ! j)) = Space
    | Some k \<Rightarrow> scope_of (dop_scope (operations ! j)) \<noteq> Space \<and> isScopeKey k \<and> scopeOfScopeKey k = scope_of (dop_scope (operations ! j))"
  using assms
proof (induction operations arbitrary: opIndex j)
  case (Cons operation operations)
  have rest: "check_annotations keys (Suc opIndex) operations = Inr ()"
    using Cons.prems(1) by (simp add: Let_def split: option.splits if_splits)
  show ?case
  proof (cases j)
    case 0
    then show ?thesis using Cons.prems(1) by (auto simp: Let_def split: option.splits if_splits)
  next
    case (Suc j')
    then show ?thesis using Cons.IH [OF rest, of j'] Cons.prems(2) by (simp split: option.splits)
  qed
qed simp

lemma space_unannotated:
  assumes "scopeKeyByOpIndex opts commit = Inr keys" "j < length (cc_operations commit)"
    and "scope_of (dop_scope (cc_operations commit ! j)) = Space"
  shows "keys j = None"
proof (cases "co_class opts = ''derived''")
  case True
  then have "check_annotations keys 0 (cc_operations commit) = Inr ()" using assms(1) by (auto simp: scopeKeyByOpIndex_def result_simps)
  from check_annotations_spec [OF this assms(2)] assms(3) show ?thesis by (simp split: option.splits)
qed (use assms(1) in \<open>auto simp: scopeKeyByOpIndex_def\<close>)

lemma fresh_cid_rows:
  assumes "fresh_applied h i cd session opts commit rows db applied rows' db'" "r \<in> set (ap_revisions applied)"
  shows "rev_commit_seq r = rev_seq r \<and> cid_row h r"
proof -
  obtain keys content branch who meta j where k: "scopeKeyByOpIndex opts commit = Inr keys"
    and j: "j < length (cc_operations commit)" "row_of meta branch (selectNextSeq db) who keys j (cc_operations commit ! j) r"
      "content_passed h db branch content j (cc_operations commit ! j)"
    using assms unfolding fresh_applied_def Let_def by blast
  let ?op = "cc_operations commit ! j"
  have "rev_scope_key r = ''space''" if "scope_of (dop_scope ?op) = Space"
    using j(2) space_unannotated [OF k j(1) that] space_key [OF that] by (simp add: row_of_def op_scope_key_def)
  then show ?thesis using j(2,3) by (auto simp: row_of_def cid_row_def content_passed_def)
qed

lemma existing_None: "selectExistingCommit rows session n = None \<longleftrightarrow> (session, n) \<notin> set (map (\<lambda>c. (sc_session c, sc_local_seq c)) rows)"
  by (auto simp: selectExistingCommit_def find_None_iff)

lemma fresh_log_ok:
  assumes "log_ok h db rows" "selectExistingCommit rows session (cc_localSeq commit) = None"
    and "fresh_applied h i cd session opts commit rows db applied rows' db'"
  shows "log_ok h db' rows'"
proof -
  let ?ops = "cc_operations commit"
  obtain c branch meta who keys where rows': "rows' = rows @ [c]" "sc_seq c = selectNextSeq db" "sc_session c = session"
      "sc_local_seq c = cc_localSeq commit" "sc_branch c = branch" "sc_original c = commit"
    and each: "\<forall>r\<in>set (ap_revisions applied). \<exists>j<length ?ops. row_of meta branch (selectNextSeq db) who keys j (?ops ! j) r"
    using assms(3) unfolding fresh_applied_def Let_def by fastforce
  have f: "commit_seqs db' = commit_seqs db @ [selectNextSeq db]" "revision_rows db' = revision_rows db @ ap_revisions applied"
    using assms(3) unfolding fresh_applied_def Let_def committed_def by blast+
  have accounts: "accounts_for c r" if "r \<in> set (ap_revisions applied)" for r
    using each that by (auto simp: accounts_for_def row_of_def rows'(2,5,6))
  have "selectNextSeq db \<notin> set (commit_seqs db)"
  proof
    assume used: "selectNextSeq db \<in> set (commit_seqs db)"
    then have "selectNextSeq db \<le> Max (set (commit_seqs db))" "commit_seqs db \<noteq> []" using Max_ge [OF finite_set] by auto
    then show False by (simp add: selectNextSeq_def)
  qed
  then show ?thesis
    using assms(1,2) fresh_cid_rows [OF assms(3)] accounts unfolding log_ok_def existing_None rows'(1) f
    by (auto simp: rows'(2-4))
qed

lemma step_ok:
  assumes "step h i cd wr s s'" "store_ok h i cd s"
  shows "store_ok h i cd s'"
  using assms
proof (cases rule: step.cases)
  case (submit commit opts st p r st' p')
  obtain db rows db' rows' where st: "st = (db, rows)" "st' = (db', rows')" by fastforce
  have ok: "store_ok h i cd ((db, rows), p)" using assms(2) submit st by simp
  note cases = applyCommit_cases [OF ok submit(3) submit(4) [unfolded st]]
  have "tables_ok h db' \<and> log_ok h db' rows'"
  proof (cases "db' = db \<and> rows' = rows")
    case True
    then show ?thesis using ok by (simp add: store_ok_def)
  next
    case False
    then obtain applied session where f: "selectExistingCommit rows session (cc_localSeq commit) = None"
      "fresh_applied h i cd session opts commit rows db applied rows' db'"
      using cases by (auto split: sum.splits option.splits)
    have "tables_ok h db'" using f(2) by (auto simp: fresh_applied_def Let_def committed_def)
    then show ?thesis using fresh_log_ok [OF _ f] ok by (simp add: store_ok_def)
  qed
  then show ?thesis using cases submit(2) st by (simp add: store_ok_def)
next
  case (read db ident branch seq scope who explicitScopeKey p r p' rows)
  have ok: "tables_ok h db" "cache_ok h i cd db p" using assms(2) read by (simp_all add: store_ok_def)
  have "p' = p \<or> (\<exists>s k r'. readStateForScopeKey h i cd db ident s k branch seq p = (r', p'))"
    using read(3) by (auto simp: readState_def Let_def split: option.splits sum.splits)
  then have "cache_ok h i cd db p' \<and> keeps i p p'"
    using ok(2) read_history_right [OF ok] keeps_read by (metis keeps_refl)
  then show ?thesis using assms(2) read by (simp add: store_ok_def keeps_def)
next
  case (revision db branch ident k seq opIndex p r p' rows)
  have ok: "tables_ok h db" "cache_ok h i cd db p" using assms(2) revision by (simp_all add: store_ok_def)
  have "keeps i p p'" using revision(3)
    by (auto simp: readRevision_def dest: keeps_reconstruct split: option.splits rev_op.splits prod.splits)
  then show ?thesis using readRevision_right [OF ok revision(3)] assms(2) revision(1,2) by (simp add: store_ok_def keeps_def)
next
  case (fork db name parent frk db' b rows p)
  have ok: "tables_ok h db" "cache_ok h i cd db p" using assms(2) fork by (simp_all add: store_ok_def)
  note new = createBranch_ok [OF ok(1) fork(3,4)]
  have seqs: "commit_seqs db' = commit_seqs db"
    using createBranch_cases [OF fork(3) _ fork(4)] ok(1) by (auto simp: tables_ok_def forked_def)
  have "cached_right h cd db' = cached_right h cd db" by (rule same_rows(5)) (use new in simp)
  then show ?thesis using assms(2) fork(1,2) new seqs by (simp add: store_ok_def log_ok_def)
next
  case (delete db name db' rows p)
  have ok: "tables_ok h db" using assms(2) delete by (simp add: store_ok_def)
  note d = deleteBranch_fields [OF delete(3)]
  have "cached_right h cd db' = cached_right h cd db" by (rule same_rows(5) [OF d(3)])
  then show ?thesis using assms(2) delete(1,2) deleteBranch_ok [OF ok delete(3)] d by (simp add: store_ok_def log_ok_def)
next
  case (dropped p p' st)
  then show ?thesis using assms(2) sound_subset [OF _ shrinks_entries] by (auto simp: store_ok_def shrinks_def)
next
  case (reopened p' db rows p interval retention)
  then show ?thesis using assms(2) configured_ok by (auto simp: store_ok_def log_ok_def cache.sound_def)
qed

lemma served_ok: "served h i cd wr s \<Longrightarrow> store_ok h i cd s"
proof (induction rule: served.induct)
  case (opened p interval retention)
  then show ?case using opened_ok by (simp add: store_ok_def log_ok_def opened_tables_def cache.sound_def)
next
  case (after_step s s')
  then show ?case using step_ok by blast
qed

lemma history_ok: "(step h i cd wr)\<^sup>*\<^sup>* s s' \<Longrightarrow> store_ok h i cd s \<Longrightarrow> store_ok h i cd s'"
  by (induction rule: rtranclp_induct) (use step_ok in blast)+

section \<open>What an accepted commit is answered later\<close>

text \<open>The store answers the commit from what it stored.\<close>

definition answered :: "wire \<Rightarrow> commit_options \<Rightarrow> client_commit \<Rightarrow> applied_commit \<Rightarrow> commit_store \<Rightarrow> bool" where
  "answered wr opts commit answer st \<longleftrightarrow> (\<exists>session existing.
     resolveCommitSessionKey (co_sessionId opts) (co_principal opts) = Inr session
     \<and> selectExistingCommit (snd st) session (cc_localSeq commit) = Some existing
     \<and> replayCommit wr (fst st) existing opts commit = Inr answer)"

lemma rows_sorted: "map f xs = filter P [0..<n] \<Longrightarrow> sort_key f xs = xs"
proof -
  assume eq: "map f xs = filter P [0..<n]"
  have "sorted (filter P [0..<n])" by (rule sorted_filter [where f = "\<lambda>x. x", simplified]) simp
  then have "sorted (map f xs)" by (simp add: eq)
  then show ?thesis by (rule sort_key_id_if_sorted)
qed

lemma elided_report: "set elided \<subseteq> {..<n} \<Longrightarrow> sort (remdups elided) = filter (\<lambda>j. j \<notin> set (filter (\<lambda>j. j \<notin> set elided) [0..<n])) [0..<n]"
proof (rule sorted_distinct_set_unique)
  show "sorted (filter (\<lambda>j. j \<notin> set (filter (\<lambda>j. j \<notin> set elided) [0..<n])) [0..<n])"
    by (rule sorted_filter [where f = "\<lambda>x. x", simplified]) simp
qed auto

lemma fresh_answered:
  assumes "tables_ok h db" "log_ok h db rows" "resolveCommitSessionKey (co_sessionId opts) (co_principal opts) = Inr session"
    and none: "selectExistingCommit rows session (cc_localSeq commit) = None"
    and f: "fresh_applied h i cd session opts commit rows db applied rows' db'"
  shows "answered wr opts commit (applied\<lparr>ap_replayed := True\<rparr>) (db', rows')"
proof -
  let ?n = "length (cc_operations commit)"
  obtain elided resolutions branch where
    e: "set elided \<subseteq> {..<?n}" "map rev_op_index (ap_revisions applied) = filter (\<lambda>j. j \<notin> set elided) [0..<?n]"
    and new: "revision_rows db' = revision_rows db @ ap_revisions applied"
    and written: "\<forall>r\<in>set (ap_revisions applied). rev_commit_seq r = selectNextSeq db"
    and res: "applied = \<lparr>ap_seq = selectNextSeq db, ap_branch = branch, ap_revisions = ap_revisions applied,
              ap_elided = sort (remdups elided), ap_replayed = False\<rparr>"
      "rows' = rows @ [\<lparr>sc_seq = selectNextSeq db, sc_branch = branch, sc_session = session, sc_local_seq = cc_localSeq commit,
              sc_class = co_class opts, sc_holder = stored_holder opts, sc_original = commit, sc_resolved = resolutions\<rparr>]"
    using f unfolding fresh_applied_def Let_def row_of_def by blast
  let ?c = "\<lparr>sc_seq = selectNextSeq db, sc_branch = branch, sc_session = session, sc_local_seq = cc_localSeq commit,
              sc_class = co_class opts, sc_holder = stored_holder opts, sc_original = commit, sc_resolved = resolutions\<rparr>"
  have found: "selectExistingCommit rows' session (cc_localSeq commit) = Some ?c"
    using none by (simp add: res(2) selectExistingCommit_def find_append)
  have "filter (\<lambda>r. rev_commit_seq r = selectNextSeq db) (revision_rows db) = []"
    using assms(2) rows_below_next [OF assms(1)] by (fastforce simp: filter_empty_conv log_ok_def)
  moreover have "filter (\<lambda>r. rev_commit_seq r = selectNextSeq db) (ap_revisions applied) = ap_revisions applied"
    using written by (simp add: filter_id_conv)
  ultimately have "selectCommitRevisions db' (selectNextSeq db) = ap_revisions applied"
    by (simp add: selectCommitRevisions_def new rows_sorted [OF e(2)])
  moreover have report: "sort (remdups elided) = filter (\<lambda>j. j \<notin> set (map rev_op_index (ap_revisions applied))) [0..<?n]"
    unfolding e(2) by (rule elided_report [OF e(1)])
  ultimately have "replayCommit wr db' ?c opts commit = Inr (applied\<lparr>ap_replayed := True\<rparr>)"
    by (subst res(1)) (simp add: replayCommit_def sameStoredOriginal_def Let_def report)
  then show ?thesis using assms(3) found unfolding answered_def by auto
qed

lemma submitted_answered:
  assumes ok: "store_ok h i cd ((db, rows), p)" and fits: "length (cc_operations commit) \<le> MAX_SAFE_INTEGER"
    and r: "applyCommit h i cd wr opts commit (db, rows) p = (Inr applied, (db', rows'), p')"
  shows "answered wr opts commit (applied\<lparr>ap_replayed := True\<rparr>) (db', rows')"
proof -
  obtain session where s: "resolveCommitSessionKey (co_sessionId opts) (co_principal opts) = Inr session"
    and c: "case selectExistingCommit rows session (cc_localSeq commit) of
       Some existing \<Rightarrow> replayCommit wr db existing opts commit = Inr applied \<and> db' = db \<and> rows' = rows
     | None \<Rightarrow> fresh_applied h i cd session opts commit rows db applied rows' db'"
    using applyCommit_cases [OF ok fits r] by auto
  show ?thesis
  proof (cases "selectExistingCommit rows session (cc_localSeq commit)")
    case None
    have "tables_ok h db" "log_ok h db rows" using ok by (simp_all add: store_ok_def)
    from fresh_answered [OF this s None] show ?thesis using None c by simp
  next
    case (Some existing)
    then have e: "replayCommit wr db existing opts commit = Inr applied" "db' = db" "rows' = rows" using c by simp_all
    then have "applied\<lparr>ap_replayed := True\<rparr> = applied"
      by (auto simp: replayCommit_def Let_def split: if_splits)
    then show ?thesis using s Some e unfolding answered_def by auto
  qed
qed

lemma step_answered:
  assumes "step h i cd wr (st, p) (st', p')" "store_ok h i cd (st, p)" "answered wr opts commit answer st"
  shows "answered wr opts commit answer st'"
proof -
  obtain session existing where a: "resolveCommitSessionKey (co_sessionId opts) (co_principal opts) = Inr session"
    "selectExistingCommit (snd st) session (cc_localSeq commit) = Some existing" "replayCommit wr (fst st) existing opts commit = Inr answer"
    using assms(3) unfolding answered_def by blast
  have same: "answered wr opts commit answer st'"
    if "revision_rows (fst st') = revision_rows (fst st)" "snd st' = snd st"
  proof -
    have "replayCommit wr (fst st') existing opts commit = replayCommit wr (fst st) existing opts commit"
      by (simp add: replayCommit_def selectCommitRevisions_def that(1))
    then have "replayCommit wr (fst st') existing opts commit = Inr answer" using a(3) by simp
    then show ?thesis using a(1,2) that(2) unfolding answered_def by auto
  qed
  show ?thesis
    using assms(1)
  proof (cases rule: step.cases)
    case (submit commit' opts' r)
    obtain db rows db' rows' where st: "st = (db, rows)" "st' = (db', rows')" by fastforce
    note cases = applyCommit_cases [OF assms(2) [unfolded st] submit(1) submit(2) [unfolded st]]
    show ?thesis
    proof (cases "db' = db \<and> rows' = rows")
      case True
      then show ?thesis using same st by simp
    next
      case False
      then obtain applied session' where f: "fresh_applied h i cd session' opts' commit' rows db applied rows' db'"
        using cases by (auto split: sum.splits option.splits)
      have ok: "log_ok h db rows" "tables_ok h db" using assms(2) st by (simp_all add: store_ok_def)
      obtain c where c: "rows' = rows @ [c]" using f unfolding fresh_applied_def Let_def by auto
      have "selectExistingCommit rows' session (cc_localSeq commit) = Some existing"
        using a(2) st(1) by (simp add: c selectExistingCommit_def find_append)
      moreover have "replayCommit wr db' existing opts commit = replayCommit wr db existing opts commit"
      proof -
        have new: "revision_rows db' = revision_rows db @ ap_revisions applied"
          "\<forall>r\<in>set (ap_revisions applied). rev_commit_seq r = selectNextSeq db"
          using f unfolding fresh_applied_def Let_def row_of_def by blast+
        have "existing \<in> set rows" using a(2) st(1) by (auto simp: selectExistingCommit_def find_Some_iff)
        then have "sc_seq existing \<in> set (map sc_seq rows)" by simp
        moreover have "map sc_seq rows = commit_seqs db" using ok(1) by (simp add: log_ok_def)
        ultimately have "sc_seq existing \<in> set (commit_seqs db)" by metis
        then have "sc_seq existing < selectNextSeq db" unfolding selectNextSeq_def by (auto simp: less_Suc_eq_le)
        then have "filter (\<lambda>r. rev_commit_seq r = sc_seq existing) (ap_revisions applied) = []"
          using new(2) by (auto simp: filter_empty_conv)
        then have "selectCommitRevisions db' (sc_seq existing) = selectCommitRevisions db (sc_seq existing)"
          by (simp add: selectCommitRevisions_def new(1))
        then show ?thesis by (simp add: replayCommit_def)
      qed
      ultimately show ?thesis using a(1,3) st unfolding answered_def by auto
    qed
  next
    case (fork db name parent frk db' b rows)
    have "branches_ok db" using assms(2) fork by (simp add: store_ok_def tables_ok_def)
    then show ?thesis using same createBranch_cases [OF fork(4) _ fork(5)] fork by (auto simp: forked_def)
  next
    case (delete db name db' rows)
    then show ?thesis using same deleteBranch_fields(3) by auto
  qed (use same in auto)
qed

lemma history_answered:
  assumes "(step h i cd wr)\<^sup>*\<^sup>* (st, p) (st', p')" "store_ok h i cd (st, p)" "answered wr opts commit answer st"
  shows "answered wr opts commit answer st'"
proof -
  have "answered wr opts commit answer (fst s') \<and> store_ok h i cd s'" if "(step h i cd wr)\<^sup>*\<^sup>* (st, p) s'" for s'
    using that
  proof (induction rule: rtranclp_induct)
    case (step s t)
    then show ?case
      using step_answered [of h i cd wr "fst s" "snd s" "fst t" "snd t"] step_ok [OF step(2)] by simp
  qed (use assms(2,3) in simp)
  from this [OF assms(1)] show ?thesis by simp
qed

text \<open>A commit the store answers leaves the tables as they are.\<close>

lemma answered_replays:
  assumes "answered wr opts commit answer (db, rows)" "\<not> inTransaction (engine_caches p i)"
    and "co_class opts = ''derived'' \<longrightarrow> co_serverExecution opts"
  shows "\<exists>p'. applyCommit h i cd wr opts commit (db, rows) p = (Inr answer, (db, rows), p')"
  using assms
  by (auto simp: answered_def applyCommit_def runAtomicCommit_def Let_def applyCommitTransaction_def bindP_def liftP_def)

section \<open>What the cache does not decide\<close>

lemma read_state_blind:
  assumes ok: "tables_ok h db" "cache_ok h i cd db p" "cache_ok h i cd db q"
  shows "fst (readStateForScopeKey h i cd db ident scope k branch seq p) = fst (readStateForScopeKey h i cd db ident scope k branch seq q)"
proof -
  let ?read = "readStateForScopeKey h i cd db ident scope k branch seq"
  have same: "es_result (fst (?read p)) = es_result (fst (?read q))"
    using read_history_right [OF ok(1,2)] read_history_right [OF ok(1,3)] by (metis prod.collapse)
  show ?thesis
  proof (cases "read_row db ident k branch seq")
    case (Inr found)
    show ?thesis
    proof (cases found)
      case (Some x)
      obtain row rb where "x = (row, rb)" by fastforce
      then have row: "read_row db ident k branch seq = Inr (Some (row, rb))" using Inr Some by simp
      let ?state = "\<lambda>d. \<lparr>es_id = ident, es_scope = (case scope of None \<Rightarrow> scopeOfScopeKey k | Some s \<Rightarrow> s), es_scopeKey = k, es_branch = rb,
        es_seq = rev_seq row, es_opIndex = rev_op_index row, es_op = rev_operation row, es_document = d\<rparr>"
      have "(\<exists>e. fst (?read p') = Inl e) \<or> (\<exists>d. fst (?read p') = Inr (Some (?state d)))" for p'
        using row by (auto simp: readStateForScopeKey_def Let_def split: prod.splits option.splits sum.splits)
      from this [of p] this [of q] same show ?thesis by (auto simp: es_result_def)
    qed (simp add: readStateForScopeKey_def Let_def Inr)
  qed (simp add: readStateForScopeKey_def Let_def)
qed

lemma maybe_blind:
  assumes "tables_ok h db" "cache_ok h i cd db p" "cache_ok h i cd db q"
  shows "fst (maybeMaterializeSnapshot h i cd db branch ident k p) = fst (maybeMaterializeSnapshot h i cd db branch ident k q)"
  using read_state_blind [OF assms, of ident None k branch None]
  by (auto simp: maybeMaterializeSnapshot_def Let_def split: prod.splits sum.splits option.splits)

lemma loop_blind:
  assumes "tables_ok h db" "cache_ok h i cd db p" "cache_ok h i cd db q" "getBranch db branch = Some b"
    and "\<forall>r\<in>set rows. ledger db (branch, rev_id r, rev_scope_key r) \<noteq> []"
  shows "fst (materialize_loop h i cd branch seen rows db p) = fst (materialize_loop h i cd branch seen rows db q)"
  using assms
proof (induction rows arbitrary: seen db p q)
  case (Cons x rows)
  let ?maybe = "maybeMaterializeSnapshot h i cd db branch (rev_id x) (rev_scope_key x)"
  obtain m p1 n q1 where m: "?maybe p = (m, p1)" "?maybe q = (n, q1)" by fastforce
  have eq: "n = m" using maybe_blind [OF Cons.prems(1-3)] m by (metis fst_conv)
  have own: "ledger db (branch, rev_id x, rev_scope_key x) \<noteq> []" "\<forall>r\<in>set rows. ledger db (branch, rev_id r, rev_scope_key r) \<noteq> []"
    using Cons.prems(5) by simp_all
  note right = maybe_materialize_right [OF Cons.prems(1,2,4) own(1) m(1)] maybe_materialize_right [OF Cons.prems(1,3,4) own(1) m(2)]
  show ?case
  proof (cases m)
    case (Inr db1)
    note same = snapshots_only_same [of h db db1]
    have s: "snapshots_only h db db1" "cache_ok h i cd db p1" "cache_ok h i cd db q1" using right Inr eq by auto
    have "fst (materialize_loop h i cd branch seen' rows db1 p1) = fst (materialize_loop h i cd branch seen' rows db1 q1)" for seen'
      by (rule Cons.IH) (use s own(2) Cons.prems(4) in \<open>simp_all add: same\<close>)
    then show ?thesis using Cons.IH [OF Cons.prems(1-4) own(2)] m eq Inr by (simp add: Let_def)
  qed (use Cons.IH [OF Cons.prems(1-4) own(2)] m eq in \<open>simp add: Let_def\<close>)
qed simp

lemma commit_operations_blind:
  assumes ok: "tables_ok h db" and fits: "length operations \<le> MAX_SAFE_INTEGER"
  shows "blind h i cd db (commit_operations h i cd meta branch who keys elided operations db)"
  unfolding blind_def
proof (intro allI impI)
  fix p q assume c: "cache_ok h i cd db p" "cache_ok h i cd db q"
  let ?db1 = "db\<lparr>commit_seqs := commit_seqs db @ [selectNextSeq db]\<rparr>"
  let ?commit = "commit_operations h i cd meta branch who keys elided operations db"
  have "fst (materializeSnapshots h i cd (updateBranchHead db2 branch (selectNextSeq db)) branch rows p)
      = fst (materializeSnapshots h i cd (updateBranchHead db2 branch (selectNextSeq db)) branch rows q)"
    if b: "getBranch db branch = Some b" and w: "write_operations ?db1 meta branch (selectNextSeq db) who keys elided 0 operations = Inr (db2, rows)"
    for b db2 rows
  proof -
    note written = commit_written [OF ok fits b w]
    note mono = written(2) [where cd = cd]
    have c3: "cache_ok h i cd (updateBranchHead db2 branch (selectNextSeq db)) p" "cache_ok h i cd (updateBranchHead db2 branch (selectNextSeq db)) q"
      by (rule cache.sound_mono [OF c(1) mono] cache.sound_mono [OF c(2) mono]; assumption)+
    obtain b3 where "getBranch (updateBranchHead db2 branch (selectNextSeq db)) branch = Some b3" using written(3) by blast
    from loop_blind [OF written(1) c3 this written(5)] show ?thesis by (simp add: materializeSnapshots_def)
  qed
  then show "fst (?commit p) = fst (?commit q)"
    by (auto simp: commit_operations_def branch_of_def Let_def split: option.splits sum.splits prod.splits)
      (metis fst_conv sum.inject sum.distinct prod.inject)+
qed

lemma blind_last: "blind h i cd db m \<Longrightarrow> blind h i cd db (bindP m (\<lambda>((s, w), d). returnP (f s w d)))"
  unfolding blind_def bindP_def returnP_def by (fastforce split: prod.splits sum.splits)

lemma blind_prod: "(\<And>a b. blind h i cd db (f a b)) \<Longrightarrow> blind h i cd db (case x of (a, b) \<Rightarrow> f a b)"
  by (cases x) simp

lemma freshCommit_blind:
  assumes "tables_ok h db" "length (cc_operations commit) \<le> MAX_SAFE_INTEGER"
  shows "blind h i cd db (freshCommit h i cd wr session opts commit rows db)"
  unfolding freshCommit_def Let_def
  by (intro blind_bind blind_prod blind_last commit_operations_blind steady_intros assms)

lemma transaction_blind:
  assumes "tables_ok h db" "length (cc_operations commit) \<le> MAX_SAFE_INTEGER"
  shows "blind h i cd db (applyCommitTransaction h i cd wr opts commit rows db)"
proof (cases "co_class opts = ''derived'' \<and> \<not> co_serverExecution opts")
  case False
  have "blind h i cd db (case existing of
      Some c \<Rightarrow> liftP (bindR (replayCommit wr db c opts commit) (\<lambda>applied. Inr ((applied, rows), db)))
    | None \<Rightarrow> freshCommit h i cd wr session opts commit rows db)" for existing session
    by (cases existing) (simp_all add: freshCommit_blind [OF assms] steady_blind [OF steady_basic(3)])
  then show ?thesis using False unfolding applyCommitTransaction_def by (auto intro!: blind_bind steady_intros)
qed (simp add: applyCommitTransaction_def steady_blind [OF steady_basic(2)])

text \<open>What a commit is answered and what it leaves depends on the store alone.\<close>

lemma applyCommit_blind:
  assumes ok: "store_ok h i cd (st, p)" "store_ok h i cd (st, q)" and fits: "length (cc_operations commit) \<le> MAX_SAFE_INTEGER"
    and r: "applyCommit h i cd wr opts commit st p = (r, st', p')"
  shows "\<exists>q'. applyCommit h i cd wr opts commit st q = (r, st', q')"
proof -
  obtain db rows where st: "st = (db, rows)" by fastforce
  let ?op = "applyCommitTransaction h i cd wr opts commit rows"
  let ?start = "\<lambda>p. set_cache i ((engine_caches p i)\<lparr>stagedDocumentCache := Some [], inTransaction := True\<rparr>) p"
  have c: "cache_ok h i cd db (?start p)" "cache_ok h i cd db (?start q)" "tables_ok h db"
    using ok sound_subset [OF _ begin_entries] by (simp_all add: st store_ok_def)
  have idle: "\<not> inTransaction (engine_caches p i)" "\<not> inTransaction (engine_caches q i)" using ok by (simp_all add: st store_ok_def)
  have "fst (?op db (?start p)) = fst (?op db (?start q))" by (rule blindD [OF transaction_blind [OF c(3) fits] c(1,2)])
  then obtain x p1 q1 where x: "?op db (?start p) = (x, p1)" "?op db (?start q) = (x, q1)" by (metis prod.collapse)
  show ?thesis
    using r x idle unfolding st applyCommit_def runAtomicCommit_def Let_def by (cases x) (auto split: prod.splits)
qed

text \<open>A sequence of submissions, with what each of them is answered.\<close>

fun submit_all ::
    "host \<Rightarrow> nat \<Rightarrow> codec \<Rightarrow> wire \<Rightarrow> (commit_options \<times> client_commit) list \<Rightarrow> commit_store \<Rightarrow> process
       \<Rightarrow> (store_error + applied_commit) list \<times> commit_store \<times> process" where
  "submit_all h i cd wr [] st p = ([], st, p)"
| "submit_all h i cd wr ((opts, commit) # submissions) st p =
     (let (r, st', p') = applyCommit h i cd wr opts commit st p;
          (rs, st'', p'') = submit_all h i cd wr submissions st' p'
      in (r # rs, st'', p''))"

lemma submit_all_blind:
  assumes "store_ok h i cd (st, p)" "store_ok h i cd (st, q)"
    and "\<forall>(opts, commit)\<in>set submissions. length (cc_operations commit) \<le> MAX_SAFE_INTEGER"
  shows "\<exists>answers st' p' q'. submit_all h i cd wr submissions st p = (answers, st', p')
    \<and> submit_all h i cd wr submissions st q = (answers, st', q')"
  using assms
proof (induction submissions arbitrary: st p q)
  case (Cons s submissions)
  obtain opts commit where s: "s = (opts, commit)" by fastforce
  have fits: "length (cc_operations commit) \<le> MAX_SAFE_INTEGER" using Cons.prems(3) s by simp
  obtain r st1 p1 where a: "applyCommit h i cd wr opts commit st p = (r, st1, p1)" by (metis prod.collapse)
  then obtain q1 where b: "applyCommit h i cd wr opts commit st q = (r, st1, q1)"
    using applyCommit_blind [OF Cons.prems(1,2) fits] by blast
  have "store_ok h i cd (st1, p1)" "store_ok h i cd (st1, q1)"
    using step_ok [OF step.submit [OF fits a] Cons.prems(1)] step_ok [OF step.submit [OF fits b] Cons.prems(2)] .
  from Cons.IH [OF this] Cons.prems(3) show ?case by (fastforce simp: s a b)
qed simp

end
