(* ===== verification/CommitProperties.thy ===== *)
theory CommitProperties
  imports CommitLog
begin

text \<open>
  What submitting commits promises: a commit is applied once, however often it is submitted; what is
  stored under a \<^verbatim>\<open>cid:\<close> identifier is the content it names and never changes; a commit that wrote
  read what is current, and one accepted in spite of a stale read writes nothing, as it need not.
\<close>

section \<open>Reading at the head\<close>

lemma served_document:
  assumes "store_ok h i cd ((db, rows), p)"
  shows "document_at h i cd (db, p) (branch, ident, k) seq = read_history h db ident k branch seq"
  using assms document_at_right by (simp add: store_ok_def)

lemma deleted_head:
  assumes "tables_ok h db" "deleteBranch db name = Inr db'"
  shows "read_history h db' ident k br None = read_history h db ident k br None"
proof -
  note d = deleteBranch_fields [OF assms(2)]
  have l: "ledger db' = ledger db" by (rule same_rows(1) [OF d(3)])
  have oks: "branches_ok db" "branches_ok db'" using assms(1) deleteBranch_ok [OF assms] by (simp_all add: tables_ok_def)
  show ?thesis by (rule head_cong [OF oks d(1,2) _ created_below_next [OF assms(1)]]) (simp_all add: l)
qed

lemma configured_head:
  assumes "tables_ok h db"
  shows "read_history h (db\<lparr>snapshotInterval := interval, snapshotRetention := retention\<rparr>) ident k br None = read_history h db ident k br None"
proof -
  let ?db = "db\<lparr>snapshotInterval := interval, snapshotRetention := retention\<rparr>"
  have l: "ledger ?db = ledger db" by (rule same_rows(1)) simp
  have oks: "branches_ok db" "branches_ok ?db" using assms configured_ok [OF assms] by (simp_all add: tables_ok_def)
  have "raises id" "branch_rows ?db = map id (branch_rows db)" by (simp_all add: raises_def)
  then show ?thesis by (rule head_cong [OF oks _ _ _ created_below_next [OF assms]]) (simp_all add: l)
qed

lemma forked_head:
  assumes ok: "tables_ok h db" and new: "createBranch db name parent fork = Inr (db', b)" "fork_in_range db parent fork"
    and br: "getBranch db br \<noteq> None"
  shows "read_history h db' ident k br None = read_history h db ident k br None"
proof -
  let ?parent = "case parent of None \<Rightarrow> DEFAULT_BRANCH | Some n \<Rightarrow> n"
  have "branches_ok db" using ok by (simp add: tables_ok_def)
  from createBranch_cases [OF new(1) this new(2)] show ?thesis
  proof (elim disjE exE conjE)
    fix pb s
    assume c: "getBranch db name = None" "getBranch db ?parent = Some pb" "db' = forked db name ?parent s"
    have "name \<noteq> ?parent" using c(1,2) by auto
    from view_forked(2) [OF ok c(1,2) this br] have "document_view h db' ident k br = document_view h db ident k br"
      unfolding c(3) by (intro ext)
    moreover have "resolve_seq db' br None = resolve_seq db br None" using br by (auto simp: resolve_seq_def c(3) forked_getBranch)
    ultimately show ?thesis by (simp add: read_history_def)
  qed simp
qed

section \<open>Commits are applied once\<close>

definition same_envelope :: "commit_options \<Rightarrow> commit_options \<Rightarrow> bool" where
  "same_envelope opts opts' \<longleftrightarrow> co_sessionId opts' = co_sessionId opts \<and> co_principal opts' = co_principal opts
     \<and> co_class opts' = co_class opts \<and> co_holder opts' = co_holder opts"

lemma answered_envelope:
  assumes "same_envelope opts opts'" "answered wr opts commit answer st"
  shows "answered wr opts' commit answer st"
proof -
  have "replayCommit wr db existing opts' commit = replayCommit wr db existing opts commit" for db existing
    using assms(1) by (simp add: same_envelope_def replayCommit_def stored_holder_def)
  then show ?thesis using assms by (simp add: answered_def same_envelope_def)
qed

text \<open>C3. A commit is applied once: after a commit is accepted, and whatever commits, reads, forks, deletions
  of branches and reopenings follow, submitting it again as the same principal from the same session,
  with the same class and holder, is answered as it was the first time, with the same number, branch,
  revisions and elided operations, and changes no table. Leases, annotations and the other options of the
  second submission do not matter. Offline compaction is not one of these steps: it empties
  the payloads of old commits, and the engine refuses to match one of them.\<close>

theorem commit_applied_once:
  assumes "served h i cd wr ((db, rows), p)" and "length (cc_operations commit) \<le> MAX_SAFE_INTEGER"
    and "applyCommit h i cd wr opts commit (db, rows) p = (Inr applied, st1, p1)"
    and "(step h i cd wr)\<^sup>*\<^sup>* (st1, p1) (st2, p2)"
    and "same_envelope opts opts'" and "co_class opts' = ''derived'' \<longrightarrow> co_serverExecution opts'"
  shows "\<exists>p3. applyCommit h i cd wr opts' commit st2 p2 = (Inr (applied\<lparr>ap_replayed := True\<rparr>), st2, p3)"
proof -
  obtain db1 rows1 db2 rows2 where st: "st1 = (db1, rows1)" "st2 = (db2, rows2)" by fastforce
  have ok: "store_ok h i cd ((db, rows), p)" by (rule served_ok [OF assms(1)])
  have ok1: "store_ok h i cd (st1, p1)" by (rule step_ok [OF step.submit [OF assms(2,3)] ok])
  have "answered wr opts commit (applied\<lparr>ap_replayed := True\<rparr>) st1"
    using submitted_answered [OF ok assms(2) assms(3) [unfolded st(1)]] st(1) by simp
  then have "answered wr opts' commit (applied\<lparr>ap_replayed := True\<rparr>) (db2, rows2)"
    using answered_envelope [OF assms(5)] history_answered [OF assms(4) ok1] st(2) by blast
  moreover have "\<not> inTransaction (engine_caches p2 i)" using history_ok [OF assms(4) ok1] st(2) by (simp add: store_ok_def)
  ultimately show ?thesis using answered_replays assms(6) st(2) by blast
qed

section \<open>Content-addressed documents do not change\<close>

lemma cid_rows_run:
  assumes "\<forall>r\<in>set rows. rev_id r = ident \<and> cid_row h r" "startsWith ident ''cid:''" "rows \<noteq> []"
  shows "\<exists>v. run_rows h acc rows = Inr (Some v) \<and> content_fits h ident v"
  using assms
proof (induction rows rule: rev_induct)
  case (snoc r rows)
  obtain v where "rev_operation r = RSet v" "content_fits h ident v" using snoc.prems(1,2) by (auto simp: cid_row_def)
  then show ?case by (simp add: run_row_def)
qed simp

lemma cid_view:
  assumes "\<forall>r\<in>set (revision_rows db). cid_row h r" "startsWith ident ''cid:''"
  shows "view n h db ident k br s = Inr (Some v) \<Longrightarrow> content_fits h ident v"
proof (induction n arbitrary: br s)
  case (Suc n)
  let ?rows = "filter (\<lambda>r. rev_seq r \<le> s) (ledger db (br, ident, k))"
  have rows: "\<forall>r\<in>set ?rows. rev_id r = ident \<and> cid_row h r" using assms(1) by (auto simp: in_ledger row_key_def)
  show ?case
  proof (cases "?rows = []")
    case False
    then show ?thesis using Suc.prems cid_rows_run [OF rows assms(2), of "Inr None"] by (auto simp: Let_def)
  next
    case True
    then show ?thesis using Suc by (auto simp: Let_def split: option.splits)
  qed
qed simp

text \<open>A fresh commit writes no row of a document that is there already and that it sets by its content.\<close>

lemma fresh_leaves_content:
  assumes "fresh_applied h i cd session opts commit rows db applied rows' db'" "startsWith ident ''cid:''"
    and "read_history h db ident ''space'' br None = Inr (Some v)"
  shows "filter (\<lambda>r. row_key r = (br, ident, ''space'')) (ap_revisions applied) = []"
  unfolding filter_empty_conv
proof (intro ballI notI)
  fix r assume r: "r \<in> set (ap_revisions applied)" and key: "row_key r = (br, ident, ''space'')"
  obtain keys elided content meta branch who where
    e: "set (elidedOpIndexes content) \<subseteq> set elided"
      "\<forall>j<length (cc_operations commit). content_passed h db branch content j (cc_operations commit ! j)"
      "map rev_op_index (ap_revisions applied) = filter (\<lambda>j. j \<notin> set elided) [0..<length (cc_operations commit)]"
      "\<forall>r\<in>set (ap_revisions applied). \<exists>j<length (cc_operations commit).
         row_of meta branch (selectNextSeq db) who keys j (cc_operations commit ! j) r"
    using assms(1) unfolding fresh_applied_def Let_def by blast
  obtain j where j: "j < length (cc_operations commit)" "row_of meta branch (selectNextSeq db) who keys j (cc_operations commit ! j) r"
    using e(4) r by blast
  have "content_passed h db br content j (cc_operations commit ! j)" "dop_id (cc_operations commit ! j) = ident"
    using e(2) j key by (auto simp: row_of_def row_key_def)
  then have "j \<in> set elided" using assms(2,3) e(1) by (auto simp: content_passed_def)
  moreover have "rev_op_index r = j" using j(2) by (simp add: row_of_def)
  then have "j \<in> set (map rev_op_index (ap_revisions applied))" using r by auto
  ultimately show False unfolding e(3) by simp
qed

lemma step_keeps_content:
  assumes "step h i cd wr ((db, rows), p) ((db', rows'), p')" "store_ok h i cd ((db, rows), p)" "startsWith ident ''cid:''"
    and v: "read_history h db ident ''space'' br None = Inr (Some v)"
  shows "read_history h db' ident ''space'' br None = Inr (Some v)"
proof -
  have ok: "tables_ok h db" using assms(2) by (simp add: store_ok_def)
  have br: "getBranch db br \<noteq> None" using v by (cases "getBranch db br") (simp_all add: read_history_def resolve_seq_def)
  show ?thesis
    using assms(1)
  proof (cases rule: step.cases)
    case (submit commit opts r)
    note cases = applyCommit_cases [OF assms(2) submit]
    show ?thesis
    proof (cases "db' = db \<and> rows' = rows")
      case False
      then obtain applied session where f: "fresh_applied h i cd session opts commit rows db applied rows' db'"
        using cases by (auto split: sum.splits option.splits)
      then obtain branch where "committed h db branch (ap_revisions applied) db'" unfolding fresh_applied_def Let_def by blast
      from committed_head [OF ok this fresh_leaves_content [OF f assms(3) v]] show ?thesis using v by simp
    qed (use v in simp)
  next
    case (fork name parent frk b)
    from forked_head [OF ok fork(3,4) br] show ?thesis using v by simp
  next
    case (delete name)
    from deleted_head [OF ok delete(3)] show ?thesis using v by simp
  qed (use v configured_head [OF ok] in auto)
qed

text \<open>C6. What is stored under a \<^verbatim>\<open>cid:\<close> identifier is the content the identifier names, and it never
  changes: once a branch has such a document, no commit, on any branch, no branch made or deleted and no
  reopening changes what it reads there. Where one commit sets it twice the second content is equal to
  one that hashes to the identifier.\<close>

theorem content_addressed_immutable:
  assumes "served h i cd wr ((db, rows), p)" and "(step h i cd wr)\<^sup>*\<^sup>* ((db, rows), p) ((db', rows'), p')"
    and "startsWith ident ''cid:''" and "document_at h i cd (db, p) (br, ident, ''space'') None = Inr (Some v)"
  shows "document_at h i cd (db', p') (br, ident, ''space'') None = Inr (Some v) \<and> content_fits h ident v"
proof -
  have ok: "store_ok h i cd ((db, rows), p)" by (rule served_ok [OF assms(1)])
  have v: "read_history h db ident ''space'' br None = Inr (Some v)" using assms(4) served_document [OF ok] by simp
  have "read_history h (fst (fst s)) ident ''space'' br None = Inr (Some v) \<and> store_ok h i cd s"
    if "(step h i cd wr)\<^sup>*\<^sup>* ((db, rows), p) s" for s
    using that
  proof (induction rule: rtranclp_induct)
    case (step s t)
    then show ?case
      using step_keeps_content [of h i cd wr "fst (fst s)" "snd (fst s)" "snd s" "fst (fst t)" "snd (fst t)" "snd t", OF _ _ assms(3)]
        step_ok [OF step(2)] by simp
  qed (use v ok in simp)
  from this [OF assms(2)] have "read_history h db' ident ''space'' br None = Inr (Some v)" "store_ok h i cd ((db', rows'), p')" by simp_all
  moreover have "content_fits h ident v"
  proof -
    have "\<forall>r\<in>set (revision_rows db). cid_row h r" using ok by (simp add: store_ok_def log_ok_def)
    from cid_view [OF this assms(3)] v show ?thesis
      by (auto simp: read_history_def document_view_def result_simps simp del: view.simps)
  qed
  ultimately show ?thesis using served_document by simp
qed

section \<open>Identity commits\<close>

definition group_of :: "doc_ops \<Rightarrow> string \<Rightarrow> doc_operation list" where
  "group_of groups key = (case map_of groups key of None \<Rightarrow> [] | Some (_, operations) \<Rightarrow> operations)"

lemma group_added: "group_of (add_operation key i op groups) key' = group_of groups key' @ (if key = key' then [op] else [])"
  by (induction key i op groups rule: add_operation.induct) (auto simp: group_of_def)

text \<open>The operations of a document, as the write loop keys them.\<close>

definition operations_on :: "scope_identity \<Rightarrow> string \<Rightarrow> string \<Rightarrow> doc_operation list \<Rightarrow> doc_operation list" where
  "operations_on who ident k = filter (\<lambda>op. dop_id op = ident \<and> resolveScopeKey (dop_scope op) who = Inr k)"

lemma scope_key_no_bar: "resolveScopeKey scope who = Inr k \<Longrightarrow> CHR ''|'' \<notin> set k"
proof -
  assume k: "resolveScopeKey scope who = Inr k"
  have enc: "encodeURIComponent s = Inr e \<Longrightarrow> CHR ''|'' \<notin> set e" for s e
    using encode_chars [of s e] by (auto simp: unreserved_def)
  show ?thesis
    using k enc by (auto simp: resolveScopeKey_def resolvePrincipalSessionKey_def encodeScopeKeyPart_def result_simps
        split: option.splits cell_scope.splits if_splits)
qed

lemma bar_key:
  assumes "resolveScopeKey scope who = Inr k" "resolveScopeKey scope' who = Inr k'"
  shows "a @ CHR ''|'' # k = b @ CHR ''|'' # k' \<longleftrightarrow> a = b \<and> k = k'"
proof
  assume "a @ CHR ''|'' # k = b @ CHR ''|'' # k'"
  then have "rev k @ CHR ''|'' # rev a = rev k' @ CHR ''|'' # rev b" by (metis append.assoc append_Cons append_Nil rev.simps(2) rev_append)
  from split_at_first [OF _ _ this] show "a = b \<and> k = k'" using scope_key_no_bar assms by simp
qed simp

lemma byDocument_groups:
  assumes "byDocument (\<lambda>_. None) who elided i groups operations = Inr (Some groups')"
    and k: "resolveScopeKey scope who = Inr k" and "\<not> startsWith ident ''cid:''"
  shows "group_of groups' (ident @ CHR ''|'' # k) = group_of groups (ident @ CHR ''|'' # k) @ operations_on who ident k operations"
  using assms(1)
proof (induction operations arbitrary: i groups)
  case (Cons op operations)
  show ?case
  proof (cases "startsWith (dop_id op) ''cid:''")
    case True
    then have "byDocument (\<lambda>_. None) who elided (Suc i) groups operations = Inr (Some groups')" "dop_id op \<noteq> ident"
      using Cons.prems assms(3) by (auto split: if_splits)
    then show ?thesis using Cons.IH by (simp add: operations_on_def)
  next
    case False
    then obtain k' where k': "resolveScopeKey (dop_scope op) who = Inr k'"
      "byDocument (\<lambda>_. None) who elided (Suc i) (add_operation (dop_id op @ CHR ''|'' # k') i op groups) operations = Inr (Some groups')"
      using Cons.prems by (auto simp: opDocKey_def result_simps split: if_splits)
    show ?thesis
      using Cons.IH [OF k'(2)] bar_key [OF k'(1) k, of "dop_id op" ident] by (auto simp: group_added operations_on_def k'(1))
  qed
qed (simp add: operations_on_def)

text \<open>What the proof of an identity has shown of each document.\<close>

definition reproduces :: "host \<Rightarrow> doc_tables \<Rightarrow> string \<Rightarrow> string \<Rightarrow> string \<Rightarrow> doc_operation list \<Rightarrow> bool" where
  "reproduces h db branch ident k operations \<longleftrightarrow>
     (\<exists>stored d. read_history h db ident k branch None = Inr (Some stored)
        \<and> replay_operations h (Some stored) operations = Inr (Some d) \<and> valueEqual h d stored = Inr True)"

lemma proves_identity_sound:
  assumes "proves_identity h stored False operations basis q = (Inr True, q')"
  shows "\<exists>d. replay_operations h (Some stored) operations = Inr d \<and> content_equal h d stored = Inr True"
proof -
  obtain view q1 where v: "basis q = (Inr view, q1)"
    using assms by (auto simp: proves_identity_def catchP_Inr bindP_Inr)
  then show ?thesis using assms
    by (cases view) (auto simp: proves_identity_def catchP_Inr bindP_Inr result_simps split: if_splits)
qed

lemma every_identity_sound:
  assumes ok: "tables_ok h db" and "cache_ok h i cd db q"
    and "every_identity h i cd db rows session branch created commit (\<lambda>_. None) who False groups q = (Inr True, q')"
    and "(key, j, operations) \<in> set groups"
  shows "\<exists>k stored d. resolveScopeKey (dop_scope (hd operations)) who = Inr k
    \<and> read_history h db (dop_id (hd operations)) k branch None = Inr (Some stored)
    \<and> replay_operations h (Some stored) operations = Inr d \<and> content_equal h d stored = Inr True"
  using assms(2-)
proof (induction groups arbitrary: q)
  case (Cons group groups)
  obtain key1 j1 ops1 where g: "group = (key1, j1, ops1)" by (metis prod.collapse)
  let ?at = "\<lambda>k seq. readDocument h i cd db (dop_id (hd ops1)) branch seq (dop_scope (hd ops1)) who (Some k)"
  obtain k q1 stored q2 same q3 where k: "resolveScopeKey (dop_scope (hd ops1)) who = Inr k"
    and stored: "?at k None q = (Inr (Some stored), q1)"
    and same: "proves_identity h stored False ops1 (basisOf h db rows session branch created commit (hd ops1) stored (?at k) k) q1
      = (Inr same, q2)"
    and rest: "(if same then every_identity h i cd db rows session branch created commit (\<lambda>_. None) who False groups
              else returnP False) q2 = (Inr True, q')"
    using Cons.prems(2) by (auto simp: g bindP_Inr Let_def result_simps split: option.splits)
  note c1 = steadyD [OF readDocument_steady [OF ok] Cons.prems(1) stored]
  have "steady h i cd db (proves_identity h stored False ops1 (basisOf h db rows session branch created commit (hd ops1) stored (?at k) k))"
    unfolding proves_identity_def by (intro steady_intros basisOf_steady ok)
  note c2 = steadyD [OF this conjunct1 [OF c1] same]
  have yes: "same = True" "every_identity h i cd db rows session branch created commit (\<lambda>_. None) who False groups q2 = (Inr True, q')"
    using rest by (auto split: if_splits)
  show ?case
  proof (cases "(key, j, operations) = group")
    case True
    then have "ops1 = operations" using g by simp
    then show ?thesis
      using k readDocument_history [OF ok Cons.prems(1) stored] proves_identity_sound [OF same [unfolded yes(1)]] by blast
  next
    case False
    then show ?thesis using Cons.IH [OF conjunct1 [OF c2] yes(2)] Cons.prems(3) by simp
  qed
qed simp

lemma replay_operations_some:
  assumes "replay_operations h document operations = Inr d" "operations \<noteq> []" "\<forall>op\<in>set operations. dop_body op \<noteq> RDelete"
  shows "d \<noteq> None"
proof -
  have "d \<noteq> None" if "document \<noteq> None \<or> operations \<noteq> []" "replay_operations h document operations = Inr d"
    "\<forall>op\<in>set operations. dop_body op \<noteq> RDelete" for document operations
    using that by (induction h document operations rule: replay_operations.induct) (auto split: rev_op.splits sum.splits)
  then show ?thesis using assms by blast
qed

lemma byDocument_no_delete:
  "byDocument keys who elided i groups operations = Inr (Some groups') \<Longrightarrow> \<forall>op\<in>set operations. dop_body op \<noteq> RDelete"
proof (induction operations arbitrary: i groups)
  case (Cons op operations)
  have "\<exists>groups1. byDocument keys who elided (Suc i) groups1 operations = Inr (Some groups')"
    using Cons.prems by (fastforce simp: result_simps split: if_splits)
  moreover have "dop_body op \<noteq> RDelete" using Cons.prems by auto
  ultimately show ?case using Cons.IH by auto
qed simp

lemma identity_reproduces:
  assumes ok: "tables_ok h db" "cache_ok h i cd db q"
    and id: "isIdentityCommit h i cd db rows session branch commit (\<lambda>_. None) who False elided q = (Inr True, q')"
    and k: "resolveScopeKey scope who = Inr k" "\<not> startsWith ident ''cid:''" "operations_on who ident k (cc_operations commit) \<noteq> []"
  shows "reproduces h db branch ident k (operations_on who ident k (cc_operations commit))"
proof -
  let ?ops = "operations_on who ident k (cc_operations commit)"
  obtain groups where g: "byDocument (\<lambda>_. None) who elided 0 [] (cc_operations commit) = Inr (Some groups)"
    "every_identity h i cd db rows session branch (branchCreatedSeq db branch) commit (\<lambda>_. None) who False groups q = (Inr True, q')"
    using id by (auto simp: isIdentityCommit_def bindP_Inr split: if_splits option.splits)
  have "group_of groups (ident @ CHR ''|'' # k) = ?ops" using byDocument_groups [OF g(1) k(1,2)] by (simp add: group_of_def)
  then obtain j where "(ident @ CHR ''|'' # k, j, ?ops) \<in> set groups"
    using k(3) by (auto simp: group_of_def dest: map_of_SomeD split: option.splits)
  from every_identity_sound [OF ok g(2) this] obtain k' stored d where
    s: "resolveScopeKey (dop_scope (hd ?ops)) who = Inr k'" "read_history h db (dop_id (hd ?ops)) k' branch None = Inr (Some stored)"
      "replay_operations h (Some stored) ?ops = Inr d" "content_equal h d stored = Inr True" by blast
  have "hd ?ops \<in> set ?ops" using k(3) by (rule hd_in_set)
  then have same: "dop_id (hd ?ops) = ident" "k' = k" using s(1) by (auto simp: operations_on_def)
  have "\<forall>op\<in>set ?ops. dop_body op \<noteq> RDelete" using byDocument_no_delete [OF g(1)] by (auto simp: operations_on_def)
  then obtain v where "d = Some v" using replay_operations_some [OF s(3) k(3)] by blast
  then show ?thesis using s same by (auto simp: reproduces_def content_equal_def result_simps)
qed

lemma validateReads_cases:
  assumes "validateReads h i cd db rows session branch commit keys who elidedVerdicts elided0 q = (Inr (elided, resolutions), q')"
  shows "case checkedReads (read_engine db rows) session branch who commit of
      Inr _ \<Rightarrow> elided = elided0
    | Inl e \<Rightarrow> staleness e \<and> elided = [0..<length (cc_operations commit)]
        \<and> (\<exists>q1. isIdentityCommit h i cd db rows session branch commit keys who elidedVerdicts elided0 q = (Inr True, q1))"
proof (cases "checkedReads (read_engine db rows) session branch who commit")
  case (Inl e)
  then show ?thesis using assms by (auto simp: validateReads_def Let_def bindP_Inr split: if_splits)
qed (use assms in \<open>auto simp: validateReads_def Let_def bindP_Inr\<close>)

text \<open>A commit that is accepted for the first time.\<close>

lemma accepted_fresh:
  assumes ok: "store_ok h i cd ((db, rows), p)" and fits: "length (cc_operations commit) \<le> MAX_SAFE_INTEGER"
    and r: "applyCommit h i cd wr opts commit (db, rows) p = (Inr applied, (db', rows'), p')" and new: "\<not> ap_replayed applied"
  obtains session where "resolveCommitSessionKey (co_sessionId opts) (co_principal opts) = Inr session"
    "fresh_applied h i cd session opts commit rows db applied rows' db'" "store_ok h i cd ((db', rows'), p')"
proof -
  obtain session where s: "resolveCommitSessionKey (co_sessionId opts) (co_principal opts) = Inr session"
    and c: "case selectExistingCommit rows session (cc_localSeq commit) of
       Some existing \<Rightarrow> replayCommit wr db existing opts commit = Inr applied \<and> db' = db \<and> rows' = rows
     | None \<Rightarrow> fresh_applied h i cd session opts commit rows db applied rows' db'"
    using applyCommit_cases [OF ok fits r] by auto
  have "selectExistingCommit rows session (cc_localSeq commit) = None"
  proof (rule ccontr)
    assume "selectExistingCommit rows session (cc_localSeq commit) \<noteq> None"
    then obtain existing where "replayCommit wr db existing opts commit = Inr applied" using c by auto
    then show False using new by (auto simp: replayCommit_def Let_def split: if_splits)
  qed
  moreover have "store_ok h i cd ((db', rows'), p')" by (rule step_ok [OF step.submit [OF fits r] ok])
  ultimately show ?thesis using that s c by simp
qed

lemma fresh_reads:
  assumes "fresh_applied h i cd session opts commit rows db applied rows' db'"
    and branch: "branch = (case cc_branch commit of None \<Rightarrow> DEFAULT_BRANCH | Some b \<Rightarrow> b)"
    and who: "who = \<lparr>principal = co_principal opts, sessionId = Some (co_sessionId opts)\<rparr>"
  obtains keys elided elided0 resolutions q q' where "scopeKeyByOpIndex opts commit = Inr keys" "cache_ok h i cd db q"
    "validateReads h i cd db rows session branch commit keys who (co_elidedVerdicts opts) elided0 q
       = (Inr (elided, resolutions), q')"
    "committed h db branch (ap_revisions applied) db'"
    "map rev_op_index (ap_revisions applied) = filter (\<lambda>j. j \<notin> set elided) [0..<length (cc_operations commit)]"
  using assms(1) unfolding fresh_applied_def Let_def branch [symmetric] who [symmetric] by (elim exE conjE) (rule that; assumption)

text \<open>C5. A commit accepted though one of its reads is stale writes nothing, and it need not: every document
  reads as before, and replaying what the commit does to a document on what the document holds would give
  it equal content. This is the guarantee of a client that re-folds an elided operation over its own
  state, one that does not ask for elided verdicts; a client that asks for them is held to the first half
  of the proof alone. The commit is not a derived one, and documents under a \<^verbatim>\<open>cid:\<close> identifier,
  which are never written twice, are left out of the replay.\<close>

theorem stale_commit_writes_nothing:
  assumes "served h i cd wr ((db, rows), p)" and "length (cc_operations commit) \<le> MAX_SAFE_INTEGER"
    and "applyCommit h i cd wr opts commit (db, rows) p = (Inr applied, (db', rows'), p')" and "\<not> ap_replayed applied"
    and "resolveCommitSessionKey (co_sessionId opts) (co_principal opts) = Inr session"
    and "who = \<lparr>principal = co_principal opts, sessionId = Some (co_sessionId opts)\<rparr>"
    and "branch = (case cc_branch commit of None \<Rightarrow> DEFAULT_BRANCH | Some b \<Rightarrow> b)"
    and "checkedReads (read_engine db rows) session branch who commit = Inl stale"
    and "co_class opts \<noteq> ''derived''" and "\<not> co_elidedVerdicts opts"
  shows "ap_revisions applied = []
    \<and> (\<forall>key. document_at h i cd (db', p') key None = document_at h i cd (db, p) key None)
    \<and> (\<forall>ident k. \<not> startsWith ident ''cid:'' \<and> operations_on who ident k (cc_operations commit) \<noteq> [] \<longrightarrow>
         (\<exists>stored d. document_at h i cd (db, p) (branch, ident, k) None = Inr (Some stored)
            \<and> replay_operations h (Some stored) (operations_on who ident k (cc_operations commit)) = Inr (Some d)
            \<and> valueEqual h d stored = Inr True))"
proof -
  have ok: "store_ok h i cd ((db, rows), p)" by (rule served_ok [OF assms(1)])
  then have tables: "tables_ok h db" by (simp add: store_ok_def)
  obtain session' where f: "resolveCommitSessionKey (co_sessionId opts) (co_principal opts) = Inr session'"
    "fresh_applied h i cd session' opts commit rows db applied rows' db'" and ok': "store_ok h i cd ((db', rows'), p')"
    using accepted_fresh [OF ok assms(2-4)] .
  have session: "session' = session" using f(1) assms(5) by simp
  obtain keys elided elided0 resolutions q q' where
    keys: "scopeKeyByOpIndex opts commit = Inr keys" and q: "cache_ok h i cd db q"
    and v: "validateReads h i cd db rows session branch commit keys who (co_elidedVerdicts opts) elided0 q
         = (Inr (elided, resolutions), q')"
    and c: "committed h db branch (ap_revisions applied) db'"
    and idx: "map rev_op_index (ap_revisions applied) = filter (\<lambda>j. j \<notin> set elided) [0..<length (cc_operations commit)]"
    using fresh_reads [OF f(2) [unfolded session] assms(7,6)] .
  have "keys = (\<lambda>_. None)" using keys assms(9) by (simp add: scopeKeyByOpIndex_def)
  then obtain q1 where all: "elided = [0..<length (cc_operations commit)]"
    and id: "isIdentityCommit h i cd db rows session branch commit (\<lambda>_. None) who False elided0 q = (Inr True, q1)"
    using validateReads_cases [OF v] assms(8,10) by auto
  have none: "ap_revisions applied = []" using idx by (simp add: all)
  have same: "document_at h i cd (db', p') key None = document_at h i cd (db, p) key None" for key
    using committed_head [OF tables c] by (cases key) (simp add: none served_document [OF ok] served_document [OF ok'])
  have "\<exists>stored d. document_at h i cd (db, p) (branch, ident, k) None = Inr (Some stored)
      \<and> replay_operations h (Some stored) (operations_on who ident k (cc_operations commit)) = Inr (Some d)
      \<and> valueEqual h d stored = Inr True"
    if on: "\<not> startsWith ident ''cid:''" "operations_on who ident k (cc_operations commit) \<noteq> []" for ident k
  proof -
    have "resolveScopeKey (dop_scope (hd (operations_on who ident k (cc_operations commit)))) who = Inr k"
      using hd_in_set [OF on(2)] by (simp add: operations_on_def)
    from identity_reproduces [OF tables q id this on] show ?thesis by (auto simp: reproduces_def served_document [OF ok])
  qed
  then show ?thesis using none same by blast
qed

section \<open>Reads of a commit that writes\<close>

lemma confirmed_loop_addressable:
  assumes "confirmed_loop engine branch who scans stale conflicts reads = Inr r"
  shows "\<forall>read\<in>set reads. addressable engine branch who read"
  using assms
proof (induction reads arbitrary: scans stale conflicts)
  case (Cons read reads)
  obtain k where k: "requireBranch engine (read_branch branch read) = Inr ()" "resolveScopeKey (cr_scope read) who = Inr k"
    using Cons.prems by (auto simp: Let_def result_simps read_branch_def)
  have "\<exists>scans' stale' conflicts'. confirmed_loop engine branch who scans' stale' conflicts' reads = Inr r"
    using Cons.prems k
    by (simp add: Let_def read_branch_def result_simps split: if_splits option.splits prod.splits) (auto split: option.splits)
  then have "\<forall>read\<in>set reads. addressable engine branch who read" using Cons.IH by blast
  moreover have "addressable engine branch who read" using k by (simp add: addressable_def requireBranch_def split: if_splits)
  ultimately show ?case by simp
qed simp

lemma checked_reads_unconflicted:
  assumes "readable_patches (tables engine)" "checkedReads engine session branch who commit = Inr resolutions"
  shows "\<forall>read\<in>set (cc_confirmed commit). addressable engine branch who read \<and> read_conflicts_with engine branch who read = None"
proof -
  obtain scans where v: "validateConfirmedReads engine (\<lambda>_. None) branch (cc_confirmed commit) who = Inr scans"
    using assms(2) by (auto simp: checkedReads_def result_simps)
  then obtain conflicts where loop: "confirmed_loop engine branch who (\<lambda>_. None) [] [] (cc_confirmed commit) = Inr (scans, conflicts)" "conflicts = []"
    by (auto simp: validateConfirmedReads_def result_simps split: if_splits)
  have all: "\<forall>read\<in>set (cc_confirmed commit). addressable engine branch who read" by (rule confirmed_loop_addressable [OF loop(1)])
  have "stale_reads engine branch who [] (cc_confirmed commit) = []"
    using confirmed_loop_spec [OF assms(1) nothing_kept all, of "[]" "[]"] loop by auto
  then show ?thesis using all by (auto simp: stale_reads_empty)
qed

text \<open>C4. Optimistic concurrency, from end to end: when a commit is accepted and writes something, a confirmed
  recursive read of it is current: the engine returns at the read's path at the head, just before the
  commit, what it returned at the number the client read it at. This is for a document that is there at
  both numbers, on the default branch or with rows of its own at the number read, and for patches in
  between that insert into no array by index and remove from none: what such an operation moves, the
  overlap predicates do not see.\<close>

theorem accepted_reads_are_current:
  assumes "served h i cd wr ((db, rows), p)" and "length (cc_operations commit) \<le> MAX_SAFE_INTEGER"
    and "readable_patches (conflict_store db)"
    and "applyCommit h i cd wr opts commit (db, rows) p = (Inr applied, (db', rows'), p')"
    and "\<not> ap_replayed applied" and "ap_revisions applied \<noteq> []"
    and "read \<in> set (cc_confirmed commit)" and "cr_nonRecursive read \<noteq> Some True"
    and "read_address (case cc_branch commit of None \<Rightarrow> DEFAULT_BRANCH | Some b \<Rightarrow> b)
        \<lparr>principal = co_principal opts, sessionId = Some (co_sessionId opts)\<rparr> read = (b, k, ident)"
    and "document_at h i cd (db, p) (b, ident, k) (Some (seq_of (cr_seq read))) = Inr (Some base)"
    and "document_at h i cd (db, p) (b, ident, k) None = Inr (Some head)"
    and "b = DEFAULT_BRANCH \<or> filter (\<lambda>r. rev_seq r \<le> seq_of (cr_seq read)) (ledger db (b, ident, k)) \<noteq> []"
    and "along h in_place_all base (filter (\<lambda>r. seq_of (cr_seq read) < rev_seq r) (ledger db (b, ident, k)))"
  shows "readAt head (path_of (cr_path read)) = readAt base (path_of (cr_path read))"
proof -
  let ?branch = "case cc_branch commit of None \<Rightarrow> DEFAULT_BRANCH | Some b \<Rightarrow> b"
  let ?who = "\<lparr>principal = co_principal opts, sessionId = Some (co_sessionId opts)\<rparr>"
  have ok: "store_ok h i cd ((db, rows), p)" by (rule served_ok [OF assms(1)])
  then have tables: "tables_ok h db" by (simp add: store_ok_def)
  obtain session where f: "fresh_applied h i cd session opts commit rows db applied rows' db'"
    using accepted_fresh [OF ok assms(2,4,5)] by blast
  obtain keys elided elided0 resolutions q q' where
    v: "validateReads h i cd db rows session ?branch commit keys ?who (co_elidedVerdicts opts) elided0 q
         = (Inr (elided, resolutions), q')"
    and idx: "map rev_op_index (ap_revisions applied) = filter (\<lambda>j. j \<notin> set elided) [0..<length (cc_operations commit)]"
    using fresh_reads [OF f refl refl] by metis
  have "elided \<noteq> [0..<length (cc_operations commit)]" using idx assms(6) by auto
  then obtain res where res: "checkedReads (read_engine db rows) session ?branch ?who commit = Inr res"
    using validateReads_cases [OF v] by (auto split: sum.splits)
  have t: "tables (read_engine db rows) = conflict_store db" by (simp add: read_engine_def)
  have "read_conflicts_with (read_engine db rows) ?branch ?who read = None"
    using checked_reads_unconflicted [OF _ res] assms(3,7) by (simp add: t)
  moreover have "(case cr_nonRecursive read of Some n \<Rightarrow> n | None \<Rightarrow> False) = False"
    using assms(8) by (auto split: option.splits)
  ultimately have "conflicting_write (conflict_store db) (FStr b) (FStr ident) k (seq_of (cr_seq read)) (path_of (cr_path read)) False None = None"
    unfolding read_conflicts_with_def assms(9) Let_def prod.case t by simp
  from unconflicted_read_current [OF tables assms(3) this] show ?thesis
    using assms(10-13) unfolding served_document [OF ok] by blast
qed

section \<open>The log and the rows\<close>

text \<open>C7. The table of commits explains the documents: in every state a store reaches by the steps of the
  model, commits are numbered in the order they were accepted, no number and no number of a session's is
  used twice, and every row of a document is one operation of exactly one stored commit, at its index,
  under its number and on its branch. The rows the engine adds to streams of events, and what it rewrites
  in the document of effects, are outside: a commit that writes one of these documents leaves the model.\<close>

theorem commit_log_explains_rows:
  assumes "served h i cd wr ((db, rows), p)"
  shows "map sc_seq rows = commit_seqs db \<and> distinct (map sc_seq rows) \<and> distinct (map (\<lambda>c. (sc_session c, sc_local_seq c)) rows)
    \<and> (\<forall>r\<in>set (revision_rows db). \<exists>!c. c \<in> set rows \<and> accounts_for c r)"
proof -
  have log: "map sc_seq rows = commit_seqs db" "distinct (map sc_seq rows)" "distinct (map (\<lambda>c. (sc_session c, sc_local_seq c)) rows)"
    "\<forall>r\<in>set (revision_rows db). \<exists>c\<in>set rows. accounts_for c r"
    using served_ok [OF assms] by (auto simp: store_ok_def log_ok_def)
  have "\<exists>!c. c \<in> set rows \<and> accounts_for c r" if "r \<in> set (revision_rows db)" for r
  proof -
    obtain c where c: "c \<in> set rows" "accounts_for c r" using log(4) \<open>r \<in> set (revision_rows db)\<close> by blast
    have "x = c" if "x \<in> set rows" "accounts_for x r" for x
    proof -
      have "sc_seq x = sc_seq c" using c(2) \<open>accounts_for x r\<close> by (simp add: accounts_for_def)
      then show ?thesis using log(2) c(1) \<open>x \<in> set rows\<close> by (simp add: distinct_map inj_on_def)
    qed
    then show ?thesis using c by blast
  qed
  then show ?thesis using log by blast
qed

section \<open>Addresses of what is written\<close>

lemma resolved_is_key: "resolveScopeKey scope who = Inr k \<Longrightarrow> isScopeKey k \<and> scopeOfScopeKey k = scope_of scope"
  using resolve_builds isScopeKey_iff builds_scope by metis

lemma admitted_key:
  assumes "scopeKeyByOpIndex opts commit = Inr keys" "j < length (cc_operations commit)"
    and "op_scope_key who keys j (cc_operations commit ! j) = Inr k"
  shows "isScopeKey k \<and> scopeOfScopeKey k = scope_of (dop_scope (cc_operations commit ! j))"
proof (cases "keys j")
  case None
  then show ?thesis using assms(3) resolved_is_key by (simp add: op_scope_key_def)
next
  case (Some k')
  then have "co_class opts = ''derived''" using assms(1) by (auto simp: scopeKeyByOpIndex_def split: if_splits)
  then have c: "check_annotations keys 0 (cc_operations commit) = Inr ()" using assms(1) by (auto simp: scopeKeyByOpIndex_def result_simps)
  show ?thesis using check_annotations_spec [OF c assms(2)] Some assms(3) by (simp add: op_scope_key_def)
qed

text \<open>C8. A commit writes where it says it does: every row of an accepted commit has a canonical scope key,
  of the scope its operation declares, also where a derived commit names the key itself; and a derived
  commit is one of the space's lease holder, from the holder's own session, and leaves the space's
  access list alone.\<close>

theorem writes_are_addressed:
  assumes "served h i cd wr ((db, rows), p)" and "length (cc_operations commit) \<le> MAX_SAFE_INTEGER"
    and "applyCommit h i cd wr opts commit (db, rows) p = (Inr applied, (db', rows'), p')" and "\<not> ap_replayed applied"
  shows "(\<forall>r\<in>set (ap_revisions applied). addressed_as r (scope_of (dop_scope (cc_operations commit ! rev_op_index r))))
    \<and> (co_class opts = ''derived'' \<longrightarrow> co_holder opts = co_leaseHolder opts
         \<and> resolveCommitSessionKey (co_sessionId opts) (co_principal opts) = Inr (the (co_holder opts))
         \<and> (\<forall>r\<in>set (ap_revisions applied). rev_id r \<noteq> aclDocId (the (co_space opts))))"
proof -
  have ok: "store_ok h i cd ((db, rows), p)" by (rule served_ok [OF assms(1)])
  obtain session where s: "resolveCommitSessionKey (co_sessionId opts) (co_principal opts) = Inr session"
    and f: "fresh_applied h i cd session opts commit rows db applied rows' db'"
    using accepted_fresh [OF ok assms(2-4)] .
  obtain keys meta branch who where k: "scopeKeyByOpIndex opts commit = Inr keys"
    and a: "admitDerived session opts commit = Inr ()"
    and each: "\<forall>r\<in>set (ap_revisions applied). \<exists>j<length (cc_operations commit).
      row_of meta branch (selectNextSeq db) who keys j (cc_operations commit ! j) r"
    using f unfolding fresh_applied_def Let_def by blast
  have rows: "addressed_as r (scope_of (dop_scope (cc_operations commit ! rev_op_index r)))
      \<and> rev_id r \<in> dop_id ` set (cc_operations commit)" if r: "r \<in> set (ap_revisions applied)" for r
  proof -
    obtain j where j: "j < length (cc_operations commit)" "row_of meta branch (selectNextSeq db) who keys j (cc_operations commit ! j) r"
      using each r by blast
    then show ?thesis using admitted_key [OF k j(1)] by (auto simp: row_of_def addressed_as_def)
  qed
  have derived: "co_holder opts = co_leaseHolder opts \<and> Some session = co_holder opts
      \<and> (\<forall>op\<in>set (cc_operations commit). dop_id op \<noteq> aclDocId (the (co_space opts)))" if "co_class opts = ''derived''"
    using a that by (auto simp: admitDerived_def Let_def list_ex_iff split: if_splits)
  show ?thesis
  proof (intro conjI impI)
    show "\<forall>r\<in>set (ap_revisions applied). addressed_as r (scope_of (dop_scope (cc_operations commit ! rev_op_index r)))"
      using rows by blast
    assume d: "co_class opts = ''derived''"
    show "co_holder opts = co_leaseHolder opts" using derived [OF d] by simp
    show "resolveCommitSessionKey (co_sessionId opts) (co_principal opts) = Inr (the (co_holder opts))"
      using derived [OF d] s by (metis option.sel)
    show "\<forall>r\<in>set (ap_revisions applied). rev_id r \<noteq> aclDocId (the (co_space opts))" using derived [OF d] rows by fastforce
  qed
qed

section \<open>Refused commits\<close>

text \<open>C11. A refused commit leaves no trace: wherever in its validation or its writing it is refused, the
  store is as it was, every document reads as before, and whatever is submitted to the engine afterwards
  is answered, and leaves the store, as if the refused commit had never been submitted. So nothing it
  staged in the cache stays, nor does what it read there tell.\<close>

theorem refused_commit_leaves_no_trace:
  assumes "served h i cd wr (st, p)" and "length (cc_operations commit) \<le> MAX_SAFE_INTEGER"
    and "applyCommit h i cd wr opts commit st p = (Inl e, st', p')"
    and "\<forall>(opts, commit)\<in>set submissions. length (cc_operations commit) \<le> MAX_SAFE_INTEGER"
  shows "st' = st
    \<and> (\<forall>key seq. document_at h i cd (fst st', p') key seq = document_at h i cd (fst st, p) key seq)
    \<and> (\<exists>answers later q q'. submit_all h i cd wr submissions st' p' = (answers, later, q')
         \<and> submit_all h i cd wr submissions st p = (answers, later, q))"
proof -
  obtain db rows db' rows' where st: "st = (db, rows)" "st' = (db', rows')" by fastforce
  have ok: "store_ok h i cd (st, p)" by (rule served_ok [OF assms(1)])
  then have same: "st' = st" using applyCommit_cases [OF _ assms(2) assms(3) [unfolded st]] st by simp
  have ok': "store_ok h i cd (st, p')" using step_ok [OF step.submit [OF assms(2,3)] ok] same by simp
  have "document_at h i cd (db, p') key seq = document_at h i cd (db, p) key seq" for key seq
    using served_document ok ok' by (cases key) (simp add: st)
  moreover obtain answers later q q' where "submit_all h i cd wr submissions st p' = (answers, later, q')"
    "submit_all h i cd wr submissions st p = (answers, later, q)"
    using submit_all_blind [OF ok' ok assms(4)] by blast
  ultimately show ?thesis using same st by auto
qed

section \<open>A store at work\<close>

definition demo_wire :: wire where "demo_wire = \<lparr>encode_commit = \<lambda>c. concat (map dop_id (cc_operations c)), encode_value = \<lambda>_. []\<rparr>"

definition demo_options :: "string \<Rightarrow> commit_options" where
  "demo_options session = \<lparr>co_sessionId = session, co_principal = None, co_space = None, co_class = ''authored'', co_holder = None,
     co_annotations = None, co_allowEmptyOperations = False, co_elidedVerdicts = False, co_serverExecution = False,
     co_leaseHolder = None\<rparr>"

definition demo_submission :: "int \<Rightarrow> (string \<times> rev_op) list \<Rightarrow> confirmed_read list \<Rightarrow> client_commit" where
  "demo_submission n bodies confirmed = \<lparr>cc_localSeq = n, cc_branch = None,
     cc_operations = map (\<lambda>(ident, body). \<lparr>dop_id = ident, dop_scope = None, dop_body = body\<rparr>) bodies, cc_confirmed = confirmed,
     cc_pending = [], cc_preconditions = [], cc_rest = FNull\<rparr>"

definition submitted :: "string \<Rightarrow> client_commit \<Rightarrow> commit_store \<Rightarrow> (store_error + applied_commit) \<times> commit_store" where
  "submitted session commit st =
     (case applyCommit padding_host 0 demo_codec demo_wire (demo_options session) commit st fresh_process of (r, st', _) \<Rightarrow> (r, st'))"

abbreviation demo_served :: "commit_store \<Rightarrow> bool" where
  "demo_served st \<equiv> served padding_host 0 demo_codec demo_wire (st, fresh_process)"

abbreviation demo_step :: "commit_store \<times> process \<Rightarrow> commit_store \<times> process \<Rightarrow> bool" where
  "demo_step \<equiv> step padding_host 0 demo_codec demo_wire"

definition keeps_no_snapshots :: "commit_store \<Rightarrow> bool" where
  "keeps_no_snapshots st \<longleftrightarrow> snapshotInterval (fst st) = 0 \<and> snapshotRetention (fst st) = 0"

lemma submitted_step:
  assumes "submitted session commit st = (r, st')" "length (cc_operations commit) \<le> MAX_SAFE_INTEGER" "keeps_no_snapshots st'"
  shows "\<exists>p'. applyCommit padding_host 0 demo_codec demo_wire (demo_options session) commit st fresh_process = (r, st', p')
    \<and> demo_step (st', p') (st', fresh_process) \<and> demo_step (st, fresh_process) (st', p')"
proof -
  obtain db' rows' db rows where st: "st' = (db', rows')" "st = (db, rows)" by fastforce
  obtain p' where a: "applyCommit padding_host 0 demo_codec demo_wire (demo_options session) commit st fresh_process = (r, st', p')"
    using assms(1) by (auto simp: submitted_def split: prod.splits)
  have "\<not> inTransaction (engine_caches fresh_process 0)" by (simp add: fresh_process_def small_cache_def)
  then have "demo_step ((db', rows'), p') ((db'\<lparr>snapshotInterval := 0, snapshotRetention := 0\<rparr>, rows'), fresh_process)"
    by (rule step.reopened [OF fresh_entries])
  moreover have "db'\<lparr>snapshotInterval := 0, snapshotRetention := 0\<rparr> = db'" using assms(3) st(1) by (simp add: keeps_no_snapshots_def)
  ultimately have "demo_step (st', p') (st', fresh_process)" using st(1) by simp
  then show ?thesis using a step.submit [OF assms(2) a [unfolded st]] st by auto
qed

lemma submitted_history:
  assumes "submitted session commit st = (r, st')" "length (cc_operations commit) \<le> MAX_SAFE_INTEGER" "keeps_no_snapshots st'"
  shows "demo_step\<^sup>*\<^sup>* (st, fresh_process) (st', fresh_process)"
  using submitted_step [OF assms] by (metis rtranclp.simps)

lemma submitted_served:
  assumes "demo_served st" "submitted session commit st = (r, st')" "length (cc_operations commit) \<le> MAX_SAFE_INTEGER"
    and "keeps_no_snapshots st'"
  shows "demo_served st'"
  using submitted_step [OF assms(2-4)] assms(1) by (metis served.after_step)

text \<open>One session writes a document and patches it; another writes what it finds there from a read that the
  patch made stale, and a document of its own from a read that it did not. Content is named by its hash.\<close>

definition demo_content :: string where "demo_content = ''cid:fid1:IAAAAAAAAAAAAAAAAAAAAAAAAAAAAAAAAAAAAAAAAAA''"

definition first_write :: client_commit where
  "first_write = demo_submission 1 [(''d'', set_a), (demo_content, RSet (FObj [(''value'', FNull)]))] []"

definition second_write :: client_commit where "second_write = demo_submission 2 [(''d'', add_b)] []"

definition read_first :: "string \<Rightarrow> confirmed_read" where
  "read_first key = \<lparr>cr_id = ''d'', cr_scope = None, cr_branch = None, cr_path = FArr [Some (FStr key)], cr_seq = WInt 1,
     cr_nonRecursive = None\<rparr>"

definition stale_write :: client_commit where
  "stale_write = demo_submission 1 [(''d'', RSet (FObj [(''a'', FNull), (''b'', FBool True)]))] [read_first ''b'']"

definition current_write :: client_commit where "current_write = demo_submission 1 [(''e'', set_a)] [read_first ''a'']"

definition opened_store :: commit_store where "opened_store = (opened_tables 0 0, [])"

definition after_first :: commit_store where "after_first = snd (submitted ''s'' first_write opened_store)"

definition after_second :: commit_store where "after_second = snd (submitted ''s'' second_write after_first)"

definition demo_answer :: "nat \<Rightarrow> revision list \<Rightarrow> nat list \<Rightarrow> applied_commit" where
  "demo_answer seq rows elided =
     \<lparr>ap_seq = seq, ap_branch = '''', ap_revisions = rows, ap_elided = elided, ap_replayed = False\<rparr>"

definition content_row :: revision where
  "content_row = (demo_row '''' 1 (RSet (FObj [(''value'', FNull)])))\<lparr>rev_id := demo_content, rev_op_index := 1\<rparr>"

definition first_answer :: applied_commit where "first_answer = demo_answer 1 [demo_row '''' 1 set_a, content_row] []"

definition second_answer :: applied_commit where
  "second_answer = demo_answer 2 [(demo_row '''' 2 add_b)\<lparr>rev_local_seq := 2\<rparr>] []"

definition current_answer :: applied_commit where
  "current_answer = demo_answer 3 [(demo_row '''' 3 set_a)\<lparr>rev_id := ''e'', rev_session := ''t''\<rparr>] []"

lemma demo_runs:
  "submitted ''s'' first_write opened_store = (Inr first_answer, after_first)"
  "submitted ''s'' second_write after_first = (Inr second_answer, after_second)"
  "fst (submitted ''t'' stale_write after_second) = Inr (demo_answer 3 [] [0])"
  "fst (submitted ''t'' current_write after_second) = Inr current_answer"
  by code_simp+

lemma demo_settings: "keeps_no_snapshots after_first" "keeps_no_snapshots after_second"
  by code_simp+

lemma demo_lengths:
  "length (cc_operations first_write) \<le> MAX_SAFE_INTEGER" "length (cc_operations second_write) \<le> MAX_SAFE_INTEGER"
  "length (cc_operations stale_write) \<le> MAX_SAFE_INTEGER" "length (cc_operations current_write) \<le> MAX_SAFE_INTEGER"
  by (simp_all add: first_write_def second_write_def stale_write_def current_write_def demo_submission_def MAX_SAFE_INTEGER_def)

lemma demo_states: "demo_served opened_store" "demo_served after_first" "demo_served after_second"
proof -
  have "\<not> inTransaction (engine_caches fresh_process 0)" by (simp add: fresh_process_def small_cache_def)
  then show o: "demo_served opened_store" unfolding opened_store_def by (rule served.opened [OF fresh_entries])
  show first: "demo_served after_first" by (rule submitted_served [OF o demo_runs(1) demo_lengths(1) demo_settings(1)])
  show "demo_served after_second" by (rule submitted_served [OF first demo_runs(2) demo_lengths(2) demo_settings(2)])
qed

lemma submitted_apply:
  assumes "submitted session commit st = (r, st')"
  obtains p' where "applyCommit padding_host 0 demo_codec demo_wire (demo_options session) commit st fresh_process = (r, st', p')"
  using assms by (auto simp: submitted_def split: prod.splits)

theorem commit_applied_once_witness:
  "submitted ''s'' first_write after_second = (Inr (first_answer\<lparr>ap_replayed := True\<rparr>), after_second)"
proof -
  obtain p1 where a: "applyCommit padding_host 0 demo_codec demo_wire (demo_options ''s'') first_write opened_store fresh_process
      = (Inr first_answer, after_first, p1)" "demo_step (after_first, p1) (after_first, fresh_process)"
    using submitted_step [OF demo_runs(1) demo_lengths(1) demo_settings(1)] by blast
  have "demo_step\<^sup>*\<^sup>* (after_first, p1) (after_second, fresh_process)"
    using a(2) submitted_history [OF demo_runs(2) demo_lengths(2) demo_settings(2)] by (rule converse_rtranclp_into_rtranclp)
  moreover have "same_envelope (demo_options ''s'') (demo_options ''s'')" by (simp add: same_envelope_def)
  moreover have "co_class (demo_options ''s'') \<noteq> ''derived''" by (simp add: demo_options_def)
  ultimately show ?thesis
    using commit_applied_once [OF demo_states(1) [unfolded opened_store_def] demo_lengths(1) a(1) [unfolded opened_store_def]]
    by (fastforce simp: submitted_def)
qed

lemma demo_documents:
  "read_history padding_host (fst after_first) demo_content ''space'' '''' None = Inr (Some (FObj [(''value'', FNull)]))"
  "read_history padding_host (fst after_second) ''d'' ''space'' '''' None = Inr (Some (FObj [(''a'', FNull), (''b'', FBool True)]))"
  "read_history padding_host (fst after_second) ''d'' ''space'' '''' (Some 1) = Inr (Some (FObj [(''a'', FNull)]))"
  by code_simp+

lemma demo_document:
  assumes "demo_served st"
  shows "document_at padding_host 0 demo_codec (fst st, fresh_process) (branch, ident, k) seq
     = read_history padding_host (fst st) ident k branch seq"
proof -
  have "store_ok padding_host 0 demo_codec ((fst st, snd st), fresh_process)" using served_ok [OF assms] by simp
  then show ?thesis by (rule served_document)
qed

theorem content_addressed_immutable_witness:
  "document_at padding_host 0 demo_codec (fst after_second, fresh_process) ('''', demo_content, ''space'') None
     = Inr (Some (FObj [(''value'', FNull)]))
   \<and> content_fits padding_host demo_content (FObj [(''value'', FNull)])"
proof (rule content_addressed_immutable)
  show "served padding_host 0 demo_codec demo_wire ((fst after_first, snd after_first), fresh_process)" using demo_states(2) by simp
  show "demo_step\<^sup>*\<^sup>* ((fst after_first, snd after_first), fresh_process) ((fst after_second, snd after_second), fresh_process)"
    using submitted_history [OF demo_runs(2) demo_lengths(2) demo_settings(2)] by simp
  show "startsWith demo_content ''cid:''" by code_simp
  show "document_at padding_host 0 demo_codec (fst after_first, fresh_process) ('''', demo_content, ''space'') None
      = Inr (Some (FObj [(''value'', FNull)]))" by (simp add: demo_document [OF demo_states(2)] demo_documents)
qed

abbreviation demo_who :: "string \<Rightarrow> scope_identity" where
  "demo_who session \<equiv> \<lparr>principal = None, sessionId = Some session\<rparr>"

theorem stale_commit_writes_nothing_witness:
  "\<exists>stored d. document_at padding_host 0 demo_codec (fst after_second, fresh_process) ('''', ''d'', ''space'') None = Inr (Some stored)
     \<and> replay_operations padding_host (Some stored) (operations_on (demo_who ''t'') ''d'' ''space'' (cc_operations stale_write)) = Inr (Some d)
     \<and> valueEqual padding_host d stored = Inr True"
proof -
  obtain db' rows' where "submitted ''t'' stale_write after_second = (Inr (demo_answer 3 [] [0]), (db', rows'))"
    using demo_runs(3) by (metis prod.collapse)
  then obtain p' where a: "applyCommit padding_host 0 demo_codec demo_wire (demo_options ''t'') stale_write (fst after_second, snd after_second) fresh_process
      = (Inr (demo_answer 3 [] [0]), (db', rows'), p')" using submitted_apply by (metis prod.collapse)
  have s: "served padding_host 0 demo_codec demo_wire ((fst after_second, snd after_second), fresh_process)" using demo_states(3) by simp
  have session: "resolveCommitSessionKey (co_sessionId (demo_options ''t'')) (co_principal (demo_options ''t'')) = Inr ''t''" by code_simp
  have who: "demo_who ''t'' = \<lparr>principal = co_principal (demo_options ''t''), sessionId = Some (co_sessionId (demo_options ''t''))\<rparr>"
    by (simp add: demo_options_def)
  have branch: "'''' = (case cc_branch stale_write of None \<Rightarrow> DEFAULT_BRANCH | Some b \<Rightarrow> b)" by code_simp
  have "case checkedReads (read_engine (fst after_second) (snd after_second)) ''t'' '''' (demo_who ''t'') stale_write of
      Inl e \<Rightarrow> True | Inr r \<Rightarrow> False" by code_simp
  then obtain stale where stale: "checkedReads (read_engine (fst after_second) (snd after_second)) ''t'' '''' (demo_who ''t'') stale_write = Inl stale"
    by (auto split: sum.splits)
  have "operations_on (demo_who ''t'') ''d'' ''space'' (cc_operations stale_write) \<noteq> []" "\<not> startsWith ''d'' ''cid:''" by code_simp+
  then show ?thesis
    using stale_commit_writes_nothing [OF s demo_lengths(3) a _ session who branch stale]
    by (simp add: demo_answer_def demo_options_def)
qed

theorem accepted_reads_are_current_witness:
  "readAt (FObj [(''a'', FNull), (''b'', FBool True)]) [''a''] = readAt (FObj [(''a'', FNull)]) [''a'']"
proof -
  obtain db' rows' where "submitted ''t'' current_write after_second = (Inr current_answer, (db', rows'))"
    using demo_runs(4) by (metis prod.collapse)
  then obtain p' where a: "applyCommit padding_host 0 demo_codec demo_wire (demo_options ''t'') current_write (fst after_second, snd after_second) fresh_process
      = (Inr current_answer, (db', rows'), p')" using submitted_apply by (metis prod.collapse)
  have s: "served padding_host 0 demo_codec demo_wire ((fst after_second, snd after_second), fresh_process)" using demo_states(3) by simp
  have readable: "readable_patches (conflict_store (fst after_second))" by code_simp
  have answer: "\<not> ap_replayed current_answer" "ap_revisions current_answer \<noteq> []" by code_simp+
  have read: "read_first ''a'' \<in> set (cc_confirmed current_write)" "cr_nonRecursive (read_first ''a'') \<noteq> Some True"
    "path_of (cr_path (read_first ''a'')) = [''a'']" "seq_of (cr_seq (read_first ''a'')) = 1" by code_simp+
  have addr: "read_address (case cc_branch current_write of None \<Rightarrow> DEFAULT_BRANCH | Some b \<Rightarrow> b)
      \<lparr>principal = co_principal (demo_options ''t''), sessionId = Some (co_sessionId (demo_options ''t''))\<rparr> (read_first ''a'')
    = ('''', ''space'', ''d'')" by code_simp
  have "along padding_host in_place_all (FObj [(''a'', FNull)]) (filter (\<lambda>r. 1 < rev_seq r) (ledger (fst after_second) ('''', ''d'', ''space'')))"
    by code_simp
  then show ?thesis
    using accepted_reads_are_current [OF s demo_lengths(4) readable a answer read(1,2) addr] read(3,4)
    by (simp add: demo_document [OF demo_states(3)] demo_documents DEFAULT_BRANCH_def)
qed

theorem commit_log_explains_rows_witness: "\<exists>!c. c \<in> set (snd after_first) \<and> accounts_for c content_row"
proof -
  have "content_row \<in> set (revision_rows (fst after_first))" by code_simp
  moreover have "served padding_host 0 demo_codec demo_wire ((fst after_first, snd after_first), fresh_process)" using demo_states(2) by simp
  ultimately show ?thesis using commit_log_explains_rows by blast
qed

theorem writes_are_addressed_witness: "addressed_as content_row Space"
proof -
  have f: "after_first = (fst after_first, snd after_first)" by simp
  obtain p' where a: "applyCommit padding_host 0 demo_codec demo_wire (demo_options ''s'') first_write opened_store fresh_process
      = (Inr first_answer, (fst after_first, snd after_first), p')" using submitted_apply [OF demo_runs(1)] f by metis
  have "\<not> ap_replayed first_answer" "content_row \<in> set (ap_revisions first_answer)"
    "scope_of (dop_scope (cc_operations first_write ! rev_op_index content_row)) = Space" by code_simp+
  then show ?thesis
    using writes_are_addressed [OF demo_states(1) [unfolded opened_store_def] demo_lengths(1) a [unfolded opened_store_def]] by metis
qed

text \<open>A commit of another content, from the read the patch made stale, is refused.\<close>

definition refused_write :: client_commit where
  "refused_write = demo_submission 1 [(''d'', RSet (FObj [(''a'', FBool True)]))] [read_first ''b'']"

theorem refused_commit_leaves_no_trace_witness:
  "\<exists>e p' answers later q'.
     applyCommit padding_host 0 demo_codec demo_wire (demo_options ''t'') refused_write after_second fresh_process = (Inl e, after_second, p')
   \<and> submit_all padding_host 0 demo_codec demo_wire [(demo_options ''t'', current_write)] after_second p' = (answers, later, q')
   \<and> answers = [Inr current_answer]"
proof -
  have "case fst (submitted ''t'' refused_write after_second) of Inl e \<Rightarrow> True | Inr r \<Rightarrow> False" by code_simp
  then obtain e st' p' where r:
    "applyCommit padding_host 0 demo_codec demo_wire (demo_options ''t'') refused_write after_second fresh_process = (Inl e, st', p')"
    by (auto simp: submitted_def split: prod.splits sum.splits)
  have fits: "length (cc_operations refused_write) \<le> MAX_SAFE_INTEGER"
    "\<forall>(opts, commit)\<in>set [(demo_options ''t'', current_write)]. length (cc_operations commit) \<le> MAX_SAFE_INTEGER"
    using demo_lengths(4) by (simp_all add: refused_write_def demo_submission_def MAX_SAFE_INTEGER_def)
  have "fst (submit_all padding_host 0 demo_codec demo_wire [(demo_options ''t'', current_write)] after_second fresh_process) = [Inr current_answer]"
    using demo_runs(4) by (auto simp: submitted_def split: prod.splits)
  then show ?thesis
    using refused_commit_leaves_no_trace [OF demo_states(3) fits(1) r fits(2)] r by auto
qed

end
