(* ===== verification/BranchStates.thy ===== *)
theory BranchStates
  imports DocumentStore
begin

text \<open>
  The rows of the table \<^verbatim>\<open>branch\<close> an engine keeps (\<^verbatim>\<open>branchStates\<close> in
  \<^verbatim>\<open>runtime/memory/v2/engine.ts\<close>), beside other connections that commit to the same file. A row is kept
  where it was read outside a transaction, under the data version read before it; a write of the table
  through this connection drops every row kept. SQLite is a parameter by its documented behaviour:
  \<^verbatim>\<open>PRAGMA data_version\<close> moves with the commits of other connections and with no other, a
  transaction of this connection sees its own writes and excludes those of others until it ends.
\<close>

section \<open>The connection and the rows kept\<close>

record connection =
  stored :: "branch_row list" \<comment> \<open>as committed\<close>
  transaction :: "branch_row list option" \<comment> \<open>as the open transaction sees them\<close>
  data_version :: nat

record branch_states =
  branchStates :: "string \<Rightarrow> branch_row option"
  branchStatesDataVersion :: nat

definition visible :: "connection \<Rightarrow> branch_row list" where
  "visible c = (case transaction c of None \<Rightarrow> stored c | Some rows \<Rightarrow> rows)"

definition selectBranch :: "branch_row list \<Rightarrow> string \<Rightarrow> branch_row option" where
  "selectBranch rows branch = find (\<lambda>b. branch_name b = branch) rows"

text \<open>The data version is read of one connection state and the row of a later one: other connections may
  commit in between.\<close>

definition getBranchState ::
    "branch_states \<Rightarrow> connection \<Rightarrow> connection \<Rightarrow> string \<Rightarrow> branch_row option \<times> branch_states" where
  "getBranchState s before now branch =
     (let s' = (if data_version before \<noteq> branchStatesDataVersion s
                then \<lparr>branchStates = \<lambda>_. None, branchStatesDataVersion = data_version before\<rparr> else s)
      in case branchStates s' branch of
           Some known \<Rightarrow> (Some known, s')
         | None \<Rightarrow>
             (case selectBranch (visible now) branch of
                None \<Rightarrow> (None, s')
              | Some state \<Rightarrow>
                  (Some state, if transaction now = None then s'\<lparr>branchStates := (branchStates s')(branch \<mapsto> state)\<rparr> else s')))"

definition runBranchWrite :: "(branch_row list \<Rightarrow> branch_row list) \<Rightarrow> branch_states \<times> connection \<Rightarrow> branch_states \<times> connection" where
  "runBranchWrite statement = (\<lambda>(s, c).
     (s\<lparr>branchStates := \<lambda>_. None\<rparr>,
      case transaction c of
        None \<Rightarrow> c\<lparr>stored := statement (stored c)\<rparr>
      | Some rows \<Rightarrow> c\<lparr>transaction := Some (statement rows)\<rparr>))"

section \<open>Connections over time\<close>

text \<open>Commits of other connections, none of which falls into a transaction of this one.\<close>

inductive others :: "connection \<Rightarrow> connection \<Rightarrow> bool" where
  none: "others c c"
| commit: "others c c' \<Longrightarrow> transaction c' = None \<Longrightarrow> data_version c' < v \<Longrightarrow> others c (c'\<lparr>stored := rows, data_version := v\<rparr>)"

inductive live :: "branch_states \<Rightarrow> connection \<Rightarrow> bool" where
  opened: "live \<lparr>branchStates = \<lambda>_. None, branchStatesDataVersion = 0\<rparr> \<lparr>stored = rows, transaction = None, data_version = v\<rparr>"
| elsewhere: "live s c \<Longrightarrow> others c c' \<Longrightarrow> live s c'"
| began: "live s c \<Longrightarrow> transaction c = None \<Longrightarrow> live s (c\<lparr>transaction := Some (stored c)\<rparr>)"
| wrote: "live s c \<Longrightarrow> runBranchWrite statement (s, c) = (s', c') \<Longrightarrow> live s' c'"
| committed: "live s c \<Longrightarrow> transaction c = Some rows \<Longrightarrow> live s (c\<lparr>stored := rows, transaction := None\<rparr>)"
| rolled_back: "live s c \<Longrightarrow> live s (c\<lparr>transaction := None\<rparr>)"
| read: "live s c \<Longrightarrow> others c c' \<Longrightarrow> getBranchState s c c' branch = (r, s') \<Longrightarrow> live s' c'"

text \<open>What is kept under the current data version is what is stored and what the transaction sees.\<close>

definition kept_right :: "branch_states \<Rightarrow> connection \<Rightarrow> bool" where
  "kept_right s c \<longleftrightarrow> branchStatesDataVersion s \<le> data_version c
     \<and> (branchStatesDataVersion s = data_version c \<longrightarrow>
          (\<forall>branch b. branchStates s branch = Some b \<longrightarrow>
             selectBranch (visible c) branch = Some b \<and> selectBranch (stored c) branch = Some b))"

lemma others_version: "others c c' \<Longrightarrow> c' = c \<or> data_version c < data_version c' \<and> transaction c' = None"
  by (induction rule: others.induct) auto

lemma kept_right_others: "kept_right s c \<Longrightarrow> others c c' \<Longrightarrow> kept_right s c'"
  using others_version [of c c'] by (auto simp: kept_right_def)

lemma getBranchState_right:
  assumes "kept_right s c" "others c c'" "getBranchState s c c' branch = (r, s')"
  shows "kept_right s' c'" and "r = selectBranch (visible c) branch \<or> r = selectBranch (visible c') branch"
proof -
  define s0 where "s0 = (if data_version c \<noteq> branchStatesDataVersion s
    then \<lparr>branchStates = \<lambda>_. None, branchStatesDataVersion = data_version c\<rparr> else s)"
  have s0: "branchStatesDataVersion s0 = data_version c" "kept_right s0 c"
    using assms(1) by (auto simp: s0_def kept_right_def)
  note later = others_version [OF assms(2)]
  have r: "(case branchStates s0 branch of Some known \<Rightarrow> (Some known, s0)
     | None \<Rightarrow> (case selectBranch (visible c') branch of None \<Rightarrow> (None, s0)
         | Some state \<Rightarrow> (Some state, if transaction c' = None then s0\<lparr>branchStates := (branchStates s0)(branch \<mapsto> state)\<rparr> else s0))) = (r, s')"
    using assms(3) unfolding getBranchState_def s0_def Let_def .
  show "kept_right s' c'"
  proof (cases "c' = c")
    case True
    then show ?thesis using r s0(2) by (auto simp: kept_right_def visible_def split: option.splits if_splits)
  next
    case False
    have "branchStatesDataVersion s' = data_version c" using r s0(1) by (auto split: option.splits if_splits)
    then show ?thesis using False later by (simp add: kept_right_def)
  qed
  show "r = selectBranch (visible c) branch \<or> r = selectBranch (visible c') branch"
  proof (cases "branchStates s0 branch")
    case None
    then show ?thesis using r by (auto split: option.splits)
  next
    case (Some known)
    then have "selectBranch (visible c) branch = Some known" using s0 by (simp add: kept_right_def)
    then show ?thesis using r Some by simp
  qed
qed

lemma live_right: "live s c \<Longrightarrow> kept_right s c"
proof (induction rule: live.induct)
  case (elsewhere s c c')
  then show ?case using kept_right_others by blast
next
  case (wrote s c statement s' c')
  then show ?case by (auto simp: kept_right_def runBranchWrite_def split: option.splits)
next
  case (read s c c' branch r s')
  then show ?case using getBranchState_right(1) by blast
qed (auto simp: kept_right_def visible_def)

section \<open>Properties\<close>

text \<open>C15. Keeping branch rows is transparent: whatever was read and written before, in transactions that
  committed or rolled back, and whatever other connections committed, a lookup returns the row of the
  table as it was at a moment of the call, and exactly the row a query returns where no other connection
  commits during it.\<close>

theorem branch_states_transparent:
  assumes "live s c" and "others c c'"
  shows "(fst (getBranchState s c c' branch) = selectBranch (visible c) branch
      \<or> fst (getBranchState s c c' branch) = selectBranch (visible c') branch)
    \<and> fst (getBranchState s c c branch) = selectBranch (visible c) branch"
  using getBranchState_right(2) [OF live_right [OF assms(1)] assms(2)] getBranchState_right(2) [OF live_right [OF assms(1)] others.none]
  by (metis prod.collapse)

text \<open>A row is kept, another connection moves the head of the branch, and the lookup returns the new row.\<close>

definition a_branch :: "nat \<Rightarrow> branch_row" where
  "a_branch head = \<lparr>branch_name = ''f'', parentBranch = None, forkSeq = None, createdSeq = 0, headSeq = head, branch_status = ''active''\<rparr>"

theorem branch_states_transparent_witness:
  "\<exists>s c. live s c \<and> branchStates s ''f'' = Some (a_branch 1) \<and> fst (getBranchState s c c ''f'') = Some (a_branch 2)"
proof -
  let ?c = "\<lparr>stored = [a_branch 1], transaction = None, data_version = 1\<rparr>"
  let ?s = "snd (getBranchState \<lparr>branchStates = \<lambda>_. None, branchStatesDataVersion = 0\<rparr> ?c ?c ''f'')"
  let ?c' = "?c\<lparr>stored := [a_branch 2], data_version := 2\<rparr>"
  have "live ?s ?c" by (rule live.read [OF live.opened others.none]) (rule prod.collapse [symmetric])
  moreover have "others ?c ?c'" by (rule others.commit [OF others.none]) simp_all
  ultimately have l: "live ?s ?c'" by (rule live.elsewhere)
  have kept: "branchStates ?s ''f'' = Some (a_branch 1)"
    by (simp add: getBranchState_def selectBranch_def visible_def a_branch_def Let_def)
  have "selectBranch (visible ?c') ''f'' = Some (a_branch 2)" by (simp add: selectBranch_def visible_def a_branch_def)
  then have "fst (getBranchState ?s ?c' ?c' ''f'') = Some (a_branch 2)"
    using branch_states_transparent [OF l others.none, of "''f''"] by simp
  then show ?thesis using l kept by (intro exI [of _ ?s] exI [of _ ?c'] conjI)
qed

end
