(* ===== verification/Spec2Isabelle.thy ===== *)
theory Spec2Isabelle
  imports ConflictSound ReadValidation PatchDiff CommitProperties BranchStates
begin

text \<open>
  Common Fabric: values, their content hash, patches of documents, and the memory engine that stores
  documents, validates commits and keeps histories.

  \<^bold>\<open>The program.\<close> Common Fabric stores documents of fabric values. A client edits a document in a
  transaction; the runner diffs what the transaction wrote into a patch
  (\<^verbatim>\<open>src/runtime/runner/src/storage/v2-transaction.ts\<close>) and commits it, with the reads it made, to
  the memory engine (\<^verbatim>\<open>src/runtime/memory/v2/engine.ts\<close>). The engine checks the shape of the reads,
  resolves the pending ones against the commits they were made on, refuses the commit where a stored
  write conflicts with a read, and otherwise appends its operations to the histories of documents, on
  a branch, in one transaction. Reading a document replays patches over its newest base, snapshot or
  cached revision
  (\<^verbatim>\<open>src/runtime/memory/v2/patch.ts\<close>), with paths as JSON pointers (\<^verbatim>\<open>path.ts\<close>), instances of a
  document named by scope keys (\<^verbatim>\<open>src/runtime/memory/v2.ts\<close>), and values compared by content: the
  hash of a canonical byte form (\<^verbatim>\<open>src/base/data-model/src/value-hash\<close>), whose integers are LEB128
  lengths and minimal two's-complement bytes and whose digests are written in base64url
  (\<^verbatim>\<open>src/base/bytes/src\<close>).

  \<^bold>\<open>The theories\<close>, in import order, each after the part of the code it models.
  \<^item> \<open>Prelude\<close>: bytes, results as sums, the locales \<open>readable\<close> and \<open>stream_codec\<close>.
  \<^item> \<open>Leb128\<close> (\<^verbatim>\<open>leb128.ts\<close>): all four functions on 32-bit words, both loops with their end conditions.
    The unsigned codec interprets \<open>stream_codec\<close>.
  \<^item> \<open>Base64url\<close> (\<^verbatim>\<open>base64url.ts\<close>): the polyfills of the encoder and the decoder.
  \<^item> \<open>TwosComplement\<close> (\<^verbatim>\<open>bigint*.ts\<close>): the hexadecimal and the direct implementation, and the choice
    between them; both against one specification, the shortest two's-complement bytes.
  \<^item> \<open>Float64\<close>: binary64 as 64-bit words, with addition rounded to nearest, ties to even.
  \<^item> \<open>FabricValue\<close> (\<^verbatim>\<open>base/js-values\<close>, \<^verbatim>\<open>base/data-model\<close>): values, their shapes, \<open>deepEqual\<close>.
  \<^item> \<open>ValueHash\<close> (\<^verbatim>\<open>value-hash/\<close>, \<^verbatim>\<open>comparison/\<close>): the bytes a value is hashed over, hash strings, and
    the two comparisons; \<open>canon\<close> is what a value's content is.
  \<^item> \<open>JsonPath\<close> (\<^verbatim>\<open>path.ts\<close>): pointers, prefixes, overlap.
  \<^item> \<open>PathEdit\<close> (\<^verbatim>\<open>value-clone.ts\<close>): editing along a path; its facts come from the locale \<open>path_store\<close>,
    interpreted on the model's trees.
  \<^item> \<open>Patch\<close>, \<open>ValueSet\<close>, \<open>PatchFacts\<close>, \<open>PatchMerge\<close> (\<^verbatim>\<open>patch.ts\<close>, \<^verbatim>\<open>splice.ts\<close>): every operation and
    its replay; the set of values that \<^verbatim>\<open>add-unique\<close> uses, refined to a set of contents; what each
    operation reads back and leaves alone; how two mergeable operations combine.
  \<^item> \<open>TouchedPaths\<close> (\<^verbatim>\<open>touched-path-index.ts\<close>): the index, refined to a scan.
  \<^item> \<open>ScopeKey\<close> (\<^verbatim>\<open>v2.ts\<close>): the vocabulary of scope keys and dirty keys.
  \<^item> \<open>Conflicts\<close>, \<open>ConflictSound\<close> (\<^verbatim>\<open>engine.ts\<close>): \<^verbatim>\<open>findConflictSeq\<close> with what it keeps between reads;
    that it decides as if it kept nothing; that a read it lets pass is fresh.
  \<^item> \<open>ReadValidation\<close> (\<^verbatim>\<open>engine.ts\<close>): the reads of a commit, confirmed and pending, and the stale-read
    check of a wave commit.
  \<^item> \<open>PatchDiff\<close> (\<^verbatim>\<open>v2-path.ts\<close>, \<^verbatim>\<open>v2-transaction.ts\<close>): the patch a commit sends.
  \<^item> \<open>DocumentCache\<close> (\<^verbatim>\<open>engine.ts\<close>): the caches of decoded revisions and their coordinator. What reading
    relies on is the locale \<open>memo_table\<close>, interpreted on the cache of the code; the bounds are an
    invariant of the whole process.
  \<^item> \<open>DocumentStore\<close> (\<^verbatim>\<open>engine.ts\<close>): the tables and their statements, branches, reading a document at a
    number or at a row, replay, snapshots, the writing part of a commit and its transaction.
  \<^item> \<open>DocumentHistory\<close>: what a document is, the fold of its rows, and that reading returns it.
  \<^item> \<open>DocumentCommit\<close>, \<open>DocumentEngine\<close>: that writing, snapshots, branches and transactions keep the
    invariants of the tables and the cache, and leave earlier states as they were.
  \<^item> \<open>EngineStates\<close>, \<open>EngineProperties\<close>: the states an engine reaches, and what it promises in them.
  \<^item> \<open>IdentityCommit\<close> (\<^verbatim>\<open>engine.ts\<close>): the read validation of a commit with its escape: a commit that a
    stale read would refuse is accepted where what it writes is what the documents hold already.
  \<^item> \<open>AppliedCommit\<close> (\<^verbatim>\<open>engine.ts\<close>, \<^verbatim>\<open>applyCommit\<close>): a commit from its submission to its answer, with the
    table of commits: replays, derived commits and the keys they name, preconditions,
    content-addressed documents, the writing part of \<open>DocumentStore\<close> and the row of the commit.
  \<^item> \<open>CommitLog\<close>: the steps of a store (\<open>step\<close>), the states it reaches (\<open>served\<close>), and the invariant of
    the table of commits beside the tables of documents (\<open>store_ok\<close>).
  \<^item> \<open>CommitProperties\<close>: what a store promises a client: a commit is applied once, the reads of a
    commit that writes are current, an accepted stale commit writes nothing, content under its hash does
    not change, every row belongs to one commit and is addressed as the commit declares, and a refused
    commit leaves no trace, in the store or in the cache.
  \<^item> \<open>BranchStates\<close> (\<^verbatim>\<open>engine.ts\<close>): the branch rows an engine keeps beside other connections.

  \<^bold>\<open>How the state corresponds.\<close> A \<^verbatim>\<open>throw\<close> is \<open>Inl\<close> of the component's error type, and messages are
  left out. A JavaScript string is the list of its WTF-8 bytes. A number is its 64 bits. An array is a
  list whose \<open>None\<close> entries are holes, an object the list of its own properties in order, a \<^verbatim>\<open>Map\<close> the
  list of its entries in insertion order or a function where only look-ups matter. The engine's SQL
  tables are lists of rows, in the record \<open>store\<close>, and a statement is the filter, join and order of its
  text. Mutation in place is the write of the mutated container back at its path.

  A document is read from the record \<open>doc_tables\<close>, one field for each of the tables \<^verbatim>\<open>revision\<close>, \<^verbatim>\<open>head\<close>,
  \<^verbatim>\<open>snapshot\<close> and \<^verbatim>\<open>branch\<close>, the numbers of \<^verbatim>\<open>commit\<close>, and the two settings of snapshots. The record \<open>process\<close>
  holds the caches of all engines and the coordinator between them; a function that looks documents up
  takes a process and returns the one it leaves, also where it throws. A transaction that throws returns
  the tables it began with. The abstract side is \<open>document_view\<close>: the fold of a document's rows up to a
  number (\<open>run_rows\<close>), or the parent's at the fork where the branch has none. The invariant of the tables
  is \<open>tables_ok\<close>, the one of a cache \<open>cache_ok\<close>, and \<open>reached\<close> is the step relation of an engine: it holds
  both in every reachable state, from which the properties of reads and commits follow. A
  \<open>commit_store\<close> adds the rows of the table \<^verbatim>\<open>commit\<close>, and \<open>step\<close> has whole submissions where \<open>reached\<close>
  has the writing part alone. A step that reads documents is a \<open>reading\<close>: a function of the process,
  with the \<^verbatim>\<open>try\<close> of the code as \<open>catchP\<close>.

  \<^bold>\<open>Parameters.\<close> The record \<open>host\<close> holds what the code takes from outside: \<^verbatim>\<open>SHA-256\<close>, whether the
  host has \<^verbatim>\<open>Uint8Array.fromHex\<close>, and two facts of a run that values do not carry, object identity
  and deep-frozenness; no property depends on the last three. Properties that compare hashes assume
  \<open>sha_ok\<close>: digests of 32 bytes, and no collision among the finitely many byte strings hashed in the
  statement. What SQLite compares equal to a bound parameter is \<open>sqlEq\<close> of a \<open>store\<close>. The record \<open>codec\<close>
  holds what the engine measures of encoded rows and documents; it decides what a cache retains and
  names, and no property of what is read depends on it. The record \<open>wire\<close> holds the texts a commit and a
  value are encoded to; replays are told apart by the first, and no property assumes it injective. The
  lease holder of a space and the flag of server execution are fields of \<open>commit_options\<close>.
  \<^verbatim>\<open>PRAGMA data_version\<close> is a parameter by its documented behaviour, in the step relation of
  \<open>BranchStates\<close>. The steps of \<open>reached\<close> and of \<open>step\<close> assume at most
  \<open>MAX_SAFE_INTEGER\<close> operations in a commit and forks in the range of their parents, which the engine does
  not check. Names may hold any character: cache keys are told apart by the number and index of a row.

  \<^bold>\<open>Bounds.\<close> All recursions terminate by structure or by a measure, but for one on fuel:
  \<open>readRowForBranch\<close> follows the parents of branches, a chain that tables alone do not bound, and is
  given one unit of fuel for every branch and one more (\<open>read_row\<close>). That is enough in every reachable
  state, since a parent is created before its children (\<open>reads_return\<close>); running out would be the error
  \<open>NoReturn\<close>, which the code does not have. The depth
  limit of the structural walk (\<open>MAX_WALK_DEPTH\<close>) is the code's. Array indices go up to
  \<open>MAX_ARRAY_INDEX\<close>; that an array cannot grow past that length is not enforced, and the properties
  that need it assume it.

  \<^bold>\<open>Not modelled.\<close> Freezing, the identity of shared substructure and cyclic values; named properties
  on arrays, where the model stops with \<open>NamedArrayProperty\<close> or \<open>OutsideModel\<close>; the own keys
  \<^verbatim>\<open>__proto__\<close> and \<^verbatim>\<open>constructor\<close>, whose assignment is not that of a plain property; caches that hold
  what the functions return; the decoding of stored operations and what is counted of the cache's use.
  Of a commit, the operations \<^verbatim>\<open>sqlite\<close>, \<^verbatim>\<open>apply-op\<close> and \<^verbatim>\<open>release-op-field\<close>; delegated carriage, which
  stands for another principal; the stamping of event streams and their watermarks, which write rows
  of their own, and the stamps and the removal of repeated intents in what a derived commit writes to the
  document of effects: a commit that comes to write a stream, or a derived one the document of effects,
  leaves the model with \<open>RewrittenDocument\<close>; and what refuses further commits and does nothing else: the
  closures of schema and label documents, the release of declared labels, the genesis of a space and its
  deletion. Commits of waves, beyond what one derived commit is checked for; blobs and the migration of
  files. Offline compaction (\<^verbatim>\<open>compact.ts\<close>) and the reaping of deleted spaces (\<^verbatim>\<open>reap.ts\<close>), which rewrite
  or delete rows of commits and documents in a store no engine has open: they are no steps of \<open>reached\<close> or
  \<open>step\<close>, and the properties of what a store reaches hold between them, not across them. The server, the
  runner's scheduler, schema traversal and information-flow control, the shell, the command line and the
  tests: they are asynchronous, or run code they are given, and the modelled parts do not depend on them.
\<close>

end
